(* ===== verification/Prelude.thy ===== *)
theory Prelude
  imports Main "HOL-Library.Word"
begin

text \<open>
  Shared vocabulary of the development.  It fixes the machine types the C++ sources use,
  the run-time failures their operations can end in, the sequencing of fallible operations,
  and the few facts on \<open>std::vector\<close> storage, words and lists that several components need.
\<close>

section \<open>Machine types\<close>

text \<open>
  The library is built for x86_64: \<open>size_t\<close> has 64 bits and wraps around, \<open>int\<close> has 32 bits
  and is read in two's complement by \<^const>\<open>sint\<close>.
\<close>

type_synonym size_t = "64 word"
type_synonym c_int = "32 word"

text \<open>
  The two implicit conversions the buffers perform: \<open>size_t\<close> to \<open>int\<close> keeps the low 32 bits,
  \<open>int\<close> to \<open>size_t\<close> extends the sign.
\<close>

definition int_of_size :: "size_t \<Rightarrow> c_int" where
  "int_of_size n = ucast n"

definition size_of_int :: "c_int \<Rightarrow> size_t" where
  "size_of_int n = scast n"

section \<open>Failures and sequencing\<close>

text \<open>
  What an operation of the library can end in, other than returning: an access outside an
  allocated object or a missing \<open>return\<close> (undefined behaviour), \<open>std::length_error\<close> of a
  vector, the call of an empty \<open>std::function\<close>, a join that \<open>std::thread\<close> refuses, and \<open>abort()\<close> after a \<open>LOG_FATAL\<close>.
\<close>

datatype cxx_error = UndefinedBehaviour | LengthError | BadFunctionCall | SystemError | FatalAbort

type_synonym 'a res = "cxx_error + 'a"

fun rbind :: "'a res \<Rightarrow> ('a \<Rightarrow> 'b res) \<Rightarrow> 'b res" where
  "rbind (Inl e) f = Inl e"
| "rbind (Inr x) f = f x"

lemma rbind_eq_Inr: "rbind m f = Inr y \<longleftrightarrow> (\<exists>x. m = Inr x \<and> f x = Inr y)"
  by (cases m) auto

lemma rbind_eq_Inl: "rbind m f = Inl e \<longleftrightarrow> m = Inl e \<or> (\<exists>x. m = Inr x \<and> f x = Inl e)"
  by (cases m) auto

lemma rbind_assoc: "rbind (rbind m f) g = rbind m (\<lambda>x. rbind (f x) g)"
  by (cases m) auto

text \<open>
  Collections: \<open>ub_simps\<close> decides the bounds checks of raw storage, \<open>inv_intros\<close> holds the
  preservation lemmas of the component invariants.
\<close>

named_theorems ub_simps \<open>bounds checks of raw storage\<close>
named_theorems inv_intros \<open>preservation of component invariants\<close>

section \<open>Raw storage\<close>

text \<open>
  \<open>std::vector<T>\<close> storage is a list.  Reads, writes and copies through raw pointers are
  bounds checked here: leaving the allocated range is undefined behaviour, never a value.
\<close>

definition vec_max_size :: nat where
  "vec_max_size = 2 ^ 63 - 1"

definition vec_read :: "'a list \<Rightarrow> nat \<Rightarrow> nat \<Rightarrow> 'a list res" where
  "vec_read xs off n =
     (if off + n \<le> length xs then Inr (take n (drop off xs)) else Inl UndefinedBehaviour)"

definition vec_write :: "'a list \<Rightarrow> nat \<Rightarrow> 'a list \<Rightarrow> 'a list res" where
  "vec_write xs off ds =
     (if off + length ds \<le> length xs
      then Inr (take off xs @ ds @ drop (off + length ds) xs) else Inl UndefinedBehaviour)"

definition vec_resize :: "'a \<Rightarrow> size_t \<Rightarrow> 'a list \<Rightarrow> 'a list res" where
  "vec_resize z n xs =
     (if unat n > vec_max_size then Inl LengthError
      else Inr (take (unat n) xs @ replicate (unat n - length xs) z))"

lemma vec_read_ok [ub_simps]:
  "off + n \<le> length xs \<Longrightarrow> vec_read xs off n = Inr (take n (drop off xs))"
  by (simp add: vec_read_def)

lemma vec_write_ok [ub_simps]:
  "off + length ds \<le> length xs
   \<Longrightarrow> vec_write xs off ds = Inr (take off xs @ ds @ drop (off + length ds) xs)"
  by (simp add: vec_write_def)

lemma vec_write_length: "vec_write xs off ds = Inr ys \<Longrightarrow> length ys = length xs"
  by (auto simp: vec_write_def split: if_splits)

lemma vec_write_bound: "vec_write xs off ds = Inr ys \<Longrightarrow> off + length ds \<le> length xs"
  by (auto simp: vec_write_def split: if_splits)

lemma vec_resize_grow [ub_simps]:
  "unat n \<le> vec_max_size \<Longrightarrow> length xs \<le> unat n
   \<Longrightarrow> vec_resize z n xs = Inr (xs @ replicate (unat n - length xs) z)"
  by (simp add: vec_resize_def)

text \<open>The part of the storage between two indices, and how a write into it shows there.\<close>

definition slice :: "nat \<Rightarrow> nat \<Rightarrow> 'a list \<Rightarrow> 'a list" where
  "slice lo hi xs = take (hi - lo) (drop lo xs)"

lemma length_slice: "hi \<le> length xs \<Longrightarrow> length (slice lo hi xs) = hi - lo"
  by (simp add: slice_def)

lemma slice_write_end:
  assumes "lo \<le> hi" "hi + length ds \<le> length xs"
  shows "slice lo (hi + length ds) (take hi xs @ ds @ drop (hi + length ds) xs) = slice lo hi xs @ ds"
proof -
  have "hi + length ds - lo = (hi - lo) + length ds" using assms by simp
  moreover have "length (drop lo (take hi xs)) = hi - lo" using assms by simp
  ultimately show ?thesis using assms by (simp add: slice_def drop_take)
qed

lemma slice_append: "hi \<le> length xs \<Longrightarrow> slice lo hi (xs @ ys) = slice lo hi xs"
  by (simp add: slice_def)

lemma slice_drop: "lo + k \<le> hi \<Longrightarrow> slice (lo + k) hi xs = drop k (slice lo hi xs)"
  by (simp add: slice_def drop_take add.commute)

lemma slice_middle: "length xs = lo \<Longrightarrow> slice lo (lo + length ys) (xs @ ys @ zs) = ys"
  by (simp add: slice_def)

lemma slice_empty [simp]: "slice lo lo xs = []"
  by (simp add: slice_def)

section \<open>Words\<close>

lemma unat_add_fits:
  fixes a b :: size_t
  shows "unat a + unat b < 2 ^ 64 \<Longrightarrow> unat (a + b) = unat a + unat b"
  by (simp add: unat_word_ariths)

lemma unat_sub_le:
  fixes a b :: size_t
  shows "unat b \<le> unat a \<Longrightarrow> unat (a - b) = unat a - unat b"
  by (simp add: unat_sub word_le_nat_alt)

lemma unat_size_lt: "unat (n :: size_t) < 2 ^ 64"
  by (rule order_less_le_trans [OF unsigned_less]) simp

lemma unat_minus_one_size: "unat (- 1 :: size_t) = 2 ^ 64 - 1"
proof -
  have "(- 1 :: size_t) = 18446744073709551615" by simp
  then show ?thesis by (rule ssubst) simp
qed

lemma unat_of_nat_fits: "n < 2 ^ 64 \<Longrightarrow> unat (of_nat n :: size_t) = n"
  by (simp add: unat_of_nat take_bit_nat_eq_self)

lemma size_int_roundtrip:
  assumes "unat n < 2 ^ 31"
  shows "size_of_int (int_of_size n) = n"
proof -
  have "uint n < 2 ^ 31"
    using assms by (metis nat_less_iff unat_eq_nat_uint uint_ge_0 of_nat_numeral of_nat_power)
  then have "signed_take_bit 31 (uint n) = uint n"
    by (intro signed_take_bit_int_eq_self) (auto intro: order_trans [OF _ uint_ge_0])
  then have "scast (ucast n :: c_int) = (word_of_int (uint n) :: size_t)"
    by (simp add: scast_eq signed_ucast_eq)
  then show ?thesis by (simp add: size_of_int_def int_of_size_def)
qed

lemma sint_of_nat_fits: "n < 2 ^ 31 \<Longrightarrow> sint (of_nat n :: c_int) = int n"
  by (simp add: signed_of_nat signed_take_bit_int_eq_self)

lemma sint_int_of_size:
  assumes "n < 2 ^ 31"
  shows "sint (int_of_size (of_nat n)) = int n"
proof -
  have "take_bit 64 n = n" using assms by (intro take_bit_nat_eq_self) simp
  then have "int_of_size (of_nat n) = of_nat n"
    by (simp add: int_of_size_def unsigned_of_nat)
  then show ?thesis using assms by (simp add: sint_of_nat_fits)
qed

lemma int_of_size_minus_one: "sint (int_of_size (- 1)) = - 1"
proof -
  have "int_of_size (- 1) = - 1"
    unfolding int_of_size_def by (rule bit_word_eqI) (simp add: bit_ucast_iff)
  then show ?thesis by simp
qed

end
