(* ===== verification/Channel.thy ===== *)
theory Channel
  imports Prelude
begin

unbundle bit_operations_syntax

text \<open>
  \<open>include/net/Channel.h\<close> and \<open>src/net/Channel.cpp\<close>: a descriptor with the events it wants, the
  events it got and the callbacks bound to them.  Callbacks are defunctionalised: one constructor
  per \<open>std::bind\<close> of the sources.  Objects are known by their address.
\<close>

type_synonym obj = nat

datatype callback =
    LoopHandleRead | AcceptorHandleRead
  | ConnHandleRead obj | ConnHandleWrite obj | ConnHandleClose obj | ConnHandleError obj

record channel =
  ch_fd :: int
  ch_events :: c_int
  ch_revents :: c_int
  ch_index :: int
  ch_tie :: "obj option"
  ch_tied :: bool
  readCallback :: "callback option"
  writeCallback :: "callback option"
  closeCallback :: "callback option"
  errorCallback :: "callback option"

text \<open>The event bits of \<open>sys/epoll.h\<close>.\<close>

definition EPOLLIN :: c_int where "EPOLLIN = 1"
definition EPOLLPRI :: c_int where "EPOLLPRI = 2"
definition EPOLLOUT :: c_int where "EPOLLOUT = 4"
definition EPOLLERR :: c_int where "EPOLLERR = 8"
definition EPOLLHUP :: c_int where "EPOLLHUP = 16"

lemmas epoll_bits = EPOLLIN_def EPOLLPRI_def EPOLLOUT_def EPOLLERR_def EPOLLHUP_def

definition kNoneEvent :: c_int where "kNoneEvent = 0"
definition kReadEvent :: c_int where "kReadEvent = EPOLLIN OR EPOLLPRI"
definition kWriteEvent :: c_int where "kWriteEvent = EPOLLOUT"

definition channel_new :: "int \<Rightarrow> channel" where
  "channel_new fd = \<lparr>ch_fd = fd, ch_events = 0, ch_revents = 0, ch_index = - 1,
     ch_tie = None, ch_tied = False, readCallback = None, writeCallback = None,
     closeCallback = None, errorCallback = None\<rparr>"

definition channel_tie :: "obj \<Rightarrow> channel \<Rightarrow> channel" where
  "channel_tie o1 ch = ch\<lparr>ch_tie := Some o1, ch_tied := True\<rparr>"

text \<open>The setters; a moved \<open>std::function\<close> is the callback it was bound to.\<close>

definition setReadCallback :: "callback \<Rightarrow> channel \<Rightarrow> channel" where
  [simp]: "setReadCallback cb ch = ch\<lparr>readCallback := Some cb\<rparr>"

definition setWriteCallback :: "callback \<Rightarrow> channel \<Rightarrow> channel" where
  [simp]: "setWriteCallback cb ch = ch\<lparr>writeCallback := Some cb\<rparr>"

definition setCloseCallback :: "callback \<Rightarrow> channel \<Rightarrow> channel" where
  [simp]: "setCloseCallback cb ch = ch\<lparr>closeCallback := Some cb\<rparr>"

definition setErrorCallback :: "callback \<Rightarrow> channel \<Rightarrow> channel" where
  [simp]: "setErrorCallback cb ch = ch\<lparr>errorCallback := Some cb\<rparr>"

definition set_revents :: "c_int \<Rightarrow> channel \<Rightarrow> channel" where
  [simp]: "set_revents revt ch = ch\<lparr>ch_revents := revt\<rparr>"

definition isNoneEvent :: "channel \<Rightarrow> bool" where
  "isNoneEvent ch \<longleftrightarrow> ch_events ch = kNoneEvent"

definition isReading :: "channel \<Rightarrow> bool" where
  "isReading ch \<longleftrightarrow> ch_events ch AND kReadEvent \<noteq> 0"

definition isWriting :: "channel \<Rightarrow> bool" where
  "isWriting ch \<longleftrightarrow> ch_events ch AND kWriteEvent \<noteq> 0"

text \<open>The changes of the wanted events; the call of \<open>update()\<close> after each is in the poller's theory.\<close>

definition ev_enableReading :: "c_int \<Rightarrow> c_int" where "ev_enableReading e = e OR kReadEvent"
definition ev_disableReading :: "c_int \<Rightarrow> c_int" where "ev_disableReading e = e AND NOT kReadEvent"
definition ev_enableWriting :: "c_int \<Rightarrow> c_int" where "ev_enableWriting e = e OR kWriteEvent"
definition ev_disableWriting :: "c_int \<Rightarrow> c_int" where "ev_disableWriting e = e AND NOT kWriteEvent"
definition ev_disableAll :: "c_int \<Rightarrow> c_int" where "ev_disableAll e = e AND kNoneEvent"

lemmas ev_defs = ev_enableReading_def ev_disableReading_def ev_enableWriting_def
  ev_disableWriting_def ev_disableAll_def

section \<open>Dispatch\<close>

text \<open>
  An empty \<open>std::function\<close> is tested before it is called.  The handlers run one after the other and cannot change the masks or the callbacks they are
  dispatched from, so the dispatch is the list of callbacks that are invoked, in order.
\<close>

definition invoke :: "callback option \<Rightarrow> callback list" where
  "invoke f = (case f of Some c \<Rightarrow> [c] | None \<Rightarrow> [])"

lemma mem_invoke [simp]: "c \<in> set (invoke f) \<longleftrightarrow> f = Some c"
  by (cases f) (auto simp: invoke_def)

definition handleEventWithGuard :: "channel \<Rightarrow> callback list" where
  "handleEventWithGuard ch =
     (if ch_revents ch AND EPOLLHUP \<noteq> 0 \<and> \<not> ch_revents ch AND EPOLLIN \<noteq> 0
      then invoke (closeCallback ch) else [])
     @ (if ch_revents ch AND (EPOLLIN OR EPOLLPRI) \<noteq> 0
        then invoke (readCallback ch) else [])
     @ (if ch_revents ch AND EPOLLOUT \<noteq> 0
        then invoke (writeCallback ch) else [])"

text \<open>\<open>alive\<close> tells which tied objects still have an owner, that is, whose \<open>weak_ptr\<close> can be locked.\<close>

definition handleEvent :: "(obj \<Rightarrow> bool) \<Rightarrow> channel \<Rightarrow> callback list" where
  "handleEvent alive ch =
     (if ch_tied ch
      then (case ch_tie ch of
              Some o1 \<Rightarrow> if alive o1 then handleEventWithGuard ch else []
            | None \<Rightarrow> [])
      else handleEventWithGuard ch)"

section \<open>Bits of the event masks\<close>

lemma and_mask_eq_0_iff: "(w :: c_int) AND 2 ^ n = 0 \<longleftrightarrow> \<not> bit w n"
  by (rule and_exp_eq_0_iff_not_bit)

lemma bit_of_masks:
  "(w :: c_int) AND EPOLLIN \<noteq> 0 \<longleftrightarrow> bit w 0"
  "w AND EPOLLPRI \<noteq> 0 \<longleftrightarrow> bit w 1"
  "w AND EPOLLOUT \<noteq> 0 \<longleftrightarrow> bit w 2"
  "w AND EPOLLERR \<noteq> 0 \<longleftrightarrow> bit w 3"
  "w AND EPOLLHUP \<noteq> 0 \<longleftrightarrow> bit w 4"
  using and_mask_eq_0_iff [of w 0] and_mask_eq_0_iff [of w 1] and_mask_eq_0_iff [of w 2]
    and_mask_eq_0_iff [of w 3] and_mask_eq_0_iff [of w 4]
  by (simp_all add: epoll_bits)

lemma and_or_eq_0:
  fixes w :: c_int
  shows "w AND (a OR b) = 0 \<longleftrightarrow> w AND a = 0 \<and> w AND b = 0"
  by (auto simp: bit_eq_iff bit_simps)

lemma isWriting_bit: "isWriting ch \<longleftrightarrow> bit (ch_events ch) 2"
  by (simp add: isWriting_def kWriteEvent_def bit_of_masks)

lemma bit_mask_values:
  "bit EPOLLIN n \<longleftrightarrow> n = 0" "bit EPOLLPRI n \<longleftrightarrow> n = 1" "bit EPOLLOUT n \<longleftrightarrow> n = 2"
proof -
  have "bit (2 ^ k :: c_int) n \<longleftrightarrow> n = k" if "k < 32" for k
    using that by (auto simp: bit_exp_iff)
  from this [of 0] this [of 1] this [of 2] show
    "bit EPOLLIN n \<longleftrightarrow> n = 0" "bit EPOLLPRI n \<longleftrightarrow> n = 1" "bit EPOLLOUT n \<longleftrightarrow> n = 2"
    by (simp_all add: epoll_bits)
qed

lemma bit_ev:
  "n < 32 \<Longrightarrow> bit (ev_enableReading e) n \<longleftrightarrow> bit e n \<or> n = 0 \<or> n = 1"
  "n < 32 \<Longrightarrow> bit (ev_disableReading e) n \<longleftrightarrow> bit e n \<and> n \<noteq> 0 \<and> n \<noteq> 1"
  "n < 32 \<Longrightarrow> bit (ev_enableWriting e) n \<longleftrightarrow> bit e n \<or> n = 2"
  "n < 32 \<Longrightarrow> bit (ev_disableWriting e) n \<longleftrightarrow> bit e n \<and> n \<noteq> 2"
  "\<not> bit (ev_disableAll e) n"
  by (auto simp: ev_defs kReadEvent_def kWriteEvent_def kNoneEvent_def bit_simps bit_mask_values)

lemma ev_disableAll_zero [simp]: "ev_disableAll e = 0"
  by (simp add: ev_defs kNoneEvent_def)

lemma mem_handleEventWithGuard:
  "c \<in> set (handleEventWithGuard ch) \<longleftrightarrow>
     closeCallback ch = Some c \<and> bit (ch_revents ch) 4 \<and> \<not> bit (ch_revents ch) 0 \<or>
     readCallback ch = Some c \<and> (bit (ch_revents ch) 0 \<or> bit (ch_revents ch) 1) \<or>
     writeCallback ch = Some c \<and> bit (ch_revents ch) 2"
  by (auto simp: handleEventWithGuard_def bit_of_masks and_or_eq_0)

lemma mem_handleEvent:
  "c \<in> set (handleEvent alive ch) \<longleftrightarrow>
     (ch_tied ch \<longrightarrow> (\<exists>o1. ch_tie ch = Some o1 \<and> alive o1)) \<and> c \<in> set (handleEventWithGuard ch) "
  by (cases "ch_tie ch") (auto simp: handleEvent_def)

section \<open>Properties\<close>

text \<open>
  Dispatch of a returned event.  A tied channel whose object is gone invokes nothing.
  Otherwise close comes first (on a hang-up with nothing left to read), then read (on input or
  urgent data), then write, each at most once and exactly if its bit is set and its callback bound.
\<close>

theorem channel_dispatch:
  "handleEvent alive ch =
     (let r = ch_revents ch; call = (\<lambda>b cb. if b then (case cb of Some c \<Rightarrow> [c] | None \<Rightarrow> []) else []) in
      if ch_tied ch \<and> \<not> (\<exists>o1. ch_tie ch = Some o1 \<and> alive o1) then []
      else call (bit r 4 \<and> \<not> bit r 0) (closeCallback ch)
        @ call (bit r 0 \<or> bit r 1) (readCallback ch)
        @ call (bit r 2) (writeCallback ch))"
  by (auto simp: handleEvent_def handleEventWithGuard_def bit_of_masks and_or_eq_0 invoke_def Let_def split: option.split)

text \<open>
  The error callback is dead.  \<open>handleEventWithGuard\<close> has no branch for \<open>EPOLLERR\<close>: a callback
  bound only with \<open>setErrorCallback\<close> is invoked for no returned mask, and a bare \<open>EPOLLERR\<close> invokes
  nothing at all.
\<close>

theorem channel_error_never_called:
  assumes "errorCallback ch = Some c"
    and "closeCallback ch \<noteq> Some c" "readCallback ch \<noteq> Some c" "writeCallback ch \<noteq> Some c"
  shows "c \<notin> set (handleEvent alive (ch\<lparr>ch_revents := r\<rparr>))
       \<and> handleEvent alive (ch\<lparr>ch_revents := EPOLLERR\<rparr>) = []"
proof
  show "c \<notin> set (handleEvent alive (ch\<lparr>ch_revents := r\<rparr>))"
    using assms by (simp add: mem_handleEvent mem_handleEventWithGuard)
  have "handleEventWithGuard (ch\<lparr>ch_revents := EPOLLERR\<rparr>) = []"
    by (simp add: handleEventWithGuard_def epoll_bits)
  then show "handleEvent alive (ch\<lparr>ch_revents := EPOLLERR\<rparr>) = []"
    by (cases "ch_tie ch") (simp_all add: handleEvent_def handleEventWithGuard_def)
qed

lemma channel_error_never_called_witness:
  "ConnHandleError 1 \<notin> set (handleEvent (\<lambda>_. True)
     (channel_new 5\<lparr>readCallback := Some (ConnHandleRead 1), writeCallback := Some (ConnHandleWrite 1),
       closeCallback := Some (ConnHandleClose 1), errorCallback := Some (ConnHandleError 1),
       ch_revents := EPOLLERR OR EPOLLHUP\<rparr>))"
  using channel_error_never_called [of
     "channel_new 5\<lparr>readCallback := Some (ConnHandleRead 1), writeCallback := Some (ConnHandleWrite 1),
       closeCallback := Some (ConnHandleClose 1), errorCallback := Some (ConnHandleError 1)\<rparr>"
     "ConnHandleError 1" "\<lambda>_. True" "EPOLLERR OR EPOLLHUP"]
  by simp

end
