(* ===== verification/Poller.thy ===== *)
theory Poller
  imports Channel
begin

text \<open>
  \<open>Poller.h\<close>, \<open>EpollPoller.h\<close> and their sources: the registration of channels with one epoll
  instance and the delivery of its events.  The poller mutates channels through pointers, so the
  state holds the channel objects by address (\<open>chans\<close>).  The kernel is a parameter: \<open>ctl\<close> stands
  for \<open>epoll_ctl\<close> on an abstract instance of type \<open>'k\<close>, and the result of \<open>epoll_wait\<close> is an
  argument of \<open>poll\<close>.
\<close>

section \<open>State\<close>

type_synonym ptr = nat
type_synonym epoll_event = "c_int \<times> ptr"

datatype ctl_op = CTL_ADD | CTL_MOD | CTL_DEL

type_synonym 'k epoll_ctl = "'k \<Rightarrow> ctl_op \<Rightarrow> int \<Rightarrow> epoll_event \<Rightarrow> 'k \<times> int"

definition kNew :: int where "kNew = - 1"
definition kAdded :: int where "kAdded = 1"
definition kDeleted :: int where "kDeleted = 2"

lemmas index_defs = kNew_def kAdded_def kDeleted_def

definition kInitEventListSize :: nat where "kInitEventListSize = 16"

record 'k poller =
  chans :: "ptr \<Rightarrow> channel"
  channels :: "int \<rightharpoonup> ptr"
  epollfd :: 'k
  evlist :: "epoll_event list"

definition set_chan :: "ptr \<Rightarrow> (channel \<Rightarrow> channel) \<Rightarrow> ('k, 'z) poller_scheme \<Rightarrow> ('k, 'z) poller_scheme" where
  "set_chan p f s = s\<lparr>chans := (chans s)(p := f (chans s p))\<rparr>"

definition set_index :: "ptr \<Rightarrow> int \<Rightarrow> ('k, 'z) poller_scheme \<Rightarrow> ('k, 'z) poller_scheme" where
  "set_index p idx s = set_chan p (\<lambda>ch. ch\<lparr>ch_index := idx\<rparr>) s"

section \<open>Registration\<close>

text \<open>A failed \<open>EPOLL_CTL_DEL\<close> is logged, a failed \<open>ADD\<close> or \<open>MOD\<close> is a \<open>LOG_FATAL\<close>, which aborts.\<close>

definition epoll_update :: "'k epoll_ctl \<Rightarrow> ctl_op \<Rightarrow> ptr \<Rightarrow> ('k, 'z) poller_scheme
    \<Rightarrow> ('k, 'z) poller_scheme res" where
  "epoll_update ctl op p s =
     (let ch = chans s p; (k, r) = ctl (epollfd s) op (ch_fd ch) (ch_events ch, p) in
      if r < 0 then (if op = CTL_DEL then Inr (s\<lparr>epollfd := k\<rparr>) else Inl FatalAbort)
      else Inr (s\<lparr>epollfd := k\<rparr>))"

definition updateChannel :: "'k epoll_ctl \<Rightarrow> ptr \<Rightarrow> ('k, 'z) poller_scheme \<Rightarrow> ('k, 'z) poller_scheme res" where
  "updateChannel ctl p s =
     (let index = ch_index (chans s p) in
      if index = kNew \<or> index = kDeleted then
        let s1 = (if index = kNew then s\<lparr>channels := (channels s)(ch_fd (chans s p) \<mapsto> p)\<rparr> else s) in
        epoll_update ctl CTL_ADD p (set_index p kAdded s1)
      else if isNoneEvent (chans s p) then
        rbind (epoll_update ctl CTL_DEL p s) (\<lambda>s1. Inr (set_index p kDeleted s1))
      else epoll_update ctl CTL_MOD p s)"

definition removeChannel :: "'k epoll_ctl \<Rightarrow> ptr \<Rightarrow> ('k, 'z) poller_scheme \<Rightarrow> ('k, 'z) poller_scheme res" where
  "removeChannel ctl p s =
     (let s1 = s\<lparr>channels := (channels s)(ch_fd (chans s p) := None)\<rparr>; index = ch_index (chans s p) in
      rbind (if index = kAdded then epoll_update ctl CTL_DEL p s1 else Inr s1)
        (\<lambda>s2. Inr (set_index p kNew s2)))"

definition hasChannel :: "ptr \<Rightarrow> ('k, 'z) poller_scheme \<Rightarrow> bool" where
  "hasChannel p s \<longleftrightarrow> channels s (ch_fd (chans s p)) = Some p"

text \<open>The five operations of \<open>Channel.h\<close> that change the wanted events and call \<open>update()\<close>.\<close>

definition change_events :: "'k epoll_ctl \<Rightarrow> (c_int \<Rightarrow> c_int) \<Rightarrow> ptr \<Rightarrow> ('k, 'z) poller_scheme
    \<Rightarrow> ('k, 'z) poller_scheme res" where
  "change_events ctl f p s =
     updateChannel ctl p (set_chan p (\<lambda>ch. ch\<lparr>ch_events := f (ch_events ch)\<rparr>) s)"

definition enableReading :: "'k epoll_ctl \<Rightarrow> ptr \<Rightarrow> ('k, 'z) poller_scheme \<Rightarrow> ('k, 'z) poller_scheme res" where
  "enableReading ctl = change_events ctl ev_enableReading"

definition disableReading :: "'k epoll_ctl \<Rightarrow> ptr \<Rightarrow> ('k, 'z) poller_scheme \<Rightarrow> ('k, 'z) poller_scheme res" where
  "disableReading ctl = change_events ctl ev_disableReading"

definition enableWriting :: "'k epoll_ctl \<Rightarrow> ptr \<Rightarrow> ('k, 'z) poller_scheme \<Rightarrow> ('k, 'z) poller_scheme res" where
  "enableWriting ctl = change_events ctl ev_enableWriting"

definition disableWriting :: "'k epoll_ctl \<Rightarrow> ptr \<Rightarrow> ('k, 'z) poller_scheme \<Rightarrow> ('k, 'z) poller_scheme res" where
  "disableWriting ctl = change_events ctl ev_disableWriting"

definition disableAll :: "'k epoll_ctl \<Rightarrow> ptr \<Rightarrow> ('k, 'z) poller_scheme \<Rightarrow> ('k, 'z) poller_scheme res" where
  "disableAll ctl = change_events ctl ev_disableAll"

lemmas channel_ops = enableReading_def disableReading_def enableWriting_def disableWriting_def
  disableAll_def

section \<open>Polling\<close>

text \<open>What \<open>epoll_wait\<close> gave: the ready events, stored at the front of the list, or an error.\<close>

datatype wait_result = EvOk "epoll_event list" | EvErr int

datatype poll_log = PollQuiet | PollTimeout | PollFailed int

text \<open>The loop of \<open>fillActiveChannels\<close>; reading past the event list is out of bounds.\<close>

fun fill_loop :: "epoll_event list \<Rightarrow> ptr list \<times> ('k, 'z) poller_scheme \<Rightarrow> ptr list \<times> ('k, 'z) poller_scheme" where
  "fill_loop [] (active, s) = (active, s)"
| "fill_loop ((revt, p) # evs) (active, s) =
     fill_loop evs (active @ [p], set_chan p (set_revents revt) s)"

definition fillActiveChannels :: "c_int \<Rightarrow> ptr list \<Rightarrow> ('k, 'z) poller_scheme
    \<Rightarrow> (ptr list \<times> ('k, 'z) poller_scheme) res" where
  "fillActiveChannels numEvents active s =
     rbind (vec_read (evlist s) 0 (nat (sint numEvents))) (\<lambda>evs. Inr (fill_loop evs (active, s)))"

text \<open>\<open>numEvents\<close> is a \<open>size_t\<close>: the first test takes an error for a positive number.\<close>

definition poll :: "wait_result \<Rightarrow> ptr list \<Rightarrow> ('k, 'z) poller_scheme
    \<Rightarrow> (poll_log \<times> ptr list \<times> ('k, 'z) poller_scheme) res" where
  "poll w active s =
     (let (numEvents :: size_t, s1, err) = (case w of
            EvOk evs \<Rightarrow> (of_nat (length evs), s\<lparr>evlist := evs @ drop (length evs) (evlist s)\<rparr>, 0)
          | EvErr e \<Rightarrow> (- 1, s, e))
      in
      if 0 < numEvents then
        rbind (fillActiveChannels (int_of_size numEvents) active s1) (\<lambda>(active', s2).
          if numEvents = of_nat (length (evlist s2))
          then rbind (vec_resize (0, 0) (of_nat (length (evlist s2)) * 2) (evlist s2))
                 (\<lambda>l. Inr (PollQuiet, active', s2\<lparr>evlist := l\<rparr>))
          else Inr (PollQuiet, active', s2))
      else if numEvents = 0 then Inr (PollTimeout, active, s1)
      else Inr (PollFailed err, active, s1))"


text \<open>
  The constructor.  \<open>epoll_create\<close> takes a size; the code passes the flag \<open>EPOLL_CLOEXEC\<close> as if it were
  \<open>epoll_create1\<close>.  \<open>None\<close> is its failure.
\<close>

definition EPOLL_CLOEXEC :: int where "EPOLL_CLOEXEC = 0x80000"

definition EpollPoller_new :: "(int \<Rightarrow> 'k option) \<Rightarrow> (ptr \<Rightarrow> channel) \<Rightarrow> 'k poller res" where
  "EpollPoller_new epoll_create heap =
     (case epoll_create EPOLL_CLOEXEC of
        None \<Rightarrow> Inl FatalAbort
      | Some k \<Rightarrow> Inr \<lparr>chans = heap, channels = Map.empty, epollfd = k,
                       evlist = replicate kInitEventListSize (0, 0)\<rparr>)"

text \<open>\<open>Poller::newDefaultPoller\<close> returns the null pointer when the environment asks for \<open>poll(2)\<close>.\<close>

definition newDefaultPoller :: "bool \<Rightarrow> (int \<Rightarrow> 'k option) \<Rightarrow> (ptr \<Rightarrow> channel) \<Rightarrow> 'k poller option res" where
  "newDefaultPoller use_poll epoll_create heap =
     (if use_poll then Inr None else rbind (EpollPoller_new epoll_create heap) (\<lambda>p. Inr (Some p)))"

section \<open>What the kernel documents\<close>

text \<open>
  \<open>view k\<close> is the interest list of instance \<open>k\<close>.  \<open>ADD\<close> succeeds on a descriptor that is not
  in it, \<open>MOD\<close> and \<open>DEL\<close> on one that is; a refused call changes nothing.
\<close>

definition ctl_legal :: "ctl_op \<Rightarrow> epoll_event option \<Rightarrow> bool" where
  "ctl_legal op cur = (if op = CTL_ADD then cur = None else cur \<noteq> None)"

definition epoll_documented :: "'k epoll_ctl \<Rightarrow> ('k \<Rightarrow> int \<rightharpoonup> epoll_event) \<Rightarrow> bool" where
  "epoll_documented ctl view \<longleftrightarrow> (\<forall>k op fd ev.
     (0 \<le> snd (ctl k op fd ev) \<longleftrightarrow> ctl_legal op (view k fd)) \<and>
     view (fst (ctl k op fd ev)) =
       (if ctl_legal op (view k fd)
        then (view k)(fd := if op = CTL_DEL then None else Some ev) else view k))"

text \<open>An instance of the hypothesis: the interest list itself as the kernel's state.\<close>

definition list_ctl :: "(int \<rightharpoonup> epoll_event) epoll_ctl" where
  "list_ctl k op fd ev =
     (if ctl_legal op (k fd) then (k(fd := if op = CTL_DEL then None else Some ev), 0) else (k, - 1))"

lemma list_ctl_documented: "epoll_documented list_ctl (\<lambda>k. k)"
  by (simp add: epoll_documented_def list_ctl_def)

section \<open>The poller's invariant\<close>

text \<open>
  \<open>P\<close> are the channels in use, each with a descriptor of its own.  The index of a channel, the
  map \<open>channels_\<close> and the kernel's interest list agree: exactly the channels with index \<open>kAdded\<close>
  are watched, with the mask they want and their own address.
\<close>

definition interest :: "('k, 'z) poller_scheme \<Rightarrow> int \<rightharpoonup> epoll_event" where
  "interest s fd = (case channels s fd of
      Some p \<Rightarrow> if ch_index (chans s p) = kAdded then Some (ch_events (chans s p), p) else None
    | None \<Rightarrow> None)"

definition poller_inv :: "('k \<Rightarrow> int \<rightharpoonup> epoll_event) \<Rightarrow> ptr set \<Rightarrow> ('k, 'z) poller_scheme \<Rightarrow> bool" where
  "poller_inv view P s \<longleftrightarrow>
     inj_on (\<lambda>p. ch_fd (chans s p)) P
     \<and> (\<forall>p\<in>P. ch_index (chans s p) \<in> {kNew, kAdded, kDeleted})
     \<and> (\<forall>p\<in>P. ch_index (chans s p) \<noteq> kNew \<longrightarrow> channels s (ch_fd (chans s p)) = Some p)
     \<and> (\<forall>fd p. channels s fd = Some p \<longrightarrow> p \<in> P \<and> ch_fd (chans s p) = fd \<and> ch_index (chans s p) \<noteq> kNew)
     \<and> view (epollfd s) = interest s"

lemma set_chan_simps [simp]:
  "channels (set_chan p f s) = channels s" "epollfd (set_chan p f s) = epollfd s"
  "evlist (set_chan p f s) = evlist s"
  "chans (set_chan p f s) q = (if q = p then f (chans s p) else chans s q)"
  by (simp_all add: set_chan_def)

lemma set_index_simps [simp]:
  "channels (set_index p i s) = channels s" "epollfd (set_index p i s) = epollfd s"
  "evlist (set_index p i s) = evlist s"
  "chans (set_index p i s) q = (if q = p then (chans s p)\<lparr>ch_index := i\<rparr> else chans s q)"
  by (simp_all add: set_index_def)

lemma epoll_update_legal:
  assumes "epoll_documented ctl view"
    and "ctl_legal op (view (epollfd s) (ch_fd (chans s p)))"
  shows "\<exists>k. epoll_update ctl op p s = Inr (s\<lparr>epollfd := k\<rparr>) \<and>
     view k = (view (epollfd s))(ch_fd (chans s p) :=
                if op = CTL_DEL then None else Some (ch_events (chans s p), p))"
proof -
  let ?r = "ctl (epollfd s) op (ch_fd (chans s p)) (ch_events (chans s p), p)"
  have "0 \<le> snd ?r" "view (fst ?r) = (view (epollfd s))(ch_fd (chans s p) :=
                if op = CTL_DEL then None else Some (ch_events (chans s p), p))"
    using assms by (simp_all add: epoll_documented_def)
  then show ?thesis by (intro exI [of _ "fst ?r"]) (simp add: epoll_update_def Let_def case_prod_unfold)
qed

text \<open>Facts the three registration operations share.\<close>

lemma poller_inv_reg:
  assumes "poller_inv view P s"
  shows "p \<in> P \<Longrightarrow> ch_index (chans s p) \<noteq> kNew \<Longrightarrow> channels s (ch_fd (chans s p)) = Some p"
    and "channels s fd = Some q \<Longrightarrow> q \<in> P \<and> ch_fd (chans s q) = fd \<and> ch_index (chans s q) \<noteq> kNew"
    and "p \<in> P \<Longrightarrow> r \<in> P \<Longrightarrow> ch_fd (chans s p) = ch_fd (chans s r) \<Longrightarrow> p = r"
  using assms by (auto simp: poller_inv_def dest: inj_onD)

lemma poller_invD:
  assumes "poller_inv view P s" "p \<in> P"
  shows "channels s (ch_fd (chans s p)) = (if ch_index (chans s p) = kNew then None else Some p)"
    and "view (epollfd s) (ch_fd (chans s p)) =
      (if ch_index (chans s p) = kAdded then Some (ch_events (chans s p), p) else None)"
proof -
  show c: "channels s (ch_fd (chans s p)) = (if ch_index (chans s p) = kNew then None else Some p)"
  proof (cases "channels s (ch_fd (chans s p))")
    case None
    then show ?thesis using poller_inv_reg(1) [OF assms] by force
  next
    case (Some q)
    with poller_inv_reg(2,3) [OF assms(1)] assms(2)
    have "q = p" "ch_index (chans s q) \<noteq> kNew" by blast+
    with Some show ?thesis by simp
  qed
  have "view (epollfd s) (ch_fd (chans s p)) = interest s (ch_fd (chans s p))"
    using assms by (simp add: poller_inv_def)
  then show "view (epollfd s) (ch_fd (chans s p)) =
      (if ch_index (chans s p) = kAdded then Some (ch_events (chans s p), p) else None)"
    using c by (simp add: interest_def index_defs)
qed

text \<open>
  A state in which only channel \<open>p\<close> changed: its index and mask, its entry in \<open>channels_\<close> and its
  entry in the interest list.
\<close>

lemma poller_inv_point:
  assumes inv: "poller_inv view P s" and p: "p \<in> P"
    and chans: "\<And>q. q \<noteq> p \<Longrightarrow> chans s' q = chans s q"
    and fd: "ch_fd (chans s' p) = ch_fd (chans s p)"
    and idx: "ch_index (chans s' p) \<in> {kNew, kAdded, kDeleted}"
    and chn: "channels s' = (channels s)(ch_fd (chans s p) :=
                if ch_index (chans s' p) = kNew then None else Some p)"
    and vw: "view (epollfd s') = (view (epollfd s))(ch_fd (chans s p) :=
                if ch_index (chans s' p) = kAdded then Some (ch_events (chans s' p), p) else None)"
  shows "poller_inv view P s'"
proof -
  have fds: "ch_fd (chans s' q) = ch_fd (chans s q)" for q
    using chans fd by (cases "q = p") simp_all
  note reg = poller_inv_reg [OF inv]
  have "inj_on (\<lambda>q. ch_fd (chans s' q)) P" using inv by (simp add: fds poller_inv_def)
  moreover have "\<forall>q\<in>P. ch_index (chans s' q) \<in> {kNew, kAdded, kDeleted}"
    using inv idx chans by (metis poller_inv_def)
  moreover have "channels s' (ch_fd (chans s' q)) = Some q"
    if "q \<in> P" "ch_index (chans s' q) \<noteq> kNew" for q
    using that reg(1) [of q] reg(3) [of q p] p chans [of q] by (cases "q = p") (auto simp: fds chn)
  moreover have "q \<in> P \<and> ch_fd (chans s' q) = g \<and> ch_index (chans s' q) \<noteq> kNew"
    if "channels s' g = Some q" for g q
    using that reg(2) [of g q] p chans [of q] by (cases "g = ch_fd (chans s p)"; cases "q = p")
      (auto simp: fds chn split: if_splits)
  moreover have "view (epollfd s') = interest s'"
  proof
    fix g
    show "view (epollfd s') g = interest s' g"
    proof (cases "g = ch_fd (chans s p)")
      case True
      then show ?thesis by (simp add: vw chn interest_def index_defs)
    next
      case False
      then have "chans s' q = chans s q" if "channels s g = Some q" for q
        using reg(2) [OF that] chans [of q] by (cases "q = p") auto
      with False have "interest s' g = interest s g"
        by (simp add: interest_def chn split: option.split)
      with False inv show ?thesis by (simp add: vw poller_inv_def)
    qed
  qed
  ultimately show ?thesis unfolding poller_inv_def by blast
qed


section \<open>Every registration step keeps the invariant\<close>

text \<open>
  What one registration step on \<open>p\<close> achieves: the invariant holds again, the mask wanted by \<open>p\<close>
  is \<open>e\<close> and its index \<open>i\<close>, and nothing else about the channels changed.
\<close>

definition stepped :: "('k \<Rightarrow> int \<rightharpoonup> epoll_event) \<Rightarrow> ptr set \<Rightarrow> ptr \<Rightarrow> c_int \<Rightarrow> int
    \<Rightarrow> ('k, 'z) poller_scheme \<Rightarrow> ('k, 'z) poller_scheme \<Rightarrow> bool" where
  "stepped view P p e i s s' \<longleftrightarrow> poller_inv view P s'
     \<and> chans s' p = (chans s p)\<lparr>ch_events := e, ch_index := i\<rparr>
     \<and> (\<forall>q. q \<noteq> p \<longrightarrow> chans s' q = chans s q) \<and> evlist s' = evlist s
     \<and> poller.more s' = poller.more s"

lemma steppedI:
  assumes inv: "poller_inv view P s" and p: "p \<in> P"
    and chans: "chans s' = (chans s)(p := (chans s p)\<lparr>ch_events := e, ch_index := i\<rparr>)"
    and idx: "i \<in> {kNew, kAdded, kDeleted}"
    and chn: "channels s' = (channels s)(ch_fd (chans s p) := if i = kNew then None else Some p)"
    and vw: "view (epollfd s') = (view (epollfd s))(ch_fd (chans s p) :=
               if i = kAdded then Some (e, p) else None)"
    and rest: "evlist s' = evlist s" "poller.more s' = poller.more s"
  shows "stepped view P p e i s s'"
proof -
  have "poller_inv view P s'"
    by (rule poller_inv_point [OF inv p]) (use chans idx chn vw in simp_all)
  then show ?thesis using chans rest by (simp add: stepped_def)
qed

lemma index_neq [simp]: "kNew \<noteq> kAdded" "kNew \<noteq> kDeleted" "kAdded \<noteq> kDeleted"
  "kAdded \<noteq> kNew" "kDeleted \<noteq> kNew" "kDeleted \<noteq> kAdded"
  by (simp_all add: index_defs)

lemma register_steps:
  assumes doc: "epoll_documented ctl view" and inv: "poller_inv view P s" and p: "p \<in> P"
    and idx: "ch_index (chans s p) = kNew \<or> ch_index (chans s p) = kDeleted"
  shows "\<exists>s'. change_events ctl f p s = Inr s' \<and> stepped view P p (f (ch_events (chans s p))) kAdded s s'"
proof -
  note D = poller_invD [OF inv p]
  let ?s1 = "set_chan p (\<lambda>ch. ch\<lparr>ch_events := f (ch_events ch)\<rparr>) s"
  let ?s2 = "set_index p kAdded (if ch_index (chans s p) = kNew
      then ?s1\<lparr>channels := (channels ?s1)(ch_fd (chans ?s1 p) \<mapsto> p)\<rparr> else ?s1)"
  have "ctl_legal CTL_ADD (view (epollfd ?s2) (ch_fd (chans ?s2 p)))"
    using D(2) idx by (auto simp: ctl_legal_def)
  then obtain k where k: "epoll_update ctl CTL_ADD p ?s2 = Inr (?s2\<lparr>epollfd := k\<rparr>)"
      "view k = (view (epollfd ?s2))(ch_fd (chans ?s2 p) := Some (ch_events (chans ?s2 p), p))"
    using epoll_update_legal [OF doc, of CTL_ADD ?s2 p] by auto
  have "change_events ctl f p s = Inr (?s2\<lparr>epollfd := k\<rparr>)"
    using k(1) idx by (auto simp: change_events_def updateChannel_def Let_def)
  moreover have "stepped view P p (f (ch_events (chans s p))) kAdded s (?s2\<lparr>epollfd := k\<rparr>)"
    by (rule steppedI [OF inv p])
      (use idx D(1) k(2) in \<open>auto simp: fun_eq_iff set_index_def set_chan_def\<close>)
  ultimately show ?thesis by blast
qed

lemma reregister_steps:
  assumes doc: "epoll_documented ctl view" and inv: "poller_inv view P s" and p: "p \<in> P"
    and idx: "ch_index (chans s p) = kAdded"
  shows "\<exists>s'. change_events ctl f p s = Inr s' \<and> stepped view P p (f (ch_events (chans s p)))
     (if f (ch_events (chans s p)) = 0 then kDeleted else kAdded) s s'"
proof -
  note D = poller_invD [OF inv p]
  let ?e = "f (ch_events (chans s p))"
  let ?s1 = "set_chan p (\<lambda>ch. ch\<lparr>ch_events := f (ch_events ch)\<rparr>) s"
  let ?op = "if ?e = 0 then CTL_DEL else CTL_MOD"
  have "ctl_legal ?op (view (epollfd ?s1) (ch_fd (chans ?s1 p)))"
    using D(2) idx by (auto simp: ctl_legal_def)
  then obtain k where k: "epoll_update ctl ?op p ?s1 = Inr (?s1\<lparr>epollfd := k\<rparr>)"
      "view k = (view (epollfd s))(ch_fd (chans s p) := if ?op = CTL_DEL then None else Some (?e, p))"
    using epoll_update_legal [OF doc, of ?op ?s1 p] by auto
  let ?s' = "if ?e = 0 then set_index p kDeleted (?s1\<lparr>epollfd := k\<rparr>) else ?s1\<lparr>epollfd := k\<rparr>"
  have "change_events ctl f p s = Inr ?s'"
    using k(1) idx by (auto simp: change_events_def updateChannel_def Let_def isNoneEvent_def kNoneEvent_def)
  moreover have "stepped view P p ?e (if ?e = 0 then kDeleted else kAdded) s ?s'"
    by (rule steppedI [OF inv p])
      (use idx D(1) k(2) in \<open>auto simp: fun_eq_iff set_index_def set_chan_def\<close>)
  ultimately show ?thesis by blast
qed

lemma remove_steps:
  assumes doc: "epoll_documented ctl view" and inv: "poller_inv view P s" and p: "p \<in> P"
  shows "\<exists>s'. removeChannel ctl p s = Inr s' \<and> stepped view P p (ch_events (chans s p)) kNew s s'"
proof -
  note D = poller_invD [OF inv p]
  let ?s1 = "s\<lparr>channels := (channels s)(ch_fd (chans s p) := None)\<rparr>"
  have "\<exists>k. (if ch_index (chans s p) = kAdded then epoll_update ctl CTL_DEL p ?s1 else Inr ?s1)
        = Inr (?s1\<lparr>epollfd := k\<rparr>) \<and> view k = (view (epollfd s))(ch_fd (chans s p) := None)"
  proof (cases "ch_index (chans s p) = kAdded")
    case True
    then have "ctl_legal CTL_DEL (view (epollfd ?s1) (ch_fd (chans ?s1 p)))"
      using D(2) by (simp add: ctl_legal_def)
    from epoll_update_legal [OF doc this] True show ?thesis by auto
  next
    case False
    then show ?thesis using D(2) by (intro exI [of _ "epollfd s"]) (simp add: fun_upd_idem)
  qed
  then obtain k where k: "(if ch_index (chans s p) = kAdded then epoll_update ctl CTL_DEL p ?s1 else Inr ?s1)
        = Inr (?s1\<lparr>epollfd := k\<rparr>)" "view k = (view (epollfd s))(ch_fd (chans s p) := None)"
    by blast
  let ?s' = "set_index p kNew (?s1\<lparr>epollfd := k\<rparr>)"
  have "removeChannel ctl p s = Inr ?s'" using k(1) by (simp add: removeChannel_def Let_def)
  moreover have "stepped view P p (ch_events (chans s p)) kNew s ?s'"
    by (rule steppedI [OF inv p]) (use k(2) in \<open>auto simp: fun_eq_iff set_index_def set_chan_def\<close>)
  ultimately show ?thesis by blast
qed

lemma change_events_steps:
  assumes "epoll_documented ctl view" "poller_inv view P s" "p \<in> P"
  shows "\<exists>i s'. change_events ctl f p s = Inr s' \<and> stepped view P p (f (ch_events (chans s p))) i s s'"
proof -
  have "ch_index (chans s p) \<in> {kNew, kAdded, kDeleted}" using assms by (simp add: poller_inv_def)
  then show ?thesis
    using register_steps [OF assms] reregister_steps [OF assms] by blast
qed


section \<open>The poller as its clients see it\<close>

text \<open>
  Channels, loops and connections rely on the poller through \<open>Channel::update()\<close> and
  \<open>Channel::remove()\<close> only: neither fails on a channel in use, and the wanted mask is what was
  asked for last.  A session of such calls is proved once against these laws.
\<close>

datatype chan_op = EnableReading ptr | DisableReading ptr | EnableWriting ptr | DisableWriting ptr
  | DisableAll ptr | Remove ptr

fun op_chan :: "chan_op \<Rightarrow> ptr" where
  "op_chan (EnableReading p) = p" | "op_chan (DisableReading p) = p" | "op_chan (EnableWriting p) = p"
| "op_chan (DisableWriting p) = p" | "op_chan (DisableAll p) = p" | "op_chan (Remove p) = p"

fun op_mask :: "chan_op \<Rightarrow> c_int \<Rightarrow> c_int" where
  "op_mask (EnableReading p) = ev_enableReading" | "op_mask (DisableReading p) = ev_disableReading"
| "op_mask (EnableWriting p) = ev_enableWriting" | "op_mask (DisableWriting p) = ev_disableWriting"
| "op_mask (DisableAll p) = ev_disableAll" | "op_mask (Remove p) = (\<lambda>e. e)"

fun run_chan_ops :: "((c_int \<Rightarrow> c_int) \<Rightarrow> ptr \<Rightarrow> 's \<Rightarrow> 's res) \<Rightarrow> (ptr \<Rightarrow> 's \<Rightarrow> 's res)
    \<Rightarrow> chan_op list \<Rightarrow> 's \<Rightarrow> 's res" where
  "run_chan_ops change remove [] s = Inr s"
| "run_chan_ops change remove (Remove p # ops) s = rbind (remove p s) (run_chan_ops change remove ops)"
| "run_chan_ops change remove (op # ops) s =
     rbind (change (op_mask op) (op_chan op) s) (run_chan_ops change remove ops)"

fun final_mask :: "chan_op list \<Rightarrow> (ptr \<Rightarrow> c_int) \<Rightarrow> ptr \<Rightarrow> c_int" where
  "final_mask [] m = m"
| "final_mask (op # ops) m = final_mask ops (m(op_chan op := op_mask op (m (op_chan op))))"

locale registry =
  fixes change :: "(c_int \<Rightarrow> c_int) \<Rightarrow> ptr \<Rightarrow> 's \<Rightarrow> 's res"
    and remove :: "ptr \<Rightarrow> 's \<Rightarrow> 's res"
    and invar :: "'s \<Rightarrow> bool"
    and used :: "ptr set"
    and wanted :: "'s \<Rightarrow> ptr \<Rightarrow> c_int"
  assumes change_ok: "invar s \<Longrightarrow> p \<in> used
      \<Longrightarrow> \<exists>s'. change f p s = Inr s' \<and> invar s' \<and> wanted s' = (wanted s)(p := f (wanted s p))"
    and remove_ok: "invar s \<Longrightarrow> p \<in> used
      \<Longrightarrow> \<exists>s'. remove p s = Inr s' \<and> invar s' \<and> wanted s' = wanted s"
begin

lemma step_ok:
  assumes "invar s" "op_chan op \<in> used"
  shows "\<exists>s1. run_chan_ops change remove (op # ops) s = run_chan_ops change remove ops s1 \<and> invar s1
     \<and> wanted s1 = (wanted s)(op_chan op := op_mask op (wanted s (op_chan op)))"
  using change_ok [OF assms, of "op_mask op"] remove_ok [OF assms] by (cases op) fastforce+

lemma session_ok:
  assumes "invar s" "\<forall>op\<in>set ops. op_chan op \<in> used"
  shows "\<exists>s'. run_chan_ops change remove ops s = Inr s' \<and> invar s' \<and> wanted s' = final_mask ops (wanted s)"
  using assms
proof (induction ops arbitrary: s)
  case Nil
  then show ?case by simp
next
  case (Cons op ops)
  obtain s1 where "run_chan_ops change remove (op # ops) s = run_chan_ops change remove ops s1" "invar s1"
      "wanted s1 = (wanted s)(op_chan op := op_mask op (wanted s (op_chan op)))"
    using step_ok Cons.prems by (metis list.set_intros(1))
  moreover from this Cons.prems obtain s' where "run_chan_ops change remove ops s1 = Inr s'" "invar s'"
      "wanted s' = final_mask ops (wanted s1)"
    using Cons.IH [of s1] by (metis list.set_intros(2))
  ultimately show ?case by (metis final_mask.simps(2))
qed

end

lemma stepped_wanted:
  "stepped view P p e i s s' \<Longrightarrow> (\<lambda>q. ch_events (chans s' q)) = (\<lambda>q. ch_events (chans s q))(p := e)"
  by (auto simp: stepped_def fun_eq_iff)

interpretation reg: registry "change_events ctl" "removeChannel ctl"
  "\<lambda>s :: ('k, 'z) poller_scheme. epoll_documented ctl view \<and> poller_inv view P s" P "\<lambda>s p. ch_events (chans s p)"
  for ctl :: "'k epoll_ctl" and view P
proof unfold_locales
  fix s :: "('k, 'z) poller_scheme" and p f
  assume "epoll_documented ctl view \<and> poller_inv view P s" "p \<in> P"
  then show "\<exists>s'. change_events ctl f p s = Inr s' \<and> (epoll_documented ctl view \<and> poller_inv view P s')
      \<and> (\<lambda>q. ch_events (chans s' q)) = (\<lambda>q. ch_events (chans s q))(p := f (ch_events (chans s p)))"
    using change_events_steps [of ctl view P s p f] by (auto simp: stepped_wanted) (auto simp: stepped_def)
next
  fix s :: "('k, 'z) poller_scheme" and p
  assume "epoll_documented ctl view \<and> poller_inv view P s" "p \<in> P"
  then show "\<exists>s'. removeChannel ctl p s = Inr s' \<and> (epoll_documented ctl view \<and> poller_inv view P s')
      \<and> (\<lambda>q. ch_events (chans s' q)) = (\<lambda>q. ch_events (chans s q))"
    using remove_steps [of ctl view P s p] by (auto simp: stepped_wanted) (auto simp: stepped_def)
qed

lemma poller_inv_init:
  assumes "inj_on (\<lambda>p. ch_fd (chans s p)) P" "\<forall>p\<in>P. ch_index (chans s p) = kNew"
    and "channels s = Map.empty" "view (epollfd s) = Map.empty"
  shows "poller_inv view P s"
  using assms by (simp add: poller_inv_def interest_def fun_eq_iff)

section \<open>Delivery\<close>

lemma fill_loop_spec:
  assumes "distinct (map snd evs)"
  shows "fst (fill_loop evs (active, s)) = active @ map snd evs
    \<and> evlist (snd (fill_loop evs (active, s))) = evlist s
    \<and> (\<forall>q. chans (snd (fill_loop evs (active, s))) q = (case map_of (map prod.swap evs) q of
          Some r \<Rightarrow> (chans s q)\<lparr>ch_revents := r\<rparr> | None \<Rightarrow> chans s q))"
  using assms
proof (induction evs arbitrary: active s)
  case Nil
  then show ?case by simp
next
  case (Cons a evs)
  obtain r p where a: "a = (r, p)" by (cases a)
  have "map_of (map prod.swap evs) p = None"
    using Cons.prems a by (auto simp: map_of_eq_None_iff image_image)
  with Cons show ?case by (auto simp: a split: option.split)
qed

text \<open>The kernel documents that it stores at most as many events as it was given room for.\<close>

lemma poll_ok:
  assumes "evs \<noteq> []" "length evs \<le> length (evlist s)" "length (evlist s) < 2 ^ 31" "distinct (map snd evs)"
  shows "\<exists>s'. poll (EvOk evs) active s = Inr (PollQuiet, active @ map snd evs, s')
    \<and> (\<forall>q. chans s' q = (case map_of (map prod.swap evs) q of
          Some r \<Rightarrow> (chans s q)\<lparr>ch_revents := r\<rparr> | None \<Rightarrow> chans s q))
    \<and> length (evlist s') = (if length evs = length (evlist s) then 2 * length (evlist s) else length (evlist s))"
proof -
  let ?n = "of_nat (length evs) :: size_t" and ?s1 = "s\<lparr>evlist := evs @ drop (length evs) (evlist s)\<rparr>"
  have u: "unat (of_nat k :: size_t) = k" if "k < 2 ^ 33" for k
    using that by (intro unat_of_nat_fits) simp
  have n: "unat ?n = length evs" using assms by (intro u) simp
  have "sint (int_of_size ?n) = int (length evs)"
    using assms by (intro sint_int_of_size) simp
  moreover have "length (evlist ?s1) = length (evlist s)" using assms by simp
  ultimately have f: "fillActiveChannels (int_of_size ?n) active ?s1 = Inr (fill_loop evs (active, ?s1))"
    using assms by (simp add: fillActiveChannels_def vec_read_def)
  note spec = fill_loop_spec [OF assms(4), of active ?s1]
  let ?l = "length (evlist s)"
  have eq: "?n = of_nat ?l \<longleftrightarrow> length evs = ?l"
  proof -
    have "unat (of_nat ?l :: size_t) = ?l" using assms by (intro u) simp
    with n show ?thesis by (metis word_unat_eq_iff)
  qed
  have pos: "0 < ?n" using n assms(1) by (simp add: word_less_nat_alt)
  have two: "unat (of_nat ?l * 2 :: size_t) = 2 * ?l"
    using u [of ?l] u [of "2 * ?l"] assms(3) by (simp add: mult.commute)
  obtain a' s2 where fl: "fill_loop evs (active, ?s1) = (a', s2)" by fastforce
  have l2: "length (evlist s2) = ?l" using spec fl assms by simp
  have rs: "vec_resize (0, 0) (of_nat ?l * 2) (evlist s2) = Inr (evlist s2 @ replicate ?l (0, 0))"
    using two l2 assms(3) by (subst vec_resize_grow) (simp_all add: vec_max_size_def)
  show ?thesis
  proof (cases "length evs = ?l")
    case True
    then have "poll (EvOk evs) active s = Inr (PollQuiet, a', s2\<lparr>evlist := evlist s2 @ replicate ?l (0, 0)\<rparr>)"
      using f fl pos l2 rs by (simp add: poll_def)
    then show ?thesis using spec fl l2 True by (simp cong: option.case_cong)
  next
    case False
    then have "poll (EvOk evs) active s = Inr (PollQuiet, a', s2)"
      using f fl pos l2 eq by (simp add: poll_def)
    then show ?thesis using spec fl l2 False by (simp cong: option.case_cong)
  qed
qed


text \<open>A failed \<open>epoll_wait\<close> is read as a huge number of events, of which the loop visits none.\<close>

lemma poll_error:
  assumes "length (evlist s) < 2 ^ 63"
  shows "poll (EvErr e) active s = Inr (PollQuiet, active, s)"
proof -
  have "unat (of_nat (length (evlist s)) :: size_t) = length (evlist s)"
    using assms by (intro unat_of_nat_fits) simp
  then have "(- 1 :: size_t) \<noteq> of_nat (length (evlist s))"
    using assms unat_minus_one_size by auto
  moreover have "(0 :: size_t) < - 1" by (simp add: word_less_nat_alt unat_minus_one_size)
  moreover have "fillActiveChannels (int_of_size (- 1)) active s = Inr (active, s)"
    by (simp add: fillActiveChannels_def int_of_size_minus_one vec_read_def)
  ultimately show ?thesis by (simp add: poll_def)
qed

section \<open>Properties\<close>

text \<open>
  C15: registration.  For channels with descriptors of their own, any sequence of
  enable/disable/disableAll/remove calls runs without the \<open>LOG_FATAL\<close> abort of
  \<open>EpollPoller::update\<close>; afterwards each channel wants the mask the calls add up to, and the
  kernel's interest list holds exactly the channels with index \<open>kAdded\<close>, with that mask.
\<close>

theorem poller_session:
  assumes "epoll_documented ctl view" and "poller_inv view P s" and "\<forall>op\<in>set ops. op_chan op \<in> P"
  shows "\<exists>s'. run_chan_ops (change_events ctl) (removeChannel ctl) ops s = Inr s' \<and> poller_inv view P s'
    \<and> (\<lambda>p. ch_events (chans s' p)) = final_mask ops (\<lambda>p. ch_events (chans s p))
    \<and> (\<forall>p\<in>P. view (epollfd s') (ch_fd (chans s' p)) =
         (if ch_index (chans s' p) = kAdded then Some (ch_events (chans s' p), p) else None))"
proof -
  obtain s' where s': "run_chan_ops (change_events ctl) (removeChannel ctl) ops s = Inr s'" "poller_inv view P s'"
      "(\<lambda>p. ch_events (chans s' p)) = final_mask ops (\<lambda>p. ch_events (chans s p))"
    using reg.session_ok [of ctl view P s ops] assms by auto
  then show ?thesis using poller_invD(2) [OF s'(2)] by blast
qed

definition two_channels :: "(int \<rightharpoonup> epoll_event) poller" where
  "two_channels = \<lparr>chans = (\<lambda>p. channel_new (int p + 3)), channels = Map.empty,
     epollfd = Map.empty, evlist = replicate kInitEventListSize (0, 0)\<rparr>"

lemma two_channels_inv: "poller_inv (\<lambda>k. k) {0, 1} two_channels"
  by (rule poller_inv_init) (simp_all add: two_channels_def channel_new_def index_defs inj_on_def)

lemma poller_session_witness:
  "\<exists>s'. run_chan_ops (change_events list_ctl) (removeChannel list_ctl)
      [EnableReading 0, EnableWriting 1, EnableWriting 0, DisableAll 1, Remove 1] two_channels = Inr s'
    \<and> poller_inv (\<lambda>k. k) {0, 1} s' \<and> ch_events (chans s' 0) = 7 \<and> ch_events (chans s' 1) = 0"
proof -
  let ?ops = "[EnableReading 0, EnableWriting 1, EnableWriting 0, DisableAll 1, Remove 1]"
  have "\<forall>op\<in>set ?ops. op_chan op \<in> {0, 1}" by simp
  from poller_session [OF list_ctl_documented two_channels_inv this]
  obtain s' where s': "run_chan_ops (change_events list_ctl) (removeChannel list_ctl) ?ops two_channels = Inr s'"
      "poller_inv (\<lambda>k. k) {0, 1} s'"
      "(\<lambda>p. ch_events (chans s' p)) = final_mask ?ops (\<lambda>p. ch_events (chans two_channels p))"
    by blast
  from fun_cong [OF s'(3), of 0] fun_cong [OF s'(3), of 1]
  have "ch_events (chans s' 0) = 7" "ch_events (chans s' 1) = 0"
    by (simp_all add: two_channels_def channel_new_def ev_defs kReadEvent_def kWriteEvent_def
        kNoneEvent_def epoll_bits)
  with s'(1,2) show ?thesis by blast
qed

text \<open>
  Removal.  \<open>EpollPoller::removeChannel\<close> on a channel in use, registered or not, succeeds; then
  the poller no longer knows the channel and the kernel no longer watches its descriptor, so no
  later event can carry its address.
\<close>

theorem poller_remove_forgets:
  assumes "epoll_documented ctl view" and "poller_inv view P s" and "p \<in> P"
  shows "\<exists>s'. removeChannel ctl p s = Inr s' \<and> \<not> hasChannel p s' \<and> ch_index (chans s' p) = kNew
    \<and> (\<forall>fd e. view (epollfd s') fd \<noteq> Some (e, p))"
proof -
  obtain s' where s': "removeChannel ctl p s = Inr s'" "stepped view P p (ch_events (chans s p)) kNew s s'"
    using remove_steps [OF assms] by blast
  then have i: "poller_inv view P s'" "ch_index (chans s' p) = kNew" by (simp_all add: stepped_def)
  then have "\<not> hasChannel p s'"
    using poller_invD(1) [OF i(1) assms(3)] by (simp add: hasChannel_def)
  moreover have "interest s' fd \<noteq> Some (e, p)" for fd e
    using i(2) by (auto simp: interest_def split: option.split)
  ultimately show ?thesis using s'(1) i by (auto simp: poller_inv_def)
qed

lemma poller_remove_forgets_witness:
  "\<exists>s'. removeChannel list_ctl 1 two_channels = Inr s' \<and> \<not> hasChannel 1 s' \<and> ch_index (chans s' 1) = kNew
    \<and> (\<forall>fd e. epollfd s' fd \<noteq> Some (e, 1))"
  using poller_remove_forgets [OF list_ctl_documented two_channels_inv, of 1] by simp

text \<open>
  Delivery.  When \<open>epoll_wait\<close> returns events of distinct channels, \<open>poll\<close> appends exactly these
  channels to the active list, in the order returned, stores each returned mask in its channel and
  changes no other channel; the event list doubles exactly when it was filled.
\<close>

theorem poller_poll_delivers:
  assumes "evs \<noteq> []" and "length evs \<le> length (evlist s)" and "length (evlist s) < 2 ^ 31"
    and "distinct (map snd evs)"
  shows "\<exists>s'. poll (EvOk evs) active s = Inr (PollQuiet, active @ map snd evs, s')
    \<and> (\<forall>q. chans s' q = (case map_of (map prod.swap evs) q of
          Some r \<Rightarrow> (chans s q)\<lparr>ch_revents := r\<rparr> | None \<Rightarrow> chans s q))
    \<and> length (evlist s') = (if length evs = length (evlist s) then 2 * length (evlist s) else length (evlist s))"
  using assms by (rule poll_ok)

lemma poller_poll_delivers_witness:
  "\<exists>s'. poll (EvOk [(1, 1), (4, 0)]) [] two_channels = Inr (PollQuiet, [1, 0], s')
    \<and> ch_revents (chans s' 0) = 4 \<and> ch_revents (chans s' 1) = 1 \<and> length (evlist s') = 16"
proof -
  let ?e = "[(1, 1), (4, 0)] :: epoll_event list"
  have "\<exists>s'. poll (EvOk ?e) [] two_channels = Inr (PollQuiet, [] @ map snd ?e, s')
    \<and> (\<forall>q. chans s' q = (case map_of (map prod.swap ?e) q of
          Some r \<Rightarrow> (chans two_channels q)\<lparr>ch_revents := r\<rparr> | None \<Rightarrow> chans two_channels q))
    \<and> length (evlist s') = (if length ?e = length (evlist two_channels)
         then 2 * length (evlist two_channels) else length (evlist two_channels))"
    by (rule poller_poll_delivers) (simp_all add: two_channels_def kInitEventListSize_def)
  then show ?thesis by (auto simp: two_channels_def kInitEventListSize_def)
qed

text \<open>
  A failed wait goes unnoticed.  \<open>numEvents\<close> is unsigned, so the error value \<open>-1\<close> passes the
  test \<open>numEvents > 0\<close>: \<open>poll\<close> then activates nothing, changes nothing and logs nothing, whatever
  the error is; the branch that looks at \<open>errno\<close> is never reached.
\<close>

theorem poller_error_silent:
  assumes "length (evlist s) < 2 ^ 63"
  shows "poll (EvErr e) active s = Inr (PollQuiet, active, s)"
  using assms by (rule poll_error)

lemma poller_error_silent_witness:
  "poll (EvErr 9) [] two_channels = Inr (PollQuiet, [], two_channels)"
  by (rule poller_error_silent) (simp add: two_channels_def kInitEventListSize_def)

text \<open>
  \<open>disableAll\<close> watches what was not watched.  On a channel that is not in the interest list
  (never registered, or already disabled) \<open>disableAll\<close> does not leave it out: it adds it, with an
  empty mask, so hang-ups and errors are reported for it again.
\<close>

theorem poller_disableAll_registers:
  assumes "epoll_documented ctl view" and "poller_inv view P s" and "p \<in> P"
    and "ch_index (chans s p) \<noteq> kAdded"
  shows "\<exists>s'. disableAll ctl p s = Inr s' \<and> view (epollfd s') (ch_fd (chans s p)) = Some (0, p)"
proof -
  have "ch_index (chans s p) = kNew \<or> ch_index (chans s p) = kDeleted"
    using assms(2-4) by (auto simp: poller_inv_def)
  from register_steps [OF assms(1-3) this, of ev_disableAll] obtain s' where
    s': "disableAll ctl p s = Inr s'" "stepped view P p 0 kAdded s s'"
    by (auto simp: disableAll_def)
  then have c: "poller_inv view P s'" "chans s' p = (chans s p)\<lparr>ch_events := 0, ch_index := kAdded\<rparr>"
    by (simp_all add: stepped_def)
  have "view (epollfd s') (ch_fd (chans s p)) = Some (0, p)"
    using poller_invD(2) [OF c(1) assms(3)] c(2) by simp
  with s'(1) show ?thesis by blast
qed

lemma poller_disableAll_registers_witness:
  "\<exists>s'. disableAll list_ctl 0 two_channels = Inr s' \<and> epollfd s' 3 = Some (0, 0)"
  using poller_disableAll_registers [OF list_ctl_documented two_channels_inv, of 0]
  by (simp add: two_channels_def channel_new_def index_defs)

end
