(* ===== verification/Timestamps.thy ===== *)
theory Timestamps
  imports Prelude "HOL-Library.Signed_Division"
begin

text \<open>
  \<open>include/base/Timestamp.h\<close>, the parts of \<open>src/base/Timestamp.cpp\<close> that only compute, and \<open>Timer\<close>.  The
  clock is an argument; printing is with the logger, which shares the format.
\<close>

section \<open>Timestamps and timers\<close>

text \<open>Microseconds since the epoch, an \<open>int64_t\<close>.\<close>

datatype timestamp = Timestamp (micros: "64 word")

definition MicroSecondsPerSecond :: int where "MicroSecondsPerSecond = 1000000"

definition timestamp_lt :: "timestamp \<Rightarrow> timestamp \<Rightarrow> bool" where
  "timestamp_lt lhs rhs \<longleftrightarrow> sint (micros lhs) < sint (micros rhs)"

definition timestamp_eq :: "timestamp \<Rightarrow> timestamp \<Rightarrow> bool" where
  "timestamp_eq lhs rhs \<longleftrightarrow> sint (micros lhs) = sint (micros rhs)"

text \<open>The two comparison operators make time stamps a linear order.\<close>

instantiation timestamp :: linorder
begin

definition less_eq_timestamp :: "timestamp \<Rightarrow> timestamp \<Rightarrow> bool" where
  "less_eq_timestamp a b \<longleftrightarrow> timestamp_lt a b \<or> timestamp_eq a b"

definition less_timestamp :: "timestamp \<Rightarrow> timestamp \<Rightarrow> bool" where
  "less_timestamp a b \<longleftrightarrow> timestamp_lt a b"

instance
proof
  fix a b :: timestamp
  show "a \<le> b \<Longrightarrow> b \<le> a \<Longrightarrow> a = b"
    by (cases a; cases b)
      (metis less_eq_timestamp_def order_less_not_sym signed_word_eqI timestamp.sel timestamp_eq_def timestamp_lt_def)
qed (auto simp: less_eq_timestamp_def less_timestamp_def timestamp_lt_def timestamp_eq_def)

end

definition invalid :: timestamp where "invalid = Timestamp 0"

definition Timestamp_now :: "int \<Rightarrow> int \<Rightarrow> timestamp" where
  "Timestamp_now tv_sec tv_usec = Timestamp (word_of_int (tv_sec * MicroSecondsPerSecond + tv_usec))"

definition secondsSinceEpoch :: "timestamp \<Rightarrow> int" where
  "secondsSinceEpoch t = sint (micros t) sdiv MicroSecondsPerSecond"

text \<open>\<open>delta\<close> is \<open>static_cast<int64_t>(seconds * 1000000)\<close> of the double the caller passes.\<close>

definition addTime :: "timestamp \<Rightarrow> int \<Rightarrow> timestamp" where
  "addTime t delta = Timestamp (micros t + word_of_int delta)"

text \<open>A timer; of the interval, a double, the code uses whether it is positive and \<open>addTime\<close>'s delta.\<close>

record timer =
  expiration :: timestamp
  interval_delta :: int
  repeat_timer :: bool

definition Timer_new :: "timestamp \<Rightarrow> bool \<Rightarrow> int \<Rightarrow> timer" where
  "Timer_new when positive delta = \<lparr>expiration = when, interval_delta = delta, repeat_timer = positive\<rparr>"

definition Timer_restart :: "timestamp \<Rightarrow> timer \<Rightarrow> timer" where
  "Timer_restart now t =
     (if repeat_timer t then t\<lparr>expiration := addTime now (interval_delta t)\<rparr> else t\<lparr>expiration := Timestamp 0\<rparr>)"

lemma sint_of_int_fits: "- (2 ^ 63) \<le> k \<Longrightarrow> k < 2 ^ 63 \<Longrightarrow> sint (word_of_int k :: 64 word) = k"
  by (simp add: signed_of_int signed_take_bit_int_eq_self)

lemma addTime_sint:
  assumes "- (2 ^ 63) \<le> sint (micros t) + delta" "sint (micros t) + delta < 2 ^ 63"
  shows "sint (micros (addTime t delta)) = sint (micros t) + delta"
proof -
  have "micros (addTime t delta) = word_of_int (sint (micros t) + delta)"
    by (simp add: addTime_def)
  then show ?thesis using sint_of_int_fits [OF assms] by (simp only:)
qed

section \<open>Properties\<close>

text \<open>
  Restarting a timer.  A repeating timer with a positive interval expires strictly after the time
  it is restarted at, by exactly the interval, while the sum fits the clock; a one-shot timer becomes
  the invalid time stamp, which is below every valid one.
\<close>

theorem timer_restart_later:
  assumes "0 < delta" and "sint (micros now) + delta < 2 ^ 63" and "0 < sint (micros now)"
  shows "now < expiration (Timer_restart now (Timer_new when True delta))
    \<and> sint (micros (expiration (Timer_restart now (Timer_new when True delta)))) = sint (micros now) + delta
    \<and> expiration (Timer_restart now (Timer_new when False delta)) < now"
  using assms addTime_sint [of now delta]
  by (simp add: Timer_restart_def Timer_new_def less_timestamp_def timestamp_lt_def)

lemma timer_restart_later_witness:
  "Timestamp 1000 < expiration (Timer_restart (Timestamp 1000) (Timer_new (Timestamp 5) True 500000))"
  using timer_restart_later [of 500000 "Timestamp 1000" "Timestamp 5"] by simp

end
