(* ===== verification/EventLoop.thy ===== *)
theory EventLoop
  imports Poller Timestamps
begin

text \<open>
  \<open>include/net/Eventloop.h\<close> and \<open>src/net/EventLoop.cpp\<close>: one loop per thread, which polls,
  dispatches the active channels and then runs the functors other threads have queued.  The state
  extends the poller's.  Functors are values of a type \<open>'f\<close>; what running one does is an argument.
  \<open>wakeups\<close> counts the eight-byte writes to \<open>wakeupFd_\<close> that have not been read back.
\<close>

record ('k, 'f) eventloop = "'k poller" +
  threadId :: int
  looping :: bool
  quitting :: bool
  callingPendingFunctors :: bool
  pendingFunctors :: "'f list"
  wakeups :: nat
  wakeupChannel :: ptr
  activateChannels :: "ptr list"

section \<open>Construction\<close>

definition creatEventfd :: "int \<Rightarrow> int res" where
  "creatEventfd evfd = (if evfd < 0 then Inl FatalAbort else Inr evfd)"

text \<open>
  The constructor creates the poller and the event descriptor, aborts when the thread already has a
  loop (\<open>t_loopInThisThread\<close>), and otherwise binds and registers the wakeup channel at address \<open>wp\<close>.  A
  null poller is dereferenced by that registration.  \<open>evfd\<close> is what \<open>eventfd\<close> returned.
\<close>

definition eventloop_new :: "'k epoll_ctl \<Rightarrow> bool \<Rightarrow> (int \<Rightarrow> 'k option) \<Rightarrow> obj option \<Rightarrow> int \<Rightarrow> ptr \<Rightarrow> int
    \<Rightarrow> (ptr \<Rightarrow> channel) \<Rightarrow> ('k, 'f) eventloop res" where
  "eventloop_new ctl use_poll epoll_create t_loop tid wp evfd heap =
     rbind (newDefaultPoller use_poll epoll_create heap) (\<lambda>poller.
     rbind (creatEventfd evfd) (\<lambda>wfd.
       if t_loop \<noteq> None then Inl FatalAbort
       else case poller of
           None \<Rightarrow> Inl UndefinedBehaviour
         | Some p \<Rightarrow>
             let L = poller.extend p \<lparr>threadId = tid, looping = False, quitting = False,
                 callingPendingFunctors = False, pendingFunctors = [], wakeups = 0, wakeupChannel = wp,
                 activateChannels = []\<rparr>
             in enableReading ctl wp (set_chan wp (\<lambda>_. setReadCallback LoopHandleRead (channel_new wfd)) L)))"

text \<open>\<open>hasChannel\<close> asks the poller and has no \<open>return\<close>.\<close>

definition loop_hasChannel :: "ptr \<Rightarrow> ('k, 'f, 'z) eventloop_scheme \<Rightarrow> bool res" where
  "loop_hasChannel p L = (let found = hasChannel p L in Inl UndefinedBehaviour)"

text \<open>
  The timers.  \<open>TimerQueue::addTimer\<close> has no body in the repository and is an argument, on a queue of any
  type; \<open>delta\<close> is \<open>addTime\<close>'s conversion of a waiting time and \<open>zero\<close> the interval 0.0.
\<close>

definition runAt :: "('f \<Rightarrow> timestamp \<Rightarrow> 'd \<Rightarrow> 'q \<Rightarrow> 'q) \<Rightarrow> 'd \<Rightarrow> timestamp \<Rightarrow> 'f \<Rightarrow> 'q \<Rightarrow> 'q" where
  "runAt addTimer zero time cb q = addTimer cb time zero q"

definition runAfter :: "('f \<Rightarrow> timestamp \<Rightarrow> 'd \<Rightarrow> 'q \<Rightarrow> 'q) \<Rightarrow> 'd \<Rightarrow> ('d \<Rightarrow> int) \<Rightarrow> timestamp \<Rightarrow> 'd \<Rightarrow> 'f \<Rightarrow> 'q \<Rightarrow> 'q" where
  "runAfter addTimer zero delta now waitTime cb q = runAt addTimer zero (addTime now (delta waitTime)) cb q"

definition runEvery :: "('f \<Rightarrow> timestamp \<Rightarrow> 'd \<Rightarrow> 'q \<Rightarrow> 'q) \<Rightarrow> ('d \<Rightarrow> int) \<Rightarrow> timestamp \<Rightarrow> 'd \<Rightarrow> 'f \<Rightarrow> 'q \<Rightarrow> 'q" where
  "runEvery addTimer delta now interval cb q = addTimer cb (addTime now (delta interval)) interval q"

text \<open>Channels reach the poller through their loop.\<close>

definition loop_updateChannel :: "'k epoll_ctl \<Rightarrow> ptr \<Rightarrow> ('k, 'z) poller_scheme \<Rightarrow> ('k, 'z) poller_scheme res" where
  [simp]: "loop_updateChannel ctl p L = updateChannel ctl p L"

definition loop_removeChannel :: "'k epoll_ctl \<Rightarrow> ptr \<Rightarrow> ('k, 'z) poller_scheme \<Rightarrow> ('k, 'z) poller_scheme res" where
  [simp]: "loop_removeChannel ctl p L = removeChannel ctl p L"

definition channel_remove :: "'k epoll_ctl \<Rightarrow> ptr \<Rightarrow> ('k, 'z) poller_scheme \<Rightarrow> ('k, 'z) poller_scheme res" where
  [simp]: "channel_remove ctl p L = loop_removeChannel ctl p L"

definition eventloop_destroy :: "'k epoll_ctl \<Rightarrow> ('k, 'f, 'z) eventloop_scheme \<Rightarrow> ('k, 'f, 'z) eventloop_scheme res" where
  "eventloop_destroy ctl L =
     rbind (disableAll ctl (wakeupChannel L) L) (channel_remove ctl (wakeupChannel L))"

section \<open>Other threads talking to the loop\<close>

definition isInLoopThread :: "int \<Rightarrow> ('k, 'f, 'z) eventloop_scheme \<Rightarrow> bool" where
  "isInLoopThread tid L \<longleftrightarrow> threadId L = tid"

definition wakeup :: "('k, 'f, 'z) eventloop_scheme \<Rightarrow> ('k, 'f, 'z) eventloop_scheme" where
  "wakeup L = L\<lparr>wakeups := Suc (wakeups L)\<rparr>"

definition handleWakeup :: "('k, 'f, 'z) eventloop_scheme \<Rightarrow> ('k, 'f, 'z) eventloop_scheme" where
  "handleWakeup L = L\<lparr>wakeups := 0\<rparr>"

definition loop_quit :: "int \<Rightarrow> ('k, 'f, 'z) eventloop_scheme \<Rightarrow> ('k, 'f, 'z) eventloop_scheme" where
  "loop_quit tid L = (let L1 = L\<lparr>quitting := True\<rparr> in if isInLoopThread tid L1 then wakeup L1 else L1)"

text \<open>\<open>queueInLoop\<close> in its two parts, the section under the lock and the wakeup after it.\<close>

definition queue_push :: "'f \<Rightarrow> ('k, 'f, 'z) eventloop_scheme \<Rightarrow> ('k, 'f, 'z) eventloop_scheme" where
  "queue_push f L = L\<lparr>pendingFunctors := pendingFunctors L @ [f]\<rparr>"

definition queue_wake :: "int \<Rightarrow> ('k, 'f, 'z) eventloop_scheme \<Rightarrow> ('k, 'f, 'z) eventloop_scheme" where
  "queue_wake tid L = (if \<not> isInLoopThread tid L \<or> callingPendingFunctors L then wakeup L else L)"

definition queueInLoop :: "int \<Rightarrow> 'f \<Rightarrow> ('k, 'f, 'z) eventloop_scheme \<Rightarrow> ('k, 'f, 'z) eventloop_scheme" where
  "queueInLoop tid f L = queue_wake tid (queue_push f L)"

text \<open>\<open>runInLoop\<close>: \<open>call\<close> runs the functor on the spot.\<close>

definition runInLoop :: "int \<Rightarrow> ('f \<Rightarrow> ('k, 'f, 'z) eventloop_scheme \<Rightarrow> ('k, 'f, 'z) eventloop_scheme res)
    \<Rightarrow> 'f \<Rightarrow> ('k, 'f, 'z) eventloop_scheme \<Rightarrow> ('k, 'f, 'z) eventloop_scheme res" where
  "runInLoop tid call f L = (if isInLoopThread tid L then call f L else Inr (queueInLoop tid f L))"

section \<open>The loop thread\<close>

fun run_all :: "('a \<Rightarrow> 's \<Rightarrow> 's res) \<Rightarrow> 'a list \<Rightarrow> 's \<Rightarrow> 's res" where
  "run_all run [] s = Inr s"
| "run_all run (x # xs) s = rbind (run x s) (run_all run xs)"

text \<open>\<open>doPendingFunctors\<close>: raise the flag, swap the queue out under the lock, run, lower the flag.\<close>

definition pending_begin :: "('k, 'f, 'z) eventloop_scheme \<Rightarrow> ('k, 'f, 'z) eventloop_scheme" where
  "pending_begin L = L\<lparr>callingPendingFunctors := True\<rparr>"

definition pending_swap :: "('k, 'f, 'z) eventloop_scheme \<Rightarrow> 'f list \<times> ('k, 'f, 'z) eventloop_scheme" where
  "pending_swap L = (pendingFunctors L, L\<lparr>pendingFunctors := []\<rparr>)"

definition pending_end :: "('k, 'f, 'z) eventloop_scheme \<Rightarrow> ('k, 'f, 'z) eventloop_scheme" where
  "pending_end L = L\<lparr>callingPendingFunctors := False\<rparr>"

definition doPendingFunctors :: "('f \<Rightarrow> ('k, 'f, 'z) eventloop_scheme \<Rightarrow> ('k, 'f, 'z) eventloop_scheme res)
    \<Rightarrow> ('k, 'f, 'z) eventloop_scheme \<Rightarrow> ('k, 'f, 'z) eventloop_scheme res" where
  "doPendingFunctors run L =
     (let (functors, L1) = pending_swap (pending_begin L) in
      rbind (run_all run functors L1) (\<lambda>L2. Inr (pending_end L2)))"

text \<open>
  One round of \<open>loop()\<close>.  \<open>cb\<close> runs a callback, \<open>run\<close> a functor, \<open>alive\<close> tells which tied
  objects exist; \<open>w\<close> is what \<open>epoll_wait\<close> returns in this round.
\<close>

definition handle_channel :: "(callback \<Rightarrow> ('k, 'f, 'z) eventloop_scheme \<Rightarrow> ('k, 'f, 'z) eventloop_scheme res)
    \<Rightarrow> (('k, 'f, 'z) eventloop_scheme \<Rightarrow> obj \<Rightarrow> bool) \<Rightarrow> ptr
    \<Rightarrow> ('k, 'f, 'z) eventloop_scheme \<Rightarrow> ('k, 'f, 'z) eventloop_scheme res" where
  "handle_channel cb alive p L = run_all cb (handleEvent (alive L) (chans L p)) L"

definition loop_round :: "(callback \<Rightarrow> ('k, 'f, 'z) eventloop_scheme \<Rightarrow> ('k, 'f, 'z) eventloop_scheme res)
    \<Rightarrow> ('f \<Rightarrow> ('k, 'f, 'z) eventloop_scheme \<Rightarrow> ('k, 'f, 'z) eventloop_scheme res)
    \<Rightarrow> (('k, 'f, 'z) eventloop_scheme \<Rightarrow> obj \<Rightarrow> bool) \<Rightarrow> wait_result
    \<Rightarrow> ('k, 'f, 'z) eventloop_scheme \<Rightarrow> ('k, 'f, 'z) eventloop_scheme res" where
  "loop_round cb run alive w L =
     rbind (poll w [] (L\<lparr>activateChannels := []\<rparr>)) (\<lambda>(_, active, L1).
     rbind (run_all (handle_channel cb alive) active (L1\<lparr>activateChannels := active\<rparr>)) (\<lambda>L2.
       doPendingFunctors run L2))"

text \<open>
  \<open>while(!quit_)\<close> over the returns of \<open>epoll_wait\<close>: the flag of the result tells whether the loop
  was left; with the returns used up it is still inside, waiting.
\<close>

fun loop_while :: "(callback \<Rightarrow> ('k, 'f, 'z) eventloop_scheme \<Rightarrow> ('k, 'f, 'z) eventloop_scheme res)
    \<Rightarrow> ('f \<Rightarrow> ('k, 'f, 'z) eventloop_scheme \<Rightarrow> ('k, 'f, 'z) eventloop_scheme res)
    \<Rightarrow> (('k, 'f, 'z) eventloop_scheme \<Rightarrow> obj \<Rightarrow> bool) \<Rightarrow> wait_result list
    \<Rightarrow> ('k, 'f, 'z) eventloop_scheme \<Rightarrow> (bool \<times> ('k, 'f, 'z) eventloop_scheme) res" where
  "loop_while cb run alive [] L = Inr (if quitting L then (True, L\<lparr>looping := False\<rparr>) else (False, L))"
| "loop_while cb run alive (w # ws) L =
     (if quitting L then Inr (True, L\<lparr>looping := False\<rparr>)
      else rbind (loop_round cb run alive w L) (loop_while cb run alive ws))"

definition loop :: "(callback \<Rightarrow> ('k, 'f, 'z) eventloop_scheme \<Rightarrow> ('k, 'f, 'z) eventloop_scheme res)
    \<Rightarrow> ('f \<Rightarrow> ('k, 'f, 'z) eventloop_scheme \<Rightarrow> ('k, 'f, 'z) eventloop_scheme res)
    \<Rightarrow> (('k, 'f, 'z) eventloop_scheme \<Rightarrow> obj \<Rightarrow> bool) \<Rightarrow> wait_result list
    \<Rightarrow> ('k, 'f, 'z) eventloop_scheme \<Rightarrow> (bool \<times> ('k, 'f, 'z) eventloop_scheme) res" where
  "loop cb run alive ws L = loop_while cb run alive ws (L\<lparr>looping := True, quitting := False\<rparr>)"

lemmas queue_defs = queueInLoop_def queue_wake_def queue_push_def isInLoopThread_def wakeup_def
lemmas pending_defs = pending_begin_def pending_swap_def pending_end_def

section \<open>Running the functors\<close>

text \<open>A functor can touch the queue only by queueing more: \<open>spawn f\<close> is what running \<open>f\<close> queues.\<close>

lemma run_all_spawn:
  assumes "\<And>f L L'. run f L = Inr L' \<Longrightarrow> pendingFunctors L' = pendingFunctors L @ spawn f"
    and "run_all run fs L = Inr L'"
  shows "pendingFunctors L' = pendingFunctors L @ concat (map spawn fs)"
  using assms(2)
  by (induction fs arbitrary: L) (auto simp: rbind_eq_Inr dest: assms(1))

section \<open>The loop and the threads that queue into it\<close>

text \<open>
  The interleaving: a thread other than the loop's is inside \<open>queueInLoop\<close> between the unlock and
  the wakeup while it is in \<open>pushed\<close>; the loop thread is in one of the phases below.  Handlers and
  functors run by the loop thread may queue too.  \<open>Created\<close> is the time before \<open>loop()\<close>, when the thread
  may queue as well (the initialisation callback of \<open>EventLoopThread::threadFunc\<close>).  \<open>early\<close> is kept for the
  statements only: what it queued then and has not swapped out yet.
\<close>

datatype 'f phase = Created | Polling | Handling | Swapping | Running "'f list" | Stopped

record ('k, 'f) sys =
  lp :: "('k, 'f) eventloop"
  phase :: "'f phase"
  pushed :: "int set"
  early :: "'f list"

inductive loop_step :: "('k, 'f) sys \<Rightarrow> ('k, 'f) sys \<Rightarrow> bool" where
  other_push: "t \<noteq> threadId (lp s) \<Longrightarrow> t \<notin> pushed s
    \<Longrightarrow> loop_step s (s\<lparr>lp := queue_push f (lp s), pushed := insert t (pushed s)\<rparr>)"
| other_wake: "t \<in> pushed s
    \<Longrightarrow> loop_step s (s\<lparr>lp := queue_wake t (lp s), pushed := pushed s - {t}\<rparr>)"
| other_quit: "t \<noteq> threadId (lp s) \<Longrightarrow> loop_step s (s\<lparr>lp := loop_quit t (lp s)\<rparr>)"
| loop_enter: "phase s = Created
    \<Longrightarrow> loop_step s (s\<lparr>lp := (lp s)\<lparr>looping := True, quitting := False\<rparr>, phase := Polling\<rparr>)"
| poll_return: "phase s = Polling \<Longrightarrow> loop_step s (s\<lparr>phase := Handling\<rparr>)"
| own_wakeup: "phase s = Handling \<Longrightarrow> loop_step s (s\<lparr>lp := handleWakeup (lp s)\<rparr>)"
| early_queue: "phase s = Created
    \<Longrightarrow> loop_step s (s\<lparr>lp := queueInLoop (threadId (lp s)) f (lp s), early := early s @ [f]\<rparr>)"
| early_quit: "phase s = Created \<Longrightarrow> loop_step s (s\<lparr>lp := loop_quit (threadId (lp s)) (lp s)\<rparr>)"
| own_queue: "phase s = Handling \<or> (\<exists>fs. phase s = Running fs)
    \<Longrightarrow> loop_step s (s\<lparr>lp := queueInLoop (threadId (lp s)) f (lp s)\<rparr>)"
| own_quit: "phase s = Handling \<or> (\<exists>fs. phase s = Running fs)
    \<Longrightarrow> loop_step s (s\<lparr>lp := loop_quit (threadId (lp s)) (lp s)\<rparr>)"
| begin_pending: "phase s = Handling
    \<Longrightarrow> loop_step s (s\<lparr>lp := pending_begin (lp s), phase := Swapping\<rparr>)"
| swap_pending: "phase s = Swapping
    \<Longrightarrow> loop_step s (s\<lparr>lp := snd (pending_swap (lp s)), phase := Running (fst (pending_swap (lp s))), early := []\<rparr>)"
| run_functor: "phase s = Running (f # fs) \<Longrightarrow> loop_step s (s\<lparr>phase := Running fs\<rparr>)"
| end_pending: "phase s = Running []
    \<Longrightarrow> loop_step s (s\<lparr>lp := pending_end (lp s), phase := if quitting (lp s) then Stopped else Polling\<rparr>)"

definition fresh_loop :: "('k, 'f) sys \<Rightarrow> bool" where
  "fresh_loop s \<longleftrightarrow> phase s = Created \<and> pushed s = {} \<and> early s = [] \<and> pendingFunctors (lp s) = []
     \<and> wakeups (lp s) = 0 \<and> \<not> callingPendingFunctors (lp s)"

inductive loop_reachable :: "('k, 'f) sys \<Rightarrow> bool" where
  init: "fresh_loop s \<Longrightarrow> loop_reachable s"
| step: "loop_reachable s \<Longrightarrow> loop_step s t \<Longrightarrow> loop_reachable t"

text \<open>
  The invariant: queued functors are on their way to be seen.  While the loop may be waiting or is
  past the swap, either a wakeup is unread or a thread is about to write one, or all that is queued was
  queued by the loop's own thread before \<open>loop()\<close>.
\<close>

definition wake_inv :: "('k, 'f) sys \<Rightarrow> bool" where
  "wake_inv s \<longleftrightarrow>
     threadId (lp s) \<notin> pushed s
     \<and> (callingPendingFunctors (lp s) \<longleftrightarrow> phase s = Swapping \<or> (\<exists>fs. phase s = Running fs))
     \<and> ((\<exists>fs. phase s = Running fs) \<longrightarrow> early s = [])
     \<and> (phase s \<in> {Created, Polling} \<or> (\<exists>fs. phase s = Running fs) \<longrightarrow> pendingFunctors (lp s) \<noteq> early s
          \<longrightarrow> 0 < wakeups (lp s) \<or> pushed s \<noteq> {})"

lemma loop_step_wake_inv: "loop_step s t \<Longrightarrow> wake_inv s \<Longrightarrow> wake_inv t"
  by (induction rule: loop_step.induct)
    (auto simp: wake_inv_def queue_defs pending_defs handleWakeup_def loop_quit_def Let_def)

lemma loop_reachable_wake_inv: "loop_reachable s \<Longrightarrow> wake_inv s"
proof (induction rule: loop_reachable.induct)
  case (init s)
  then show ?case by (simp add: fresh_loop_def wake_inv_def)
next
  case (step s t)
  then show ?case by (blast intro: loop_step_wake_inv)
qed


section \<open>Properties\<close>

text \<open>
  C11: no lost wakeup.  Let the wakeup descriptor be readable whenever a write to it is unread.
  In every reachable interleaving, when all calls of \<open>queueInLoop\<close> have returned and a functor is pending
  that the loop's own thread did not queue before \<open>loop()\<close>, a loop waiting in \<open>poll\<close> has its wakeup
  descriptor readable, so it does not stay there.
\<close>

theorem loop_no_lost_wakeup:
  assumes "loop_reachable s" and "\<forall>n > 0. readable n"
    and "phase s = Polling" and "pushed s = {}" and "pendingFunctors (lp s) \<noteq> early s"
  shows "readable (wakeups (lp s))"
  using loop_reachable_wake_inv [OF assms(1)] assms(2-) by (auto simp: wake_inv_def)

definition idle_loop :: "(unit, nat) eventloop" where
  "idle_loop = \<lparr>chans = (\<lambda>_. channel_new 4), channels = Map.empty, epollfd = (), evlist = [],
     threadId = 1, looping = False, quitting = False, callingPendingFunctors = False,
     pendingFunctors = [], wakeups = 0, wakeupChannel = 0, activateChannels = []\<rparr>"

definition polling_sys :: "(unit, nat) sys" where
  "polling_sys = \<lparr>lp = idle_loop\<lparr>looping := True\<rparr>, phase = Polling, pushed = {}, early = []\<rparr>"

lemma created_reachable: "loop_reachable \<lparr>lp = idle_loop, phase = Created, pushed = {}, early = []\<rparr>"
  by (rule loop_reachable.init) (simp add: fresh_loop_def idle_loop_def)

lemma polling_sys_reachable: "loop_reachable polling_sys"
proof -
  let ?s = "\<lparr>lp = idle_loop, phase = Created, pushed = {}, early = []\<rparr>"
  have "loop_step ?s polling_sys"
    using loop_enter [of ?s] by (simp add: polling_sys_def idle_loop_def)
  with created_reachable show ?thesis by (rule loop_reachable.step)
qed

lemma loop_no_lost_wakeup_witness:
  "\<exists>s :: (unit, nat) sys. loop_reachable s \<and> phase s = Polling \<and> pendingFunctors (lp s) = [42]
     \<and> early s = [] \<and> 0 < wakeups (lp s)"
proof -
  let ?s1 = "polling_sys\<lparr>lp := queue_push 42 (lp polling_sys), pushed := {2}\<rparr>"
  let ?s2 = "?s1\<lparr>lp := queue_wake 2 (lp ?s1), pushed := {}\<rparr>"
  have "loop_step polling_sys ?s1"
    using other_push [of 2 polling_sys 42] by (simp add: polling_sys_def idle_loop_def)
  moreover have "loop_step ?s1 ?s2" using other_wake [of 2 ?s1] by simp
  ultimately have r: "loop_reachable ?s2"
    using polling_sys_reachable loop_reachable.step by blast
  have f: "phase ?s2 = Polling" "pushed ?s2 = {}" "pendingFunctors (lp ?s2) = [42]" "early ?s2 = []"
    by (simp_all add: polling_sys_def idle_loop_def queue_defs)
  have "0 < wakeups (lp ?s2)"
    by (rule loop_no_lost_wakeup [OF r, where readable = "\<lambda>n. 0 < n"]) (use f in simp_all)
  with r f show ?thesis by blast
qed

text \<open>
  The exception is real: a functor the thread queues in its loop before \<open>loop()\<close> is in the queue when the loop
  first waits, with nothing unread and nobody about to write.
\<close>

theorem loop_early_functor_waits:
  "\<exists>s :: (unit, nat) sys. loop_reachable s \<and> phase s = Polling \<and> pushed s = {} \<and> pendingFunctors (lp s) = [42]
     \<and> wakeups (lp s) = 0"
proof -
  let ?s0 = "\<lparr>lp = idle_loop, phase = Created, pushed = {}, early = []\<rparr> :: (unit, nat) sys"
  let ?s1 = "?s0\<lparr>lp := queueInLoop (threadId (lp ?s0)) 42 (lp ?s0), early := early ?s0 @ [42]\<rparr>"
  let ?s2 = "?s1\<lparr>lp := (lp ?s1)\<lparr>looping := True, quitting := False\<rparr>, phase := Polling\<rparr>"
  have "loop_step ?s0 ?s1" by (rule early_queue) simp
  moreover have "loop_step ?s1 ?s2" by (rule loop_enter) simp
  ultimately have "loop_reachable ?s2" using created_reachable by (blast intro: loop_reachable.step)
  then show ?thesis by (intro exI [of _ ?s2]) (simp add: queue_defs idle_loop_def)
qed

text \<open>
  A pass over the pending functors is finite.  If running a functor succeeds and queues some
  more, \<open>doPendingFunctors\<close> runs the functors that were pending when it swapped the queue, and what
  they queued stays, in order, for the next round of the loop.
\<close>

theorem loop_functors_no_starvation:
  assumes "\<And>f L. \<exists>L'. run f L = Inr L' \<and> pendingFunctors L' = pendingFunctors L @ spawn f"
  shows "\<exists>L'. doPendingFunctors run L = Inr L' \<and> \<not> callingPendingFunctors L'
    \<and> pendingFunctors L' = concat (map spawn (pendingFunctors L))"
proof -
  have "\<exists>L'. run_all run fs L = Inr L'" for fs L
  proof (induction fs arbitrary: L)
    case Nil
    then show ?case by simp
  next
    case (Cons f fs)
    obtain L1 where "run f L = Inr L1" using assms by blast
    with Cons show ?case by simp
  qed
  then obtain L2 where L2: "run_all run (pendingFunctors L) (snd (pending_swap (pending_begin L))) = Inr L2"
    by blast
  have "pendingFunctors L2 = concat (map spawn (pendingFunctors L))"
  proof -
    have "pendingFunctors M' = pendingFunctors M @ spawn f" if "run f M = Inr M'" for f M M'
      using assms [of f M] that by auto
    from run_all_spawn [OF this L2] show ?thesis by (simp add: pending_defs)
  qed
  then show ?thesis using L2 by (simp add: doPendingFunctors_def pending_defs Let_def)
qed

lemma loop_functors_no_starvation_witness:
  "\<exists>L'. doPendingFunctors (\<lambda>f L. Inr (if f = 0 then L else queueInLoop 1 (f - 1) L))
      (idle_loop\<lparr>pendingFunctors := [2, 0, 1]\<rparr>) = Inr L'
    \<and> \<not> callingPendingFunctors L' \<and> pendingFunctors L' = [1, 0]"
  using loop_functors_no_starvation [where run = "\<lambda>f L. Inr (if f = 0 then L else queueInLoop 1 (f - 1) L)"
      and spawn = "\<lambda>f. if f = 0 then [] else [f - 1]" and L = "idle_loop\<lparr>pendingFunctors := [2, 0, 1]\<rparr>"]
  by (auto simp: queue_defs)

text \<open>
  \<open>quit()\<close> wakes the wrong side.  It writes a wakeup only when it is called in the loop's own
  thread.  Called from another thread while the loop waits with nothing unread, it leaves the loop
  waiting with nothing unread: the flag is set, but nothing makes \<open>poll\<close> return before its timeout.
\<close>

theorem loop_quit_leaves_waiting:
  assumes "loop_reachable s" and "phase s = Polling" and "wakeups (lp s) = 0" and "t \<noteq> threadId (lp s)"
  defines "s' \<equiv> s\<lparr>lp := loop_quit t (lp s)\<rparr>"
  shows "loop_reachable s' \<and> phase s' = Polling \<and> quitting (lp s') \<and> wakeups (lp s') = 0"
proof -
  have "loop_step s s'" unfolding s'_def using assms(4) by (rule other_quit)
  with assms(1) have "loop_reachable s'" by (rule loop_reachable.step)
  with assms(2-4) show ?thesis
    by (auto simp: s'_def loop_quit_def isInLoopThread_def wakeup_def Let_def)
qed

lemma loop_quit_leaves_waiting_witness:
  "\<exists>s :: (unit, nat) sys. loop_reachable s \<and> phase s = Polling \<and> quitting (lp s) \<and> wakeups (lp s) = 0"
  using loop_quit_leaves_waiting [OF polling_sys_reachable, of 2]
  by (auto simp: polling_sys_def idle_loop_def)

text \<open>
  A \<open>quit()\<close> from another thread before \<open>loop()\<close> has started is lost: \<open>loop()\<close> clears the flag,
  and runs exactly as if \<open>quit()\<close> had not been called.
\<close>

theorem loop_early_quit_lost:
  assumes "t \<noteq> threadId L"
  shows "loop cb run alive ws (loop_quit t L) = loop cb run alive ws L"
  using assms by (simp add: loop_def loop_quit_def isInLoopThread_def Let_def)

lemma loop_early_quit_lost_witness:
  "loop (\<lambda>c L. Inr L) (\<lambda>f L. Inr L) (\<lambda>_ _. True) [EvOk [], EvErr 4] (loop_quit 7 idle_loop)
   = loop (\<lambda>c L. Inr L) (\<lambda>f L. Inr L) (\<lambda>_ _. True) [EvOk [], EvErr 4] idle_loop"
  by (rule loop_early_quit_lost) (simp add: idle_loop_def)

text \<open>What the constructor leaves: the wakeup channel registered for reading, nothing queued.\<close>

lemma eventloop_new_ok:
  fixes heap :: "ptr \<Rightarrow> channel" and ctl :: "'k epoll_ctl"
  assumes "epoll_documented ctl view" and "epoll_create EPOLL_CLOEXEC = Some k" and "view k = Map.empty" and "0 \<le> wfd"
  shows "\<exists>L :: ('k, 'f) eventloop. eventloop_new ctl False epoll_create None tid wp wfd heap = Inr L \<and> poller_inv view {wp} L
    \<and> chans L wp = (channel_new wfd)\<lparr>readCallback := Some LoopHandleRead, ch_events := 3, ch_index := kAdded\<rparr>
    \<and> threadId L = tid \<and> pendingFunctors L = [] \<and> wakeupChannel L = wp \<and> quitting L = False"
proof -
  define L0 :: "('k, 'f) eventloop" where "L0 = \<lparr>chans = heap, channels = Map.empty,
       epollfd = k, evlist = replicate kInitEventListSize (0, 0), threadId = tid, looping = False,
       quitting = False, callingPendingFunctors = False, pendingFunctors = [], wakeups = 0,
       wakeupChannel = wp, activateChannels = []\<rparr>"
  define L1 where "L1 = set_chan wp (\<lambda>_. setReadCallback LoopHandleRead (channel_new wfd)) L0"
  have wp: "chans L1 wp = (channel_new wfd)\<lparr>readCallback := Some LoopHandleRead\<rparr>"
    by (simp add: L1_def L0_def)
  have inv: "poller_inv view {wp} L1"
    by (rule poller_inv_init) (simp_all add: L1_def L0_def channel_new_def index_defs assms(3))
  have "ch_index (chans L1 wp) = kNew" by (simp add: wp channel_new_def index_defs)
  then obtain L where L: "enableReading ctl wp L1 = Inr L"
      "stepped view {wp} wp (ev_enableReading (ch_events (chans L1 wp))) kAdded L1 L"
    using register_steps [OF assms(1) inv, of wp ev_enableReading] by (auto simp: enableReading_def)
  have e: "ev_enableReading (ch_events (chans L1 wp)) = 3"
    by (simp add: wp channel_new_def ev_defs kReadEvent_def epoll_bits)
  have c: "chans L wp = (chans L1 wp)\<lparr>ch_events := 3, ch_index := kAdded\<rparr>" and i: "poller_inv view {wp} L"
    using L(2) e by (simp_all add: stepped_def)
  have "poller.more L = poller.more L1" using L(2) by (simp add: stepped_def)
  then have m: "threadId L = tid" "pendingFunctors L = []" "wakeupChannel L = wp" "quitting L = False"
    by (cases L; simp add: L1_def L0_def set_chan_def)+
  have "eventloop_new ctl False epoll_create None tid wp wfd heap = Inr L"
    using L(1) assms(2,4)
    by (simp add: eventloop_new_def newDefaultPoller_def EpollPoller_new_def creatEventfd_def poller.extend_def
        L1_def L0_def del: setReadCallback_def)
  then show ?thesis using i c m by (simp add: wp)
qed

text \<open>
  Construction.  In a thread that already has a loop the constructor aborts; in any other it
  ends with the poller well formed and the kernel watching exactly the wakeup descriptor for
  reading, with \<open>EventLoop::handleRead\<close> as the callback its events dispatch to.
\<close>

theorem eventloop_new_wakeup_ready:
  assumes "epoll_documented ctl view" and "epoll_create EPOLL_CLOEXEC = Some k" and "view k = Map.empty" and "0 \<le> wfd"
  shows "eventloop_new ctl False epoll_create (Some o1) tid wp wfd heap = Inl FatalAbort
    \<and> eventloop_new ctl True epoll_create None tid wp wfd heap = Inl UndefinedBehaviour
    \<and> (\<exists>L :: ('k, 'f) eventloop. eventloop_new ctl False epoll_create None tid wp wfd heap = Inr L \<and> poller_inv view {wp} L
         \<and> view (epollfd L) = [wfd \<mapsto> (3, wp)]
         \<and> handleEvent alive ((chans L wp)\<lparr>ch_revents := EPOLLIN\<rparr>) = [LoopHandleRead])"
proof -
  obtain L :: "('k, 'f) eventloop" where L: "eventloop_new ctl False epoll_create None tid wp wfd heap = Inr L" "poller_inv view {wp} L"
      "chans L wp = (channel_new wfd)\<lparr>readCallback := Some LoopHandleRead, ch_events := 3, ch_index := kAdded\<rparr>"
    using eventloop_new_ok [where epoll_create = epoll_create and k = k and view = view, OF assms] by blast
  have "channels L fd = (if fd = wfd then Some wp else None)" for fd
    using poller_invD(1) [OF L(2), of wp] poller_inv_reg(2) [OF L(2), of fd] L(3)
    by (cases "channels L fd") (auto simp: channel_new_def)
  then have "view (epollfd L) = [wfd \<mapsto> (3, wp)]"
    using L(2,3) by (auto simp: poller_inv_def interest_def fun_eq_iff)
  moreover have "handleEvent alive ((chans L wp)\<lparr>ch_revents := EPOLLIN\<rparr>) = [LoopHandleRead]"
    by (simp add: L(3) channel_new_def handleEvent_def handleEventWithGuard_def epoll_bits invoke_def)
  ultimately show ?thesis
    using L(1,2) assms(2,4) by (simp add: eventloop_new_def newDefaultPoller_def EpollPoller_new_def creatEventfd_def)
qed

lemma eventloop_new_wakeup_ready_witness:
  "\<exists>L :: (int \<rightharpoonup> epoll_event, nat) eventloop.
     eventloop_new list_ctl False (\<lambda>_. Some Map.empty) None 1 0 4 (\<lambda>_. channel_new 0) = Inr L
     \<and> epollfd L = [4 \<mapsto> (3, 0)]"
  using eventloop_new_wakeup_ready [OF list_ctl_documented, of "\<lambda>_. Some Map.empty" Map.empty 4] by simp blast

end
