(* ===== verification/Byte_Queue.thy ===== *)
theory Byte_Queue
  imports Prelude
begin

text \<open>
  The interface between a connection and its buffers: a bounded queue of bytes.  A client puts
  chunks in at one end and takes prefixes out at the other; the laws say what the queue holds
  afterwards and when a put cannot fail.  \<open>run_queue\<close> is the client's point of view, a whole
  session of puts and gets; its lemmas are proved once here, from the laws alone.
\<close>

datatype queue_op = Put "char list" | Get nat

fun run_queue :: "(char list \<Rightarrow> 'q \<Rightarrow> 'q res) \<Rightarrow> (nat \<Rightarrow> 'q \<Rightarrow> 'q) \<Rightarrow> ('q \<Rightarrow> char list)
    \<Rightarrow> queue_op list \<Rightarrow> 'q \<Rightarrow> (char list \<times> 'q) res" where
  "run_queue put get contents [] q = Inr ([], q)"
| "run_queue put get contents (Put ds # ops) q =
     rbind (put ds q) (run_queue put get contents ops)"
| "run_queue put get contents (Get n # ops) q =
     (let k = min n (length (contents q)) in
      rbind (run_queue put get contents ops (get k q))
        (\<lambda>(out, q'). Inr (take k (contents q) @ out, q')))"

fun put_bytes :: "queue_op list \<Rightarrow> char list" where
  "put_bytes [] = []"
| "put_bytes (Put ds # ops) = ds @ put_bytes ops"
| "put_bytes (Get n # ops) = put_bytes ops"

fun chunks_below :: "nat \<Rightarrow> queue_op list \<Rightarrow> bool" where
  "chunks_below m [] = True"
| "chunks_below m (Put ds # ops) = (length ds < m \<and> chunks_below m ops)"
| "chunks_below m (Get n # ops) = chunks_below m ops"

locale byte_queue =
  fixes put :: "char list \<Rightarrow> 'q \<Rightarrow> 'q res"
    and get :: "nat \<Rightarrow> 'q \<Rightarrow> 'q"
    and contents :: "'q \<Rightarrow> char list"
    and invar :: "'q \<Rightarrow> bool"
    and capacity :: "'q \<Rightarrow> nat"
    and chunk_limit :: nat
    and size_limit :: nat
  assumes put_ok: "invar q \<Longrightarrow> length ds < chunk_limit \<Longrightarrow> capacity q + length ds \<le> size_limit
      \<Longrightarrow> \<exists>q'. put ds q = Inr q' \<and> invar q' \<and> contents q' = contents q @ ds
             \<and> capacity q' \<le> capacity q + length ds"
    and get_invar: "invar q \<Longrightarrow> invar (get n q)"
    and get_contents: "invar q \<Longrightarrow> n \<le> length (contents q) \<Longrightarrow> contents (get n q) = drop n (contents q)"
    and get_capacity: "invar q \<Longrightarrow> capacity (get n q) = capacity q"
begin

text \<open>First in, first out over a session: what came out, then what is left, is what was there
  and then what was put, and no put fails while the total stays within the size limit.\<close>

lemma session_fifo:
  assumes "invar q" "chunks_below chunk_limit ops"
    and "capacity q + length (put_bytes ops) \<le> size_limit"
  shows "\<exists>out q'. run_queue put get contents ops q = Inr (out, q') \<and> invar q'
           \<and> out @ contents q' = contents q @ put_bytes ops"
  using assms
proof (induction ops arbitrary: q)
  case Nil
  then show ?case by simp
next
  case (Cons a ops)
  show ?case
  proof (cases a)
    case (Put ds)
    have "length ds < chunk_limit" "capacity q + length ds \<le> size_limit"
      using Cons.prems Put by auto
    then obtain q1 where q1: "put ds q = Inr q1" "invar q1" "contents q1 = contents q @ ds"
        "capacity q1 \<le> capacity q + length ds"
      using put_ok Cons.prems(1) by blast
    have "capacity q1 + length (put_bytes ops) \<le> size_limit"
      using q1(4) Cons.prems(3) Put by simp
    with Cons.IH [OF q1(2)] Cons.prems(2) q1(1,3) Put show ?thesis by auto
  next
    case (Get n)
    let ?k = "min n (length (contents q))"
    have "\<exists>out q'. run_queue put get contents ops (get ?k q) = Inr (out, q') \<and> invar q'
           \<and> out @ contents q' = contents (get ?k q) @ put_bytes ops"
      by (rule Cons.IH) (use Cons.prems Get in \<open>auto simp: get_invar get_capacity\<close>)
    then obtain out q' where r: "run_queue put get contents ops (get ?k q) = Inr (out, q')"
        "invar q'" "out @ contents q' = drop ?k (contents q) @ put_bytes ops"
      using get_contents Cons.prems(1) by auto
    have "(take ?k (contents q) @ out) @ contents q' = contents q @ put_bytes ops"
      using r(3) by simp
    with r(1,2) Get show ?thesis by (auto simp: Let_def)
  qed
qed

text \<open>Taking out as much as there is, chunk by chunk, empties the queue.\<close>

lemma get_all:
  assumes "invar q"
  shows "contents (get (length (contents q)) q) = []"
  using assms by (simp add: get_contents)

end

end
