(* ===== verification/Net_Buffer.thy ===== *)
theory Net_Buffer
  imports Byte_Queue
begin

text \<open>
  \<open>include/net/Buffer.h\<close> and \<open>src/net/Buffer.cpp\<close>: the growing byte buffer between a socket and
  the user code.  Indices are \<open>size_t\<close> and wrap; the storage is a list; every raw copy is bounds
  checked by the \<open>vec_\<close> operations of the prelude.  The system calls \<open>readv\<close> and \<open>write\<close> are
  arguments.
\<close>

section \<open>Data and operations\<close>

definition kCheapPrepend :: size_t where "kCheapPrepend = 8"
definition kInitialSize :: size_t where "kInitialSize = 1024"
definition kExtraSize :: nat where "kExtraSize = 65536"

record buffer =
  store :: "char list"
  readerIndex :: size_t
  writerIndex :: size_t

definition vsize :: "buffer \<Rightarrow> size_t" where
  "vsize b = of_nat (length (store b))"

definition buffer_new :: "size_t \<Rightarrow> buffer res" where
  "buffer_new InitialSize =
     rbind (vec_resize (CHR 0x00) (kCheapPrepend + InitialSize) [])
       (\<lambda>s. Inr \<lparr>store = s, readerIndex = kCheapPrepend, writerIndex = kCheapPrepend\<rparr>)"

definition readableBytes :: "buffer \<Rightarrow> size_t" where
  "readableBytes b = writerIndex b - readerIndex b"

definition writeableBytes :: "buffer \<Rightarrow> size_t" where
  "writeableBytes b = vsize b - writerIndex b"

definition prependableBytes :: "buffer \<Rightarrow> size_t" where
  "prependableBytes b = readerIndex b"

text \<open>Pointers into the storage are offsets from \<open>begin()\<close>.\<close>

definition peek :: "buffer \<Rightarrow> size_t" where
  "peek b = readerIndex b"

definition retrieveAll :: "buffer \<Rightarrow> buffer" where
  "retrieveAll b = b\<lparr>readerIndex := kCheapPrepend, writerIndex := kCheapPrepend\<rparr>"

definition retrieve :: "size_t \<Rightarrow> buffer \<Rightarrow> buffer" where
  "retrieve len b =
     (if len < readableBytes b then b\<lparr>readerIndex := readerIndex b + len\<rparr> else retrieveAll b)"

definition retrieveUntil :: "size_t \<Rightarrow> buffer \<Rightarrow> buffer" where
  "retrieveUntil end_ptr b = retrieve (end_ptr - peek b) b"

definition GetBufferAllAsString :: "buffer \<Rightarrow> char list res" where
  "GetBufferAllAsString b = vec_read (store b) (unat (peek b)) (unat (readableBytes b))"

definition retrieveAsString :: "size_t \<Rightarrow> buffer \<Rightarrow> (char list \<times> buffer) res" where
  "retrieveAsString len b =
     rbind (vec_read (store b) (unat (peek b)) (unat len)) (\<lambda>result. Inr (result, retrieve len b))"

definition retrieveAllAsString :: "buffer \<Rightarrow> (char list \<times> buffer) res" where
  "retrieveAllAsString b = retrieveAsString (readableBytes b) b"

text \<open>
  \<open>makeSpace\<close> takes its length as an \<open>int\<close>; the comparison and the addition convert it back to
  \<open>size_t\<close>.
\<close>

definition makeSpace :: "c_int \<Rightarrow> buffer \<Rightarrow> buffer res" where
  "makeSpace len b =
     (if writeableBytes b + prependableBytes b < size_of_int len + kCheapPrepend
      then rbind (vec_resize (CHR 0x00) (writerIndex b + size_of_int len) (store b))
             (\<lambda>s. Inr (b\<lparr>store := s\<rparr>))
      else let readable = readableBytes b in
        rbind (vec_read (store b) (unat (readerIndex b)) (unat readable)) (\<lambda>ds.
        rbind (vec_write (store b) (unat kCheapPrepend) ds) (\<lambda>s.
          Inr (b\<lparr>store := s, readerIndex := kCheapPrepend,
                 writerIndex := kCheapPrepend + readable\<rparr>))))"

definition ensureWritableBytes :: "size_t \<Rightarrow> buffer \<Rightarrow> buffer res" where
  "ensureWritableBytes len b =
     (if writeableBytes b < len then makeSpace (int_of_size len) b else Inr b)"

text \<open>\<open>append(data, len)\<close>: \<open>data\<close> is the object the pointer points into, \<open>len\<close> the claimed length.\<close>

definition buf_append :: "char list \<Rightarrow> size_t \<Rightarrow> buffer \<Rightarrow> buffer res" where
  "buf_append data len b =
     rbind (ensureWritableBytes len b) (\<lambda>b1.
     rbind (vec_read data 0 (unat len)) (\<lambda>ds.
     rbind (vec_write (store b1) (unat (writerIndex b1)) ds) (\<lambda>s.
       Inr (b1\<lparr>store := s, writerIndex := writerIndex b1 + len\<rparr>))))"

definition buf_append_str :: "char list \<Rightarrow> buffer \<Rightarrow> buffer res" where
  "buf_append_str str b = buf_append str (of_nat (length str)) b"

text \<open>\<open>findCRLF\<close> computes the position but has no \<open>return\<close>: reaching its end is undefined.\<close>

fun search_crlf :: "char list \<Rightarrow> nat" where
  "search_crlf (c # d # cs) =
     (if c = CHR 0x0D \<and> d = CHR 0x0A then 0 else Suc (search_crlf (d # cs)))"
| "search_crlf cs = length cs"

definition findCRLF :: "buffer \<Rightarrow> size_t res" where
  "findCRLF b =
     rbind (GetBufferAllAsString b) (\<lambda>ds. let crlf = peek b + of_nat (search_crlf ds) in
       Inl UndefinedBehaviour)"

section \<open>System calls on the buffer\<close>

text \<open>
  \<open>readv\<close> is given the lengths of the segments and returns the bytes it scattered over them, or
  an error number; \<open>write\<close> is given the bytes and returns how many it took, or an error number.
\<close>

datatype rd_result = ROk "char list" | RErr int
datatype wr_result = WOk nat | WErr int

definition iov_lens :: "buffer \<Rightarrow> nat list" where
  "iov_lens b =
     (let writable = writeableBytes b in
      if writable < of_nat kExtraSize then [unat writable, kExtraSize] else [unat writable])"

text \<open>
  \<open>readFd\<close> keeps the result of \<open>readv\<close> in a \<open>const size_t\<close>, so the test \<open>n < 0\<close> is a test of an
  unsigned value.
\<close>

definition readFd :: "(nat list \<Rightarrow> rd_result) \<Rightarrow> buffer \<Rightarrow> (size_t \<times> int option \<times> buffer) res" where
  "readFd sys_readv b =
     (let writable = writeableBytes b;
          (n, ds, err) = (case sys_readv (iov_lens b) of
                            ROk ds \<Rightarrow> (of_nat (length ds), ds, 0)
                          | RErr e \<Rightarrow> (- 1, [], e))
      in
      rbind (vec_write (store b) (unat (writerIndex b)) (take (unat writable) ds)) (\<lambda>s.
      rbind (vec_write (replicate kExtraSize (CHR 0x00)) 0 (drop (unat writable) ds)) (\<lambda>extrabuff.
        let b1 = b\<lparr>store := s\<rparr> in
        if n < (0 :: size_t) then Inr (n, Some err, b1)
        else if n \<le> writable then Inr (n, None, b1\<lparr>writerIndex := writerIndex b1 + n\<rparr>)
        else rbind (buf_append extrabuff (n - writable) (b1\<lparr>writerIndex := vsize b1\<rparr>))
               (\<lambda>b2. Inr (n, None, b2)))))"

definition writeFd :: "(char list \<Rightarrow> wr_result) \<Rightarrow> buffer \<Rightarrow> wr_result res" where
  "writeFd sys_write b =
     rbind (vec_read (store b) (unat (peek b)) (unat (readableBytes b))) (\<lambda>ds. Inr (sys_write ds))"


section \<open>Invariant and contents\<close>

text \<open>
  The indices stay in order above the prepend area and inside the storage, and the storage is
  no longer than a vector can be.  The contents are the bytes between the two indices.
\<close>

definition buffer_inv :: "buffer \<Rightarrow> bool" where
  "buffer_inv b \<longleftrightarrow> 8 \<le> unat (readerIndex b) \<and> unat (readerIndex b) \<le> unat (writerIndex b)
     \<and> unat (writerIndex b) \<le> length (store b) \<and> length (store b) \<le> vec_max_size"

definition contents :: "buffer \<Rightarrow> char list" where
  "contents b = slice (unat (readerIndex b)) (unat (writerIndex b)) (store b)"

lemma buffer_idx:
  assumes "buffer_inv b"
  shows "8 \<le> unat (readerIndex b)" and "unat (readerIndex b) \<le> unat (writerIndex b)"
    and "unat (writerIndex b) \<le> length (store b)" and "length (store b) < 2 ^ 63"
  using assms by (auto simp: buffer_inv_def vec_max_size_def)

lemma buffer_invD:
  assumes "buffer_inv b"
  shows "unat (vsize b) = length (store b)"
    and "unat (readableBytes b) = unat (writerIndex b) - unat (readerIndex b)"
    and "unat (writeableBytes b) = length (store b) - unat (writerIndex b)"
    and "unat (prependableBytes b) = unat (readerIndex b)"
proof -
  show v: "unat (vsize b) = length (store b)"
    using assms by (simp add: vsize_def buffer_inv_def vec_max_size_def unat_of_nat_fits)
  show "unat (readableBytes b) = unat (writerIndex b) - unat (readerIndex b)"
    using assms by (simp add: readableBytes_def buffer_inv_def unat_sub_le)
  show "unat (writeableBytes b) = length (store b) - unat (writerIndex b)"
    using assms v by (simp add: writeableBytes_def buffer_inv_def unat_sub_le)
qed (simp add: prependableBytes_def)

lemma contents_length:
  "buffer_inv b \<Longrightarrow> length (contents b) = unat (readableBytes b)"
  by (simp add: buffer_invD contents_def length_slice buffer_inv_def)

lemma readable_zero_iff: "buffer_inv b \<Longrightarrow> readableBytes b = 0 \<longleftrightarrow> contents b = []"
  by (metis contents_length length_0_conv unat_eq_0)

lemma buffer_new_ok:
  assumes "unat n + 8 \<le> vec_max_size"
  shows "\<exists>b. buffer_new n = Inr b \<and> buffer_inv b \<and> contents b = [] \<and> length (store b) = unat n + 8"
proof -
  have "unat (kCheapPrepend + n) = 8 + unat n"
    using assms by (simp add: kCheapPrepend_def vec_max_size_def unat_add_fits)
  with assms show ?thesis
    by (simp add: buffer_new_def vec_resize_def buffer_inv_def contents_def kCheapPrepend_def)
qed

section \<open>Taking bytes out\<close>

lemma retrieve_inv [inv_intros]: "buffer_inv b \<Longrightarrow> buffer_inv (retrieve n b)"
proof (cases "n < readableBytes b")
  assume inv: "buffer_inv b"
  case True
  then have n: "unat n < unat (writerIndex b) - unat (readerIndex b)"
    using inv by (simp add: word_less_nat_alt buffer_invD)
  then have "unat (readerIndex b + n) = unat (readerIndex b) + unat n"
    using buffer_idx [OF inv] by (intro unat_add_fits) simp
  with n True inv show ?thesis by (simp add: retrieve_def buffer_inv_def)
next
  assume inv: "buffer_inv b"
  case False
  with inv show ?thesis by (simp add: retrieve_def retrieveAll_def buffer_inv_def kCheapPrepend_def)
qed

lemma retrieve_contents:
  assumes inv: "buffer_inv b"
  shows "contents (retrieve n b) = drop (unat n) (contents b)"
proof (cases "n < readableBytes b")
  case True
  then have n: "unat n < unat (writerIndex b) - unat (readerIndex b)"
    using inv by (simp add: word_less_nat_alt buffer_invD)
  then have "unat (readerIndex b + n) = unat (readerIndex b) + unat n"
    using buffer_idx [OF inv] by (intro unat_add_fits) simp
  with n True show ?thesis
    by (simp add: retrieve_def contents_def slice_drop)
next
  case False
  then have "length (contents b) \<le> unat n"
    using inv by (simp add: contents_length word_less_nat_alt)
  with False show ?thesis by (simp add: retrieve_def retrieveAll_def contents_def)
qed

lemma retrieve_store [simp]: "store (retrieve n b) = store b"
  by (simp add: retrieve_def retrieveAll_def)

lemma read_contents:
  assumes "buffer_inv b" "unat n \<le> unat (readableBytes b)"
  shows "vec_read (store b) (unat (peek b)) (unat n) = Inr (take (unat n) (contents b))"
proof -
  have "unat n \<le> unat (writerIndex b) - unat (readerIndex b)"
    using assms by (simp add: buffer_invD)
  moreover from this have "unat (readerIndex b) + unat n \<le> length (store b)"
    using buffer_idx [OF assms(1)] by linarith
  ultimately show ?thesis by (simp add: vec_read_def peek_def contents_def slice_def)
qed

lemma read_all_contents:
  "buffer_inv b \<Longrightarrow> vec_read (store b) (unat (peek b)) (unat (readableBytes b)) = Inr (contents b)"
  using read_contents [of b "readableBytes b"] contents_length [of b] by simp

lemma GetBufferAllAsString_contents:
  "buffer_inv b \<Longrightarrow> GetBufferAllAsString b = Inr (contents b)"
  by (simp add: GetBufferAllAsString_def read_all_contents)

lemma writeFd_contents: "buffer_inv b \<Longrightarrow> writeFd w b = Inr (w (contents b))"
  by (simp add: writeFd_def read_all_contents)

section \<open>Making room and appending\<close>

lemma makeSpace_grow:
  assumes inv: "buffer_inv b" and n: "unat n < 2 ^ 31"
    and short: "unat (writeableBytes b) < unat n"
    and fits: "length (store b) + unat n \<le> vec_max_size"
    and full: "writeableBytes b + prependableBytes b < n + kCheapPrepend"
  shows "\<exists>b'. makeSpace (int_of_size n) b = Inr b' \<and> buffer_inv b' \<and> contents b' = contents b
      \<and> unat n \<le> unat (writeableBytes b') \<and> length (store b') \<le> length (store b) + unat n"
proof -
  let ?s = "store b @ replicate (unat (writerIndex b) + unat n - length (store b)) (CHR 0x00)"
  have w: "unat (writerIndex b + n) = unat (writerIndex b) + unat n"
    using inv fits by (intro unat_add_fits) (simp add: buffer_inv_def vec_max_size_def)
  have "vec_resize (CHR 0x00) (writerIndex b + n) (store b) = Inr ?s"
    using inv fits short w by (simp add: vec_resize_grow buffer_inv_def buffer_invD)
  then have m: "makeSpace (int_of_size n) b = Inr (b\<lparr>store := ?s\<rparr>)"
    using full n by (simp add: makeSpace_def size_int_roundtrip)
  have i: "buffer_inv (b\<lparr>store := ?s\<rparr>)"
    using inv fits by (auto simp: buffer_inv_def)
  have "contents (b\<lparr>store := ?s\<rparr>) = contents b"
    using inv by (simp add: contents_def slice_append buffer_inv_def)
  moreover have "unat n \<le> unat (writeableBytes (b\<lparr>store := ?s\<rparr>))"
    using i inv short by (simp add: buffer_invD buffer_inv_def)
  ultimately show ?thesis using m i inv by (auto simp: buffer_inv_def)
qed

text \<open>When the free space before and after the data is enough, the data moves to the front and
  the storage keeps its size.\<close>

lemma makeSpace_compact:
  assumes inv: "buffer_inv b" and n: "unat n < 2 ^ 31"
    and enough: "\<not> writeableBytes b + prependableBytes b < n + kCheapPrepend"
  shows "\<exists>b'. makeSpace (int_of_size n) b = Inr b' \<and> buffer_inv b' \<and> contents b' = contents b
      \<and> unat n \<le> unat (writeableBytes b') \<and> length (store b') = length (store b)"
proof -
  note idx = buffer_idx [OF inv]
  have "unat (writeableBytes b + prependableBytes b)
      = length (store b) - unat (writerIndex b) + unat (readerIndex b)"
    using inv idx by (subst unat_add_fits) (simp_all add: buffer_invD)
  moreover have "unat (n + kCheapPrepend) = unat n + 8"
    using n by (subst unat_add_fits) (simp_all add: kCheapPrepend_def)
  ultimately have room: "unat n + 8 \<le> length (store b) - unat (writerIndex b) + unat (readerIndex b)"
    using enough by (simp add: word_less_nat_alt)
  let ?k = "unat (writerIndex b) - unat (readerIndex b)"
  let ?s = "take 8 (store b) @ contents b @ drop (8 + ?k) (store b)"
  let ?b = "b\<lparr>store := ?s, readerIndex := 8, writerIndex := 8 + readableBytes b\<rparr>"
  have k: "length (contents b) = ?k" using inv by (simp add: contents_length buffer_invD)
  have w: "unat (8 + readableBytes b) = 8 + ?k"
    using inv idx by (subst unat_add_fits) (simp_all add: buffer_invD)
  have "vec_read (store b) (unat (readerIndex b)) (unat (readableBytes b)) = Inr (contents b)"
    using read_all_contents [OF inv] by (simp add: peek_def)
  then have m: "makeSpace (int_of_size n) b = Inr ?b"
    using enough n idx k by (simp add: makeSpace_def size_int_roundtrip kCheapPrepend_def vec_write_ok)
  have len: "length ?s = length (store b)" using idx k by simp
  have i: "buffer_inv ?b" using idx w len by (simp add: buffer_inv_def vec_max_size_def) linarith
  have "contents ?b = slice 8 (8 + length (contents b)) ?s"
    unfolding contents_def [of ?b] using w k by simp
  also have "\<dots> = contents b" by (rule slice_middle) (use idx in simp)
  finally have "contents ?b = contents b" .
  moreover have "unat n \<le> unat (writeableBytes ?b)"
    using i w k idx room by (simp add: buffer_invD)
  ultimately show ?thesis using m i len by auto
qed

lemma makeSpace_room:
  assumes "buffer_inv b" "unat n < 2 ^ 31" "unat (writeableBytes b) < unat n"
    and "length (store b) + unat n \<le> vec_max_size"
  shows "\<exists>b'. makeSpace (int_of_size n) b = Inr b' \<and> buffer_inv b' \<and> contents b' = contents b
      \<and> unat n \<le> unat (writeableBytes b') \<and> length (store b') \<le> length (store b) + unat n"
  using makeSpace_grow [OF assms] makeSpace_compact [OF assms(1,2)]
  by (cases "writeableBytes b + prependableBytes b < n + kCheapPrepend") auto

lemma ensureWritableBytes_room:
  assumes "buffer_inv b" "unat n < 2 ^ 31" "length (store b) + unat n \<le> vec_max_size"
  shows "\<exists>b'. ensureWritableBytes n b = Inr b' \<and> buffer_inv b' \<and> contents b' = contents b
      \<and> unat n \<le> unat (writeableBytes b') \<and> length (store b') \<le> length (store b) + unat n"
  using assms makeSpace_room [OF assms(1,2)]
  by (auto simp: ensureWritableBytes_def word_less_nat_alt)

lemma write_at_end:
  assumes inv: "buffer_inv b" and room: "unat n \<le> unat (writeableBytes b)"
    and ds: "length ds = unat n"
  defines "s \<equiv> take (unat (writerIndex b)) (store b) @ ds @ drop (unat (writerIndex b) + length ds) (store b)"
  shows "vec_write (store b) (unat (writerIndex b)) ds = Inr s"
    and "buffer_inv (b\<lparr>store := s, writerIndex := writerIndex b + n\<rparr>)"
    and "contents (b\<lparr>store := s, writerIndex := writerIndex b + n\<rparr>) = contents b @ ds"
    and "length s = length (store b)"
proof -
  have fit: "unat (writerIndex b) + unat n \<le> length (store b)"
    using room buffer_invD(3) [OF inv] buffer_idx [OF inv] by linarith
  have w: "unat (writerIndex b + n) = unat (writerIndex b) + unat n"
    using inv fit by (intro unat_add_fits) (simp add: buffer_inv_def vec_max_size_def)
  show "vec_write (store b) (unat (writerIndex b)) ds = Inr s"
    using fit ds by (simp add: vec_write_ok s_def)
  show l: "length s = length (store b)" using fit ds by (simp add: s_def)
  show "buffer_inv (b\<lparr>store := s, writerIndex := writerIndex b + n\<rparr>)"
    using inv w fit l by (simp add: buffer_inv_def)
  show "contents (b\<lparr>store := s, writerIndex := writerIndex b + n\<rparr>) = contents b @ ds"
    using inv w fit ds slice_write_end [of "unat (readerIndex b)" "unat (writerIndex b)" ds "store b"]
    by (simp add: contents_def s_def buffer_inv_def)
qed

lemma buf_append_ok:
  assumes "buffer_inv b" "unat n < 2 ^ 31" "length (store b) + unat n \<le> vec_max_size"
    and "unat n \<le> length data"
  shows "\<exists>b'. buf_append data n b = Inr b' \<and> buffer_inv b' \<and> contents b' = contents b @ take (unat n) data
      \<and> length (store b') \<le> length (store b) + unat n"
proof -
  obtain b1 where b1: "ensureWritableBytes n b = Inr b1" "buffer_inv b1" "contents b1 = contents b"
      "unat n \<le> unat (writeableBytes b1)" "length (store b1) \<le> length (store b) + unat n"
    using ensureWritableBytes_room [OF assms(1-3)] by blast
  have "length (take (unat n) data) = unat n" using assms(4) by simp
  note w = write_at_end [OF b1(2,4) this]
  from b1 w assms(4) show ?thesis by (simp add: buf_append_def vec_read_def)
qed

lemma buf_append_str_ok:
  assumes "buffer_inv b" "length ds < 2 ^ 31" "length (store b) + length ds \<le> vec_max_size"
  shows "\<exists>b'. buf_append_str ds b = Inr b' \<and> buffer_inv b' \<and> contents b' = contents b @ ds
      \<and> length (store b') \<le> length (store b) + length ds"
proof -
  have "unat (of_nat (length ds) :: size_t) = length ds"
    using assms(2) by (intro unat_of_nat_fits) simp
  then show ?thesis
    using buf_append_ok [of b "of_nat (length ds)" ds] assms by (simp add: buf_append_str_def)
qed


section \<open>The buffer as a byte queue\<close>

interpretation bufq: byte_queue buf_append_str "\<lambda>n. retrieve (of_nat n)" contents buffer_inv
  "\<lambda>b. length (store b)" "2 ^ 31" vec_max_size
proof unfold_locales
  fix q :: buffer and ds :: "char list"
  assume "buffer_inv q" "length ds < 2 ^ 31" "length (store q) + length ds \<le> vec_max_size"
  then show "\<exists>q'. buf_append_str ds q = Inr q' \<and> buffer_inv q' \<and> contents q' = contents q @ ds
      \<and> length (store q') \<le> length (store q) + length ds"
    by (rule buf_append_str_ok)
next
  fix q :: buffer and n :: nat
  assume q: "buffer_inv q" and n: "n \<le> length (contents q)"
  have "n < 2 ^ 64"
    using n contents_length [OF q] unat_size_lt [of "readableBytes q"] by simp
  then show "contents (retrieve (of_nat n) q) = drop n (contents q)"
    by (simp add: retrieve_contents [OF q] unat_of_nat_fits)
qed (auto intro: inv_intros)

section \<open>Reading from a descriptor\<close>

text \<open>What \<open>readv(2)\<close> documents: it never returns more bytes than the segments hold.\<close>

definition readv_documented :: "(nat list \<Rightarrow> rd_result) \<Rightarrow> bool" where
  "readv_documented f \<longleftrightarrow> (\<forall>lens ds. f lens = ROk ds \<longrightarrow> length ds \<le> sum_list lens)"

lemma iov_lens_sum:
  assumes "buffer_inv b"
  shows "sum_list (iov_lens b) =
    unat (writeableBytes b) + (if unat (writeableBytes b) < kExtraSize then kExtraSize else 0)"
  by (simp add: iov_lens_def Let_def kExtraSize_def word_less_nat_alt)

lemma set_writer:
  assumes "buffer_inv b" "length s = length (store b)" "unat (writerIndex b) \<le> unat w" "unat w \<le> length s"
  shows "buffer_inv (b\<lparr>store := s, writerIndex := w\<rparr>)"
  using assms by (auto simp: buffer_inv_def)

text \<open>The two segments after \<open>readv\<close> scattered \<open>ds\<close> over them.\<close>

definition seg_store :: "buffer \<Rightarrow> char list \<Rightarrow> char list" where
  "seg_store b ds = (let W = unat (writerIndex b); hd_ds = take (unat (writeableBytes b)) ds in
     take W (store b) @ hd_ds @ drop (W + length hd_ds) (store b))"

definition seg_extra :: "buffer \<Rightarrow> char list \<Rightarrow> char list" where
  "seg_extra b ds = (let tl_ds = drop (unat (writeableBytes b)) ds in
     tl_ds @ replicate (kExtraSize - length tl_ds) (CHR 0x00))"

lemma scatter:
  assumes inv: "buffer_inv b"
    and len: "length ds \<le> sum_list (iov_lens b)"
  defines "W \<equiv> unat (writerIndex b)" and "n \<equiv> unat (writeableBytes b)"
  shows "vec_write (store b) W (take n ds) = Inr (seg_store b ds)"
    and "vec_write (replicate kExtraSize (CHR 0x00)) 0 (drop n ds) = Inr (seg_extra b ds)"
    and "slice (unat (readerIndex b)) (W + length (take n ds)) (seg_store b ds) = contents b @ take n ds"
    and "length (seg_store b ds) = length (store b)"
    and "length ds - n \<le> kExtraSize" and "length ds < 2 ^ 64"
proof -
  have room: "n = length (store b) - W" "W \<le> length (store b)" "length (store b) < 2 ^ 63"
    using buffer_invD(3) [OF inv] buffer_idx [OF inv] by (simp_all add: W_def n_def)
  have len': "length ds \<le> n + (if n < kExtraSize then kExtraSize else 0)"
    using len iov_lens_sum [OF inv] by (simp add: n_def)
  then show "length ds - n \<le> kExtraSize" by (simp split: if_splits)
  show "length ds < 2 ^ 64" using len' room by (auto simp: kExtraSize_def split: if_splits)
  show "vec_write (store b) W (take n ds) = Inr (seg_store b ds)"
    using room by (simp add: vec_write_def seg_store_def Let_def W_def n_def)
  show "vec_write (replicate kExtraSize (CHR 0x00)) 0 (drop n ds) = Inr (seg_extra b ds)"
    using len' by (auto simp: vec_write_def seg_extra_def Let_def W_def n_def split: if_splits)
  show "slice (unat (readerIndex b)) (W + length (take n ds)) (seg_store b ds) = contents b @ take n ds"
    unfolding contents_def seg_store_def Let_def W_def n_def
    by (rule slice_write_end) (use room buffer_idx [OF inv] in \<open>simp_all add: W_def n_def\<close>)
  show "length (seg_store b ds) = length (store b)"
    using room by (simp add: seg_store_def Let_def W_def n_def)
qed

text \<open>All bytes fit behind the data.\<close>

lemma readFd_fits:
  assumes inv: "buffer_inv b" and ok: "f (iov_lens b) = ROk ds"
    and len: "length ds \<le> sum_list (iov_lens b)" and short: "length ds \<le> unat (writeableBytes b)"
  shows "\<exists>b'. readFd f b = Inr (of_nat (length ds), None, b') \<and> buffer_inv b' \<and> contents b' = contents b @ ds"
proof -
  note sc = scatter [OF inv len]
  let ?b = "b\<lparr>store := seg_store b ds, writerIndex := writerIndex b + of_nat (length ds)\<rparr>"
  have n: "unat (of_nat (length ds) :: size_t) = length ds" using sc(6) by (rule unat_of_nat_fits)
  then have le: "(of_nat (length ds) :: size_t) \<le> writeableBytes b" using short by (simp add: word_le_nat_alt)
  have room: "unat (writerIndex b) + length ds \<le> length (store b)"
    using short buffer_invD(3) [OF inv] buffer_idx [OF inv] by simp
  then have w: "unat (writerIndex b + of_nat (length ds)) = unat (writerIndex b) + length ds"
    using n buffer_idx(4) [OF inv] by (subst unat_add_fits) simp_all
  have "buffer_inv ?b" by (rule set_writer) (use inv sc w room in simp_all)
  moreover have "contents ?b = contents b @ ds"
    using sc(3) w short unfolding contents_def [of ?b] by simp
  moreover have "readFd f b = Inr (of_nat (length ds), None, ?b)"
    using ok sc(1,2) le by (simp add: readFd_def Let_def)
  ultimately show ?thesis by blast
qed

text \<open>The bytes that did not fit come from the stack buffer and are appended.\<close>

lemma readFd_spills:
  assumes inv: "buffer_inv b" and ok: "f (iov_lens b) = ROk ds"
    and len: "length ds \<le> sum_list (iov_lens b)" and long: "unat (writeableBytes b) < length ds"
    and fits: "length (store b) + kExtraSize \<le> vec_max_size"
  shows "\<exists>b'. readFd f b = Inr (of_nat (length ds), None, b') \<and> buffer_inv b' \<and> contents b' = contents b @ ds"
proof -
  note sc = scatter [OF inv len]
  let ?n = "unat (writeableBytes b)" and ?m = "of_nat (length ds) - writeableBytes b"
  let ?b = "b\<lparr>store := seg_store b ds, writerIndex := vsize (b\<lparr>store := seg_store b ds\<rparr>)\<rparr>"
  have n: "unat (of_nat (length ds) :: size_t) = length ds" using sc(6) by (rule unat_of_nat_fits)
  then have gt: "\<not> (of_nat (length ds) :: size_t) \<le> writeableBytes b" using long by (simp add: word_le_nat_alt)
  have room: "unat (writerIndex b) + ?n = length (store b)" "length (store b) < 2 ^ 64"
    using buffer_invD(3) [OF inv] buffer_idx [OF inv] by simp_all
  have w: "unat (vsize (b\<lparr>store := seg_store b ds\<rparr>)) = length (store b)"
    using sc(4) room by (simp add: vsize_def unat_of_nat_fits)
  have i: "buffer_inv ?b" by (rule set_writer) (use inv sc w buffer_idx [OF inv] in simp_all)
  have c: "contents ?b = contents b @ take ?n ds"
    using sc(3) w long room unfolding contents_def [of ?b] by simp
  have m: "unat ?m = length ds - ?n" using n long by (subst unat_sub_le) simp_all
  have "unat ?m < 2 ^ 31" "unat ?m \<le> length (seg_extra b ds)"
    "length (store ?b) + unat ?m \<le> vec_max_size"
    using m sc fits by (simp_all add: kExtraSize_def seg_extra_def Let_def)
  then obtain b' where b': "buf_append (seg_extra b ds) ?m ?b = Inr b'" "buffer_inv b'"
      "contents b' = contents ?b @ take (length ds - ?n) (seg_extra b ds)"
    using buf_append_ok [OF i] m by metis
  have "contents b' = contents b @ ds" using b'(3) c by (simp add: seg_extra_def Let_def)
  moreover have "readFd f b = Inr (of_nat (length ds), None, b')"
    using ok sc(1,2) gt b'(1) by (simp add: readFd_def Let_def)
  ultimately show ?thesis using b'(2) by blast
qed

lemma readFd_ok:
  assumes "buffer_inv b" "readv_documented f" "f (iov_lens b) = ROk ds"
    and "length (store b) + kExtraSize \<le> vec_max_size"
  shows "\<exists>b'. readFd f b = Inr (of_nat (length ds), None, b') \<and> buffer_inv b' \<and> contents b' = contents b @ ds"
proof -
  have "length ds \<le> sum_list (iov_lens b)"
    using assms(2,3) by (simp add: readv_documented_def)
  then show ?thesis
    using readFd_fits [of b f ds] readFd_spills [of b f ds] assms
    by (cases "length ds \<le> unat (writeableBytes b)") auto
qed


section \<open>Where the buffer goes wrong\<close>

text \<open>More bytes claimed than the object behind the pointer has: the copy leaves it.\<close>

lemma buf_append_overread:
  assumes "length data < unat n"
  shows "buf_append data n b \<noteq> Inr b'"
  using assms by (cases "ensureWritableBytes n b") (simp_all add: buf_append_def vec_read_def)

lemma readFd_error:
  assumes inv: "buffer_inv b" and err: "f (iov_lens b) = RErr e"
  shows "readFd f b \<noteq> Inr r"
proof -
  let ?n = "- 1 - writeableBytes b"
  have n: "unat (- 1 :: size_t) = 2 ^ 64 - 1" by (rule unat_minus_one_size)
  have w: "unat (writeableBytes b) < 2 ^ 63"
    using buffer_invD(3) [OF inv] buffer_idx [OF inv] by simp
  then have "\<not> (- 1 :: size_t) \<le> writeableBytes b" using n by (simp add: word_le_nat_alt)
  moreover have "unat ?n = 2 ^ 64 - 1 - unat (writeableBytes b)"
    using w n by (subst unat_sub_le) simp_all
  then have "length (replicate kExtraSize (CHR 0x00)) < unat ?n"
    using w by (simp add: kExtraSize_def)
  then have "buf_append (replicate kExtraSize (CHR 0x00)) ?n c \<noteq> Inr c'" for c c'
    by (rule buf_append_overread)
  moreover have "vec_write (store b) (unat (writerIndex b)) [] = Inr (store b)"
    using buffer_idx(3) [OF inv] by (simp add: vec_write_def)
  moreover have "vec_write (replicate kExtraSize (CHR 0x00)) 0 [] = Inr (replicate kExtraSize (CHR 0x00))"
    by (simp add: vec_write_def)
  ultimately show ?thesis
    using err by (auto simp: readFd_def Let_def rbind_eq_Inr)
qed

text \<open>
  A length that does not fit \<open>int\<close> reaches \<open>makeSpace\<close> either as a smaller non-negative value
  or as a negative one, which \<open>size_t\<close> reads as at least \<open>2 ^ 64 - 2 ^ 31\<close>.
\<close>

lemma size_of_int_range:
  fixes k :: c_int
  shows "unat (size_of_int k) < 2 ^ 31 \<or> 2 ^ 64 - 2 ^ 31 \<le> unat (size_of_int k)"
proof -
  have "uint (size_of_int k) = sint k mod 2 ^ 64"
    unfolding size_of_int_def scast_eq uint_word_of_int by simp
  then have u: "int (unat (size_of_int k)) = sint k mod 2 ^ 64" by simp
  have r: "- (2 ^ 31) \<le> sint k" "sint k < 2 ^ 31"
    using sint_ge [of k] sint_lt [of k] by simp_all
  show ?thesis
  proof (cases "0 \<le> sint k")
    case True
    with r u have "int (unat (size_of_int k)) < int (2 ^ 31)" by simp
    then show ?thesis by (intro disjI1) (simp only: of_nat_less_iff)
  next
    case False
    with r u have "int (2 ^ 64 - 2 ^ 31) \<le> int (unat (size_of_int k))"
      using mod_pos_pos_trivial [of "sint k + 2 ^ 64" "2 ^ 64"] by simp
    then show ?thesis by (intro disjI2) (simp only: of_nat_le_iff)
  qed
qed

lemma makeSpace_size:
  assumes inv: "buffer_inv b" and small: "length (store b) < 2 ^ 31"
    and ok: "makeSpace k b = Inr b'"
  shows "length (store b') < unat (writerIndex b') + 2 ^ 31"
proof (cases "writeableBytes b + prependableBytes b < size_of_int k + kCheapPrepend")
  case True
  let ?t = "writerIndex b + size_of_int k"
  have le: "unat ?t \<le> vec_max_size"
    and b': "writerIndex b' = writerIndex b" "length (store b') \<le> max (unat ?t) 0"
    using ok True by (auto simp: makeSpace_def vec_resize_def split: if_splits)
  have "unat ?t < unat (writerIndex b) + 2 ^ 31"
    using size_of_int_range [of k] unat_size_lt [of "size_of_int k"] buffer_idx [OF inv] le small
    by (auto simp: unat_plus_if' vec_max_size_def)
  with b' show ?thesis by simp
next
  case False
  then have "length (store b') = length (store b)"
    using ok by (auto simp: makeSpace_def Let_def rbind_eq_Inr dest: vec_write_length)
  then show ?thesis using small by simp
qed

lemma buf_append_too_long:
  assumes inv: "buffer_inv b" and small: "length (store b) < 2 ^ 31"
    and n: "2 ^ 31 \<le> unat n" and d: "unat n \<le> length data"
  shows "buf_append data n b \<noteq> Inr b'"
proof
  assume "buf_append data n b = Inr b'"
  then obtain b1 ds s where b1: "ensureWritableBytes n b = Inr b1"
      and ds: "vec_read data 0 (unat n) = Inr ds"
      and s: "vec_write (store b1) (unat (writerIndex b1)) ds = Inr s"
    by (auto simp: buf_append_def rbind_eq_Inr)
  have "length ds = unat n" using ds d by (auto simp: vec_read_def split: if_splits)
  then have "unat (writerIndex b1) + 2 ^ 31 \<le> length (store b1)"
    using vec_write_bound [OF s] n by simp
  moreover have "length (store b1) < unat (writerIndex b1) + 2 ^ 31"
    using b1 makeSpace_size [OF inv small] small
    by (auto simp: ensureWritableBytes_def split: if_splits)
  ultimately show False by simp
qed


section \<open>Properties\<close>

text \<open>
  C9: a session on a fresh \<open>Buffer\<close>.  Whatever chunks are appended (each below \<open>2 ^ 31\<close> bytes,
  together within the maximal vector size) and however the reader retrieves, no append fails,
  and the bytes retrieved followed by the bytes still readable are exactly the bytes appended,
  in order.  This covers growing the storage and moving the data back to the front.
\<close>

theorem buffer_session_fifo:
  assumes "chunks_below (2 ^ 31) ops" and "unat n + 8 + length (put_bytes ops) \<le> vec_max_size"
  shows "\<exists>b out b'. buffer_new n = Inr b
    \<and> run_queue buf_append_str (\<lambda>k. retrieve (of_nat k)) contents ops b = Inr (out, b')
    \<and> buffer_inv b' \<and> out @ contents b' = put_bytes ops"
proof -
  obtain b where b: "buffer_new n = Inr b" "buffer_inv b" "contents b = []" "length (store b) = unat n + 8"
    using buffer_new_ok [of n] assms(2) by auto
  with bufq.session_fifo [of b ops] assms show ?thesis by auto
qed

lemma buffer_session_fifo_witness:
  "\<exists>b out b'. buffer_new 4 = Inr b
    \<and> run_queue buf_append_str (\<lambda>k. retrieve (of_nat k)) contents
        [Put ''GET '', Get 3, Put ''/index'', Get 100] b = Inr (out, b')
    \<and> buffer_inv b' \<and> out @ contents b' = ''GET /index''"
  using buffer_session_fifo [of "[Put ''GET '', Get 3, Put ''/index'', Get 100]" 4]
  by (simp add: vec_max_size_def)

text \<open>
  C30: \<open>Buffer::readFd\<close> on a successful \<open>readv\<close>.  Whether the bytes fit behind the data or spill
  into the 64 KiB stack buffer, it returns the number of bytes, reports no error and has appended
  exactly the bytes read; the buffer stays well formed.
\<close>

theorem buffer_readFd_appends:
  assumes "buffer_inv b" and "readv_documented f" and "f (iov_lens b) = ROk ds"
    and "length (store b) + kExtraSize \<le> vec_max_size"
  shows "\<exists>b'. readFd f b = Inr (of_nat (length ds), None, b') \<and> buffer_inv b' \<and> contents b' = contents b @ ds"
  using assms by (rule readFd_ok)

definition sample_buffer :: buffer where
  "sample_buffer = \<lparr>store = replicate 8 (CHR 0x00) @ ''ab'' @ ''?'', readerIndex = 8, writerIndex = 10\<rparr>"

lemma sample_buffer_inv: "buffer_inv sample_buffer"
  by (simp add: buffer_inv_def sample_buffer_def vec_max_size_def)

lemma buffer_readFd_appends_witness:
  "\<exists>b'. readFd (\<lambda>lens. ROk (take (sum_list lens) ''xyz'')) sample_buffer = Inr (3, None, b')
     \<and> buffer_inv b' \<and> contents b' = ''abxyz''"
proof -
  have i: "iov_lens sample_buffer = [1, 65536]"
    by (simp add: iov_lens_def sample_buffer_def writeableBytes_def vsize_def kExtraSize_def)
  have "readv_documented (\<lambda>lens. ROk (take (sum_list lens) ''xyz''))"
    by (simp add: readv_documented_def)
  from buffer_readFd_appends [OF sample_buffer_inv this refl] i show ?thesis
    by (simp add: sample_buffer_def contents_def slice_def kExtraSize_def vec_max_size_def)
qed

text \<open>
  C31: \<open>Buffer::readFd\<close> never reports a failed \<open>readv\<close>.  The result is kept unsigned, so
  \<open>n < 0\<close> cannot hold; the error value \<open>-1\<close> goes to the branch that appends \<open>n - writable\<close> bytes of the
  64 KiB stack buffer, which no well-formed buffer survives: there is no normal return at all.
\<close>

theorem buffer_readFd_error_unreported:
  assumes "buffer_inv b" and "f (iov_lens b) = RErr e"
  shows "readFd f b \<noteq> Inr r"
  using assms by (rule readFd_error)

lemma buffer_readFd_error_unreported_witness:
  "readFd (\<lambda>_. RErr 104) sample_buffer \<noteq> Inr (- 1, Some 104, sample_buffer)"
  by (rule buffer_readFd_error_unreported [OF sample_buffer_inv, of _ 104]) simp

text \<open>
  C32: \<open>append\<close> hands its \<open>size_t\<close> length to \<open>makeSpace(int)\<close>.  For a length that does not fit \<open>int\<close>
  the space made is never enough: on every well-formed buffer of less than 2 GiB an append of
  2 GiB or more writes out of bounds or throws, it never returns normally.
\<close>

theorem buffer_append_int_truncation:
  assumes "buffer_inv b" and "length (store b) < 2 ^ 31"
    and "2 ^ 31 \<le> unat n" and "unat n \<le> length data"
  shows "buf_append data n b \<noteq> Inr b'"
  using assms by (rule buf_append_too_long)

lemma buffer_append_int_truncation_witness:
  "buf_append (replicate (2 ^ 32) (CHR ''x'')) 4294967296 sample_buffer \<noteq> Inr sample_buffer"
  by (rule buffer_append_int_truncation [OF sample_buffer_inv])
    (simp_all add: sample_buffer_def)

text \<open>
  \<open>makeSpace\<close> does not grow the storage needlessly.  When the free bytes before and after the
  data suffice, it keeps the storage size, keeps the data and leaves the requested room.
\<close>

theorem buffer_makeSpace_reuses:
  assumes "buffer_inv b" and "unat n < 2 ^ 31"
    and "\<not> writeableBytes b + prependableBytes b < n + kCheapPrepend"
  shows "\<exists>b'. makeSpace (int_of_size n) b = Inr b' \<and> buffer_inv b' \<and> contents b' = contents b
    \<and> unat n \<le> unat (writeableBytes b') \<and> length (store b') = length (store b)"
  using assms by (rule makeSpace_compact)

definition drained_buffer :: buffer where
  "drained_buffer = \<lparr>store = replicate 12 (CHR 0x00) @ ''z'', readerIndex = 12, writerIndex = 13\<rparr>"

lemma buffer_makeSpace_reuses_witness:
  "\<exists>b'. makeSpace (int_of_size 4) drained_buffer = Inr b' \<and> buffer_inv b' \<and> contents b' = ''z''
    \<and> 4 \<le> unat (writeableBytes b') \<and> length (store b') = 13"
proof -
  have "buffer_inv drained_buffer"
    by (simp add: buffer_inv_def drained_buffer_def vec_max_size_def)
  from buffer_makeSpace_reuses [OF this, of 4] show ?thesis
    by (simp add: drained_buffer_def writeableBytes_def prependableBytes_def vsize_def kCheapPrepend_def
        contents_def slice_def)
qed

end
