(* ===== verification/TcpConnection.thy ===== *)
theory TcpConnection
  imports EventLoop Net_Buffer
begin

text \<open>
  \<open>include/net/TcpConnection.h\<close> and \<open>src/net/TcpConnection.cpp\<close>.  The state of an I/O thread extends
  its loop with the connection objects, known by address, and with the calls made to user code.
  The results of \<open>read\<close>, \<open>write\<close> and \<open>getsockopt\<close> are arguments of the handlers that make them.
\<close>

section \<open>State\<close>

datatype StateE = kDisconnected | kConnecting | kConnected | kDisconnecting

fun state_value :: "StateE \<Rightarrow> int" where
  "state_value kDisconnected = 0" | "state_value kConnecting = 1"
| "state_value kConnected = 2" | "state_value kDisconnecting = 3"

text \<open>
  The functors the library queues in a loop, one constructor per \<open>std::bind\<close>.  \<open>SendInLoopRaw\<close>
  carries a pointer to the caller's string and its length, \<open>SendInLoopStr\<close> a copy of the bytes.
\<close>

datatype task =
    ConnectionEstablished obj | ConnectDestroyed obj | ShutdownInLoop obj
  | SendInLoopRaw obj nat nat | SendInLoopStr obj "char list"
  | WriteCompleteTask obj | HighWaterMarkTask obj size_t
  | RemoveConnectionInLoop obj | AcceptorListen | UserTask nat

datatype user_call = ConnectionCall obj StateE | MessageCall obj | WriteCompleteCall obj
  | HighWaterMarkCall obj size_t

text \<open>
  A connection.  Of the callbacks the user sets, the object knows whether they are set.  \<open>wire\<close> are
  the bytes \<open>write\<close> has accepted on its socket and \<open>wr_shut\<close> tells whether the write side was
  shut down: what the peer gets.
\<close>

record conn =
  c_name :: string
  c_state :: StateE
  c_chan :: ptr
  connectionCallback :: bool
  messageCallback :: bool
  writeCompleteCallback :: bool
  conn_closeCallback :: bool
  highWaterMarkCallback :: bool
  highWaterMark :: size_t
  inputBuffer :: buffer
  outputBuffer :: buffer
  wire :: "char list"
  wr_shut :: bool
  keepAlive :: bool

record 'k io = "('k, task) eventloop" +
  conns :: "obj \<Rightarrow> conn"
  calls :: "user_call list"

definition set_conn :: "obj \<Rightarrow> (conn \<Rightarrow> conn) \<Rightarrow> ('k, 'z) io_scheme \<Rightarrow> ('k, 'z) io_scheme" where
  "set_conn o1 f W = W\<lparr>conns := (conns W)(o1 := f (conns W o1))\<rparr>"

definition setState :: "StateE \<Rightarrow> obj \<Rightarrow> ('k, 'z) io_scheme \<Rightarrow> ('k, 'z) io_scheme" where
  "setState st o1 W = set_conn o1 (\<lambda>c. c\<lparr>c_state := st\<rparr>) W"

definition conn_channel :: "obj \<Rightarrow> ('k, 'z) io_scheme \<Rightarrow> channel" where
  "conn_channel o1 W = chans W (c_chan (conns W o1))"

definition connected :: "conn \<Rightarrow> bool" where
  "connected c \<longleftrightarrow> c_state c = kConnected"

text \<open>The setters of the user's callbacks; the argument tells whether the function given is set.\<close>

definition setConnectionCallback :: "bool \<Rightarrow> conn \<Rightarrow> conn" where
  [simp]: "setConnectionCallback cb c = c\<lparr>connectionCallback := cb\<rparr>"

definition setMessageCallback :: "bool \<Rightarrow> conn \<Rightarrow> conn" where
  [simp]: "setMessageCallback cb c = c\<lparr>messageCallback := cb\<rparr>"

definition setWriteCompleteCallback :: "bool \<Rightarrow> conn \<Rightarrow> conn" where
  [simp]: "setWriteCompleteCallback cb c = c\<lparr>writeCompleteCallback := cb\<rparr>"

definition conn_setCloseCallback :: "bool \<Rightarrow> conn \<Rightarrow> conn" where
  [simp]: "conn_setCloseCallback cb c = c\<lparr>conn_closeCallback := cb\<rparr>"

definition setHighWaterMarkCallback :: "bool \<Rightarrow> conn \<Rightarrow> conn" where
  [simp]: "setHighWaterMarkCallback cb c = c\<lparr>highWaterMarkCallback := cb\<rparr>"

text \<open>Calling an empty \<open>std::function\<close> throws \<open>std::bad_function_call\<close>.\<close>

definition call_user :: "bool \<Rightarrow> user_call \<Rightarrow> ('k, 'z) io_scheme \<Rightarrow> ('k, 'z) io_scheme res" where
  "call_user isset u W = (if isset then Inr (W\<lparr>calls := calls W @ [u]\<rparr>) else Inl BadFunctionCall)"

definition call_connection :: "obj \<Rightarrow> ('k, 'z) io_scheme \<Rightarrow> ('k, 'z) io_scheme res" where
  "call_connection o1 W =
     call_user (connectionCallback (conns W o1)) (ConnectionCall o1 (c_state (conns W o1))) W"

definition queue_own :: "task \<Rightarrow> ('k, 'z) io_scheme \<Rightarrow> ('k, 'z) io_scheme" where
  "queue_own t W = queueInLoop (threadId W) t W"

section \<open>Construction\<close>

definition conn_new :: "string \<Rightarrow> ptr \<Rightarrow> conn res" where
  "conn_new nameArg p =
     rbind (buffer_new kInitialSize) (\<lambda>ib. rbind (buffer_new kInitialSize) (\<lambda>ob.
       Inr \<lparr>c_name = nameArg, c_state = kConnecting, c_chan = p, connectionCallback = False,
         messageCallback = False, writeCompleteCallback = False, conn_closeCallback = False,
         highWaterMarkCallback = False, highWaterMark = 64 * 1024 * 1024, inputBuffer = ib,
         outputBuffer = ob, wire = [], wr_shut = False, keepAlive = True\<rparr>))"

text \<open>The channel of a connection with its four callbacks bound to the object.\<close>

definition conn_channel_new :: "obj \<Rightarrow> int \<Rightarrow> channel" where
  "conn_channel_new o1 sockfd =
     setErrorCallback (ConnHandleError o1) (setCloseCallback (ConnHandleClose o1)
       (setWriteCallback (ConnHandleWrite o1) (setReadCallback (ConnHandleRead o1) (channel_new sockfd))))"

text \<open>The loop pointer is stored unchecked: \<open>CheckLoopNotNull\<close> is defined but not called.\<close>

definition CheckLoopNotNull :: "nat option \<Rightarrow> nat res" where
  "CheckLoopNotNull l0 = (case l0 of None \<Rightarrow> Inl FatalAbort | Some l \<Rightarrow> Inr l)"

definition TcpConnection_new :: "string \<Rightarrow> int \<Rightarrow> obj \<Rightarrow> ptr \<Rightarrow> ('k, 'z) io_scheme \<Rightarrow> ('k, 'z) io_scheme res" where
  "TcpConnection_new nameArg sockfd o1 p W =
     rbind (conn_new nameArg p) (\<lambda>c.
       Inr (set_chan p (\<lambda>_. conn_channel_new o1 sockfd) (set_conn o1 (\<lambda>_. c) W)))"

section \<open>Sending\<close>

definition EWOULDBLOCK :: int where "EWOULDBLOCK = 11"
definition EPIPE :: int where "EPIPE = 32"
definition ECONNRESET :: int where "ECONNRESET = 104"

text \<open>
  \<open>sendInLoop\<close>, first part: with nothing queued the bytes go to \<open>write\<close> directly.  The result is
  \<open>nwrote\<close>, \<open>remaining\<close> and \<open>faultError\<close>.
\<close>

definition send_direct :: "(char list \<Rightarrow> wr_result) \<Rightarrow> char list \<Rightarrow> obj \<Rightarrow> ('k, 'z) io_scheme
    \<Rightarrow> nat \<times> size_t \<times> bool \<times> ('k, 'z) io_scheme" where
  "send_direct sys_write data o1 W =
     (let len = of_nat (length data) :: size_t in
      if \<not> isWriting (conn_channel o1 W) \<and> readableBytes (outputBuffer (conns W o1)) = 0 then
        (case sys_write data of
           WOk nwrote \<Rightarrow>
             let remaining = len - of_nat nwrote;
                 W1 = set_conn o1 (\<lambda>c. c\<lparr>wire := wire c @ take nwrote data\<rparr>) W
             in (nwrote, remaining, False,
                 if remaining = 0 \<and> writeCompleteCallback (conns W o1)
                 then queue_own (WriteCompleteTask o1) W1 else W1)
         | WErr err \<Rightarrow> (0, len, err \<noteq> EWOULDBLOCK \<and> (err = EPIPE \<or> err = ECONNRESET), W))
      else (0, len, False, W))"

text \<open>Second part: what is left goes to the output buffer, and the channel starts writing.\<close>

definition send_queue :: "'k epoll_ctl \<Rightarrow> char list \<Rightarrow> nat \<Rightarrow> size_t \<Rightarrow> bool \<Rightarrow> obj
    \<Rightarrow> ('k, 'z) io_scheme \<Rightarrow> ('k, 'z) io_scheme res" where
  "send_queue ctl data nwrote remaining faultError o1 W =
     (if \<not> faultError \<and> 0 < remaining then
        let c = conns W o1; oldlen = readableBytes (outputBuffer c);
            W1 = (if highWaterMark c \<le> oldlen + remaining \<and> oldlen < highWaterMark c \<and> highWaterMarkCallback c
                  then queue_own (HighWaterMarkTask o1 (oldlen + remaining)) W else W)
        in rbind (buf_append (drop nwrote data) remaining (outputBuffer c)) (\<lambda>b.
             let W2 = set_conn o1 (\<lambda>c. c\<lparr>outputBuffer := b\<rparr>) W1 in
             if \<not> isWriting (conn_channel o1 W2) then enableWriting ctl (c_chan c) W2 else Inr W2)
      else Inr W)"

definition sendInLoop :: "'k epoll_ctl \<Rightarrow> (char list \<Rightarrow> wr_result) \<Rightarrow> char list \<Rightarrow> obj
    \<Rightarrow> ('k, 'z) io_scheme \<Rightarrow> ('k, 'z) io_scheme res" where
  "sendInLoop ctl sys_write data o1 W =
     (if c_state (conns W o1) = kDisconnected then Inr W
      else let (nwrote, remaining, faultError, W1) = send_direct sys_write data o1 W in
        send_queue ctl data nwrote remaining faultError o1 W1)"

text \<open>
  \<open>send(const std::string &)\<close>: \<open>addr\<close> is where the string's bytes \<open>buf\<close> are stored.  From another
  thread only the pointer and the length are bound.  \<open>run\<close> runs a queued functor.
\<close>

definition send_string :: "'k epoll_ctl \<Rightarrow> (char list \<Rightarrow> wr_result)
    \<Rightarrow> (task \<Rightarrow> ('k, 'z) io_scheme \<Rightarrow> ('k, 'z) io_scheme res) \<Rightarrow> int \<Rightarrow> nat \<Rightarrow> char list \<Rightarrow> obj
    \<Rightarrow> ('k, 'z) io_scheme \<Rightarrow> ('k, 'z) io_scheme res" where
  "send_string ctl sys_write run tid addr buf o1 W =
     (if c_state (conns W o1) = kConnected then
        if isInLoopThread tid W then sendInLoop ctl sys_write buf o1 W
        else runInLoop tid run (SendInLoopRaw o1 addr (length buf)) W
      else Inr W)"

definition send_buffer :: "'k epoll_ctl \<Rightarrow> (char list \<Rightarrow> wr_result)
    \<Rightarrow> (task \<Rightarrow> ('k, 'z) io_scheme \<Rightarrow> ('k, 'z) io_scheme res) \<Rightarrow> int \<Rightarrow> buffer \<Rightarrow> obj
    \<Rightarrow> ('k, 'z) io_scheme \<Rightarrow> (buffer \<times> ('k, 'z) io_scheme) res" where
  "send_buffer ctl sys_write run tid buf o1 W =
     (if c_state (conns W o1) = kConnected then
        if isInLoopThread tid W then
          rbind (GetBufferAllAsString buf) (\<lambda>ds. rbind (sendInLoop ctl sys_write ds o1 W) (\<lambda>W1.
            Inr (retrieveAll buf, W1)))
        else rbind (retrieveAllAsString buf) (\<lambda>(ds, buf1).
          rbind (runInLoop tid run (SendInLoopStr o1 ds) W) (\<lambda>W1. Inr (buf1, W1)))
      else Inr (buf, W))"

section \<open>Shutting down\<close>

definition shutdownInLoop :: "obj \<Rightarrow> ('k, 'z) io_scheme \<Rightarrow> ('k, 'z) io_scheme" where
  "shutdownInLoop o1 W =
     (if \<not> isWriting (conn_channel o1 W) then set_conn o1 (\<lambda>c. c\<lparr>wr_shut := True\<rparr>) W else W)"

definition conn_shutdown :: "(task \<Rightarrow> ('k, 'z) io_scheme \<Rightarrow> ('k, 'z) io_scheme res) \<Rightarrow> int \<Rightarrow> obj
    \<Rightarrow> ('k, 'z) io_scheme \<Rightarrow> ('k, 'z) io_scheme res" where
  "conn_shutdown run tid o1 W =
     (if c_state (conns W o1) = kConnected
      then runInLoop tid run (ShutdownInLoop o1) (setState kDisconnecting o1 W)
      else Inr W)"

section \<open>Being set up and taken down\<close>

definition connectionEstablished :: "'k epoll_ctl \<Rightarrow> obj \<Rightarrow> ('k, 'z) io_scheme \<Rightarrow> ('k, 'z) io_scheme res" where
  "connectionEstablished ctl o1 W =
     (let p = c_chan (conns W o1); W1 = set_chan p (channel_tie o1) (setState kConnected o1 W) in
      rbind (enableReading ctl p W1) (call_connection o1))"

definition connectDestroyed :: "'k epoll_ctl \<Rightarrow> obj \<Rightarrow> ('k, 'z) io_scheme \<Rightarrow> ('k, 'z) io_scheme res" where
  "connectDestroyed ctl o1 W =
     (let p = c_chan (conns W o1) in
      rbind (if c_state (conns W o1) = kConnected
             then rbind (disableAll ctl p (setState kDisconnected o1 W)) (call_connection o1)
             else Inr W)
        (channel_remove ctl p))"

section \<open>Handlers bound to the channel\<close>

text \<open>\<open>closecb\<close> is what the close callback does; the server binds \<open>removeConnection\<close> to it.\<close>

definition handleClose :: "'k epoll_ctl \<Rightarrow> (obj \<Rightarrow> ('k, 'z) io_scheme \<Rightarrow> ('k, 'z) io_scheme res) \<Rightarrow> obj
    \<Rightarrow> ('k, 'z) io_scheme \<Rightarrow> ('k, 'z) io_scheme res" where
  "handleClose ctl closecb o1 W =
     rbind (disableAll ctl (c_chan (conns W o1)) (setState kDisconnected o1 W)) (\<lambda>W1.
     rbind (call_connection o1 W1) (\<lambda>W2.
       if conn_closeCallback (conns W2 o1) then closecb o1 W2 else Inl BadFunctionCall))"

text \<open>\<open>handleError\<close> only logs; its value is the error number logged.  \<open>Inl\<close> is a failing \<open>getsockopt\<close>.\<close>

definition handleError :: "int + int \<Rightarrow> int" where
  "handleError getsockopt = (case getsockopt of Inl errno \<Rightarrow> errno | Inr optval \<Rightarrow> optval)"

definition conn_handleRead :: "'k epoll_ctl \<Rightarrow> (nat list \<Rightarrow> rd_result)
    \<Rightarrow> (obj \<Rightarrow> ('k, 'z) io_scheme \<Rightarrow> ('k, 'z) io_scheme res) \<Rightarrow> obj
    \<Rightarrow> ('k, 'z) io_scheme \<Rightarrow> ('k, 'z) io_scheme res" where
  "conn_handleRead ctl sys_readv closecb o1 W =
     rbind (readFd sys_readv (inputBuffer (conns W o1))) (\<lambda>(n, savedErrno, b).
       let W1 = set_conn o1 (\<lambda>c. c\<lparr>inputBuffer := b\<rparr>) W in
       if 0 < sint n then call_user (messageCallback (conns W1 o1)) (MessageCall o1) W1
       else if sint n = 0 then handleClose ctl closecb o1 W1
       else Inr W1)"

text \<open>
  The condition \<open>!state_ == kDisconnecting\<close> of the source: negation binds tighter than the
  comparison, so the truth value of \<open>state_ == 0\<close> is compared with the enumerator.
\<close>

definition not_state_eq_disconnecting :: "StateE \<Rightarrow> bool" where
  "not_state_eq_disconnecting st \<longleftrightarrow>
     (if state_value st = 0 then 1 else 0 :: int) = state_value kDisconnecting"

definition handleWrite :: "'k epoll_ctl \<Rightarrow> (char list \<Rightarrow> wr_result) \<Rightarrow> obj
    \<Rightarrow> ('k, 'z) io_scheme \<Rightarrow> ('k, 'z) io_scheme res" where
  "handleWrite ctl sys_write o1 W =
     (if isWriting (conn_channel o1 W) then
        let ob = outputBuffer (conns W o1) in
        rbind (GetBufferAllAsString ob) (\<lambda>data. rbind (writeFd sys_write ob) (\<lambda>r.
          case r of
            WOk n \<Rightarrow>
              if 0 < n then
                let W1 = set_conn o1 (\<lambda>c. c\<lparr>outputBuffer := retrieve (of_nat n) ob,
                                            wire := wire c @ take n data\<rparr>) W in
                if readableBytes (outputBuffer (conns W1 o1)) = 0 then
                  rbind (disableWriting ctl (c_chan (conns W o1)) W1) (\<lambda>W2.
                    let W3 = (if writeCompleteCallback (conns W2 o1)
                              then queue_own (WriteCompleteTask o1) W2 else W2) in
                    Inr (if not_state_eq_disconnecting (c_state (conns W3 o1))
                         then shutdownInLoop o1 W3 else W3))
                else Inr W1
              else Inr W
          | WErr err \<Rightarrow> Inr W))
      else Inr W)"

section \<open>Running the queued functors\<close>

text \<open>
  What each functor bound by a connection does when the loop runs it.  \<open>mem\<close> is the memory at that
  time, \<open>None\<close> where it has been released; \<open>other\<close> runs the functors of the server and the user.
\<close>

definition read_mem :: "(nat \<Rightarrow> char option) \<Rightarrow> nat \<Rightarrow> nat \<Rightarrow> char list option" where
  "read_mem mem a n = those (map mem [a..<a + n])"

fun conn_task :: "'k epoll_ctl \<Rightarrow> (char list \<Rightarrow> wr_result) \<Rightarrow> (nat \<Rightarrow> char option)
    \<Rightarrow> (task \<Rightarrow> ('k, 'z) io_scheme \<Rightarrow> ('k, 'z) io_scheme res) \<Rightarrow> task
    \<Rightarrow> ('k, 'z) io_scheme \<Rightarrow> ('k, 'z) io_scheme res" where
  "conn_task ctl w mem other (ConnectionEstablished o1) W = connectionEstablished ctl o1 W"
| "conn_task ctl w mem other (ConnectDestroyed o1) W = connectDestroyed ctl o1 W"
| "conn_task ctl w mem other (ShutdownInLoop o1) W = Inr (shutdownInLoop o1 W)"
| "conn_task ctl w mem other (SendInLoopRaw o1 a n) W =
     (case read_mem mem a n of None \<Rightarrow> Inl UndefinedBehaviour | Some ds \<Rightarrow> sendInLoop ctl w ds o1 W)"
| "conn_task ctl w mem other (SendInLoopStr o1 ds) W = sendInLoop ctl w ds o1 W"
| "conn_task ctl w mem other (WriteCompleteTask o1) W = call_user True (WriteCompleteCall o1) W"
| "conn_task ctl w mem other (HighWaterMarkTask o1 n) W = call_user True (HighWaterMarkCall o1 n) W"
| "conn_task ctl w mem other t W = other t W"

section \<open>What the steps leave alone\<close>

lemma set_conn_simps [simp]:
  "chans (set_conn o1 f W) = chans W" "channels (set_conn o1 f W) = channels W"
  "epollfd (set_conn o1 f W) = epollfd W" "calls (set_conn o1 f W) = calls W"
  "pendingFunctors (set_conn o1 f W) = pendingFunctors W" "threadId (set_conn o1 f W) = threadId W"
  "conns (set_conn o1 f W) q = (if q = o1 then f (conns W o1) else conns W q)"
  by (simp_all add: set_conn_def)

lemma queue_own_simps [simp]:
  "chans (queue_own t W) = chans W" "channels (queue_own t W) = channels W"
  "epollfd (queue_own t W) = epollfd W" "conns (queue_own t W) = conns W"
  "calls (queue_own t W) = calls W" "threadId (queue_own t W) = threadId W"
  "pendingFunctors (queue_own t W) = pendingFunctors W @ [t]"
  by (simp_all add: queue_own_def queue_defs)

lemma queueInLoop_io [simp]:
  fixes W :: "('k, 'z) io_scheme"
  shows "conns (queueInLoop tid t W) = conns W" "calls (queueInLoop tid t W) = calls W"
    "threadId (queueInLoop tid t W) = threadId W"
    "pendingFunctors (queueInLoop tid t W) = pendingFunctors W @ [t]"
  by (simp_all add: queue_defs)

lemma conn_channel_set_conn [simp]:
  "(\<And>c. c_chan (f c) = c_chan c) \<Longrightarrow> conn_channel o1 (set_conn o1 f W) = conn_channel o1 W"
  by (simp add: conn_channel_def)

lemma conn_channel_queue_own [simp]: "conn_channel o1 (queue_own t W) = conn_channel o1 W"
  by (simp add: conn_channel_def)

lemma poller_inv_cong:
  assumes "chans W' = chans W" "channels W' = channels W" "epollfd W' = epollfd W"
  shows "poller_inv view P W' \<longleftrightarrow> poller_inv view P W"
proof -
  have "interest W' = interest W" by (rule ext) (simp only: interest_def assms)
  then show ?thesis by (simp add: poller_inv_def assms)
qed

lemma poller_inv_set_conn [simp]: "poller_inv view P (set_conn o1 f W) \<longleftrightarrow> poller_inv view P W"
  by (rule poller_inv_cong) simp_all

lemma poller_inv_queue_own [simp]: "poller_inv view P (queue_own t W) \<longleftrightarrow> poller_inv view P W"
  by (rule poller_inv_cong) simp_all

text \<open>A registration step keeps everything a loop and its connections add to the poller.\<close>

lemma stepped_io:
  fixes W W' :: "('k, 'z) io_scheme"
  assumes "stepped view P p e i W W'"
  shows "conns W' = conns W" "calls W' = calls W" "pendingFunctors W' = pendingFunctors W"
    "threadId W' = threadId W"
proof -
  have "poller.more W' = poller.more W" using assms by (simp add: stepped_def)
  then show "conns W' = conns W" "calls W' = calls W" "pendingFunctors W' = pendingFunctors W"
    "threadId W' = threadId W" by (cases W; cases W'; simp)+
qed

section \<open>The invariant of an established connection\<close>

text \<open>
  The channel is watched for input; it is watched for output exactly while bytes wait in the
  output buffer.  \<open>sent\<close> is what the peer got followed by what is still to be written.
\<close>

definition conn_inv :: "('k \<Rightarrow> int \<rightharpoonup> epoll_event) \<Rightarrow> ptr set \<Rightarrow> obj \<Rightarrow> ('k, 'z) io_scheme \<Rightarrow> bool" where
  "conn_inv view P o1 W \<longleftrightarrow> poller_inv view P W \<and> c_chan (conns W o1) \<in> P
     \<and> ch_index (conn_channel o1 W) = kAdded \<and> bit (ch_events (conn_channel o1 W)) 0
     \<and> buffer_inv (inputBuffer (conns W o1)) \<and> buffer_inv (outputBuffer (conns W o1))
     \<and> (isWriting (conn_channel o1 W) \<longleftrightarrow> contents (outputBuffer (conns W o1)) \<noteq> [])"

definition sent :: "obj \<Rightarrow> ('k, 'z) io_scheme \<Rightarrow> char list" where
  "sent o1 W = wire (conns W o1) @ contents (outputBuffer (conns W o1))"

text \<open>What \<open>write(2)\<close> documents, and a peer that has not gone away.\<close>

definition write_documented :: "(char list \<Rightarrow> wr_result) \<Rightarrow> bool" where
  "write_documented w \<longleftrightarrow> (\<forall>ds n. w ds = WOk n \<longrightarrow> n \<le> length ds)"

definition peer_alive :: "(char list \<Rightarrow> wr_result) \<Rightarrow> bool" where
  "peer_alive w \<longleftrightarrow> (\<forall>ds. w ds \<noteq> WErr EPIPE \<and> w ds \<noteq> WErr ECONNRESET)"

lemma conn_inv_queue_own [simp]: "conn_inv view P o1 (queue_own t W) \<longleftrightarrow> conn_inv view P o1 W"
  by (simp add: conn_inv_def)

text \<open>Changing the wanted events of a registered connection; reading stays wanted.\<close>

lemma conn_change:
  assumes "epoll_documented ctl view" "poller_inv view P W" "p \<in> P"
    and "ch_index (chans W p) = kAdded" "bit (f (ch_events (chans W p))) 0"
  shows "\<exists>W'. change_events ctl f p W = Inr W' \<and> poller_inv view P W'
    \<and> chans W' p = (chans W p)\<lparr>ch_events := f (ch_events (chans W p)), ch_index := kAdded\<rparr>
    \<and> (\<forall>q. q \<noteq> p \<longrightarrow> chans W' q = chans W q)
    \<and> conns W' = conns W \<and> calls W' = calls W \<and> pendingFunctors W' = pendingFunctors W \<and> threadId W' = threadId W"
proof -
  have "f (ch_events (chans W p)) \<noteq> 0" using assms(5) by auto
  then obtain W' where "change_events ctl f p W = Inr W'"
      "stepped view P p (f (ch_events (chans W p))) kAdded W W'"
    using reregister_steps [OF assms(1-4), of f] by auto
  then show ?thesis using stepped_io [of view P p _ kAdded W W'] by (auto simp: stepped_def)
qed

section \<open>Sending keeps the bytes in order\<close>

lemma send_direct_ok:
  assumes inv: "conn_inv view P o1 W" and w: "write_documented w" "peer_alive w"
    and len: "length data < 2 ^ 31"
  shows "\<exists>nwrote remaining W1. send_direct w data o1 W = (nwrote, remaining, False, W1)
    \<and> conn_inv view P o1 W1 \<and> nwrote \<le> length data \<and> unat remaining = length data - nwrote
    \<and> sent o1 W1 @ drop nwrote data = sent o1 W @ data
    \<and> outputBuffer (conns W1 o1) = outputBuffer (conns W o1) \<and> c_state (conns W1 o1) = c_state (conns W o1)
    \<and> wr_shut (conns W1 o1) = wr_shut (conns W o1)"
proof -
  let ?len = "of_nat (length data) :: size_t"
  have l: "unat ?len = length data" using len by (intro unat_of_nat_fits) simp
  show ?thesis
  proof (cases "\<not> isWriting (conn_channel o1 W) \<and> readableBytes (outputBuffer (conns W o1)) = 0")
    case False
    then show ?thesis using inv l by (auto simp: send_direct_def Let_def)
  next
    case direct: True
    show ?thesis
    proof (cases "w data")
      case (WErr e)
      then have "e \<noteq> EPIPE" "e \<noteq> ECONNRESET" using w(2) by (auto simp: peer_alive_def)
      then show ?thesis using direct WErr inv l by (simp add: send_direct_def Let_def)
    next
      case (WOk n)
      then have n: "n \<le> length data" using w(1) by (simp add: write_documented_def)
      then have un: "unat (of_nat n :: size_t) = n" using len by (intro unat_of_nat_fits) simp
      have r: "unat (?len - of_nat n) = length data - n" using n un l by (subst unat_sub_le) simp_all
      have "contents (outputBuffer (conns W o1)) = []"
        using direct inv by (simp add: conn_inv_def)
      then show ?thesis using direct WOk inv n r
        by (auto simp: send_direct_def Let_def conn_inv_def sent_def)
    qed
  qed
qed

lemma enable_after_append:
  assumes "epoll_documented ctl view" and inv: "conn_inv view P o1 W"
    and b: "buffer_inv b" "contents b \<noteq> []"
  defines "W2 \<equiv> set_conn o1 (\<lambda>c. c\<lparr>outputBuffer := b\<rparr>) W"
  shows "\<exists>W'. (if \<not> isWriting (conn_channel o1 W2) then enableWriting ctl (c_chan (conns W o1)) W2 else Inr W2) = Inr W'
    \<and> conn_inv view P o1 W' \<and> conns W' = conns W2"
proof (cases "isWriting (conn_channel o1 W2)")
  case True
  then show ?thesis using inv b by (auto simp: conn_inv_def W2_def)
next
  case False
  let ?p = "c_chan (conns W o1)"
  have "poller_inv view P W2" "?p \<in> P" "ch_index (chans W2 ?p) = kAdded" "bit (ch_events (chans W2 ?p)) 0"
    using inv by (simp_all add: conn_inv_def W2_def conn_channel_def)
  then obtain W' where W': "change_events ctl ev_enableWriting ?p W2 = Inr W'" "poller_inv view P W'"
      "chans W' ?p = (chans W2 ?p)\<lparr>ch_events := ev_enableWriting (ch_events (chans W2 ?p)), ch_index := kAdded\<rparr>"
      "conns W' = conns W2"
    using conn_change [OF assms(1), of P W2 ?p ev_enableWriting] by (auto simp: bit_ev)
  moreover have "c_chan (conns W' o1) = ?p" using W'(4) by (simp add: W2_def)
  ultimately have "conn_inv view P o1 W'"
    using inv b by (simp add: conn_inv_def conn_channel_def W2_def isWriting_bit bit_ev)
  then show ?thesis using False W' by (simp add: enableWriting_def)
qed

lemma send_queue_ok:
  assumes doc: "epoll_documented ctl view" and inv: "conn_inv view P o1 W"
    and n: "nwrote \<le> length data" "unat remaining = length data - nwrote" and len: "length data < 2 ^ 31"
    and room: "length (store (outputBuffer (conns W o1))) + length data \<le> vec_max_size"
  shows "\<exists>W'. send_queue ctl data nwrote remaining False o1 W = Inr W' \<and> conn_inv view P o1 W'
    \<and> sent o1 W' = sent o1 W @ drop nwrote data \<and> c_state (conns W' o1) = c_state (conns W o1)
    \<and> wr_shut (conns W' o1) = wr_shut (conns W o1)
    \<and> length (store (outputBuffer (conns W' o1))) \<le> length (store (outputBuffer (conns W o1))) + length data"
proof (cases "0 < remaining")
  case False
  then have "remaining = 0" by (simp add: word_gt_0)
  then have "drop nwrote data = []" using n(2) by simp
  with \<open>remaining = 0\<close> inv show ?thesis by (simp add: send_queue_def)
next
  case True
  let ?b = "outputBuffer (conns W o1)" and ?c = "conns W o1"
  define W1 where "W1 = (if highWaterMark ?c \<le> readableBytes ?b + remaining \<and> readableBytes ?b < highWaterMark ?c
      \<and> highWaterMarkCallback ?c then queue_own (HighWaterMarkTask o1 (readableBytes ?b + remaining)) W else W)"
  have i1: "conn_inv view P o1 W1" "conns W1 = conns W" using inv by (simp_all add: W1_def)
  have rem: "unat remaining \<le> length (drop nwrote data)" "drop nwrote data \<noteq> []"
    using n True by (auto simp: word_less_nat_alt)
  have "buffer_inv ?b" "unat remaining < 2 ^ 31" "length (store ?b) + unat remaining \<le> vec_max_size"
    using inv n len room by (simp_all add: conn_inv_def)
  from buf_append_ok [OF this rem(1)] n obtain b where b:
      "buf_append (drop nwrote data) remaining ?b = Inr b" "buffer_inv b"
      "contents b = contents ?b @ drop nwrote data" "length (store b) \<le> length (store ?b) + unat remaining"
    by auto
  have ne: "contents b \<noteq> []" using b(3) rem(2) by simp
  obtain W' where W': "(if \<not> isWriting (conn_channel o1 (set_conn o1 (\<lambda>c. c\<lparr>outputBuffer := b\<rparr>) W1))
        then enableWriting ctl (c_chan ?c) (set_conn o1 (\<lambda>c. c\<lparr>outputBuffer := b\<rparr>) W1)
        else Inr (set_conn o1 (\<lambda>c. c\<lparr>outputBuffer := b\<rparr>) W1)) = Inr W'"
      "conn_inv view P o1 W'" "conns W' = conns (set_conn o1 (\<lambda>c. c\<lparr>outputBuffer := b\<rparr>) W1)"
    using enable_after_append [OF doc i1(1) b(2) ne] unfolding i1(2) by blast
  have "send_queue ctl data nwrote remaining False o1 W = Inr W'"
    using True b(1) W'(1) by (simp add: send_queue_def Let_def W1_def [symmetric] split: if_splits)
  then show ?thesis using W' b n i1(2) by (auto simp: sent_def)
qed

lemma sendInLoop_ok:
  assumes doc: "epoll_documented ctl view" and inv: "conn_inv view P o1 W"
    and w: "write_documented w" "peer_alive w" and len: "length data < 2 ^ 31"
    and room: "length (store (outputBuffer (conns W o1))) + length data \<le> vec_max_size"
    and st: "c_state (conns W o1) \<noteq> kDisconnected"
  shows "\<exists>W'. sendInLoop ctl w data o1 W = Inr W' \<and> conn_inv view P o1 W'
    \<and> sent o1 W' = sent o1 W @ data \<and> c_state (conns W' o1) = c_state (conns W o1)
    \<and> wr_shut (conns W' o1) = wr_shut (conns W o1)
    \<and> length (store (outputBuffer (conns W' o1))) \<le> length (store (outputBuffer (conns W o1))) + length data"
proof -
  obtain nw r W1 where d: "send_direct w data o1 W = (nw, r, False, W1)" "conn_inv view P o1 W1"
      "nw \<le> length data" "unat r = length data - nw" "sent o1 W1 @ drop nw data = sent o1 W @ data"
      "outputBuffer (conns W1 o1) = outputBuffer (conns W o1)" "c_state (conns W1 o1) = c_state (conns W o1)"
      "wr_shut (conns W1 o1) = wr_shut (conns W o1)"
    using send_direct_ok [OF inv w len] by blast
  with send_queue_ok [OF doc d(2,3,4) len] room st show ?thesis
    by (auto simp: sendInLoop_def)
qed

lemma not_state_eq_disconnecting_False [simp]: "\<not> not_state_eq_disconnecting st"
  by (cases st) (simp_all add: not_state_eq_disconnecting_def)

text \<open>What one call of \<open>handleWrite\<close> does when \<open>write\<close> takes \<open>n\<close> of the waiting bytes.\<close>

lemma handleWrite_partial:
  assumes inv: "conn_inv view P o1 W" and out: "contents (outputBuffer (conns W o1)) = out"
    and n: "w out = WOk n" "0 < n" "n < length out"
  shows "\<exists>W'. handleWrite ctl w o1 W = Inr W' \<and> conn_inv view P o1 W'
    \<and> conns W' = (conns W)(o1 := (conns W o1)\<lparr>outputBuffer := retrieve (of_nat n) (outputBuffer (conns W o1)),
          wire := wire (conns W o1) @ take n out\<rparr>) \<and> contents (outputBuffer (conns W' o1)) = drop n out"
proof -
  let ?ob = "outputBuffer (conns W o1)"
  let ?W1 = "set_conn o1 (\<lambda>c. c\<lparr>outputBuffer := retrieve (of_nat n) ?ob, wire := wire c @ take n out\<rparr>) W"
  have b: "buffer_inv ?ob" using inv by (simp add: conn_inv_def)
  have "length out < 2 ^ 64" using out contents_length [OF b] unat_size_lt [of "readableBytes ?ob"] by simp
  then have un: "unat (of_nat n :: size_t) = n" using n by (intro unat_of_nat_fits) simp
  have r: "buffer_inv (retrieve (of_nat n) ?ob)" "contents (retrieve (of_nat n) ?ob) = drop n out"
    using b retrieve_contents [OF b] un out by (simp_all add: retrieve_inv)
  then have "readableBytes (retrieve (of_nat n) ?ob) \<noteq> 0" using n(3) by (simp add: readable_zero_iff)
  moreover have "isWriting (conn_channel o1 W)" using inv out n by (auto simp: conn_inv_def)
  ultimately have "handleWrite ctl w o1 W = Inr ?W1"
    using n out b by (simp add: handleWrite_def GetBufferAllAsString_contents writeFd_contents Let_def)
  moreover have "conn_inv view P o1 ?W1" using inv out r n by (auto simp: conn_inv_def)
  moreover have "conns ?W1 = (conns W)(o1 := (conns W o1)\<lparr>outputBuffer := retrieve (of_nat n) ?ob,
      wire := wire (conns W o1) @ take n out\<rparr>)" by (simp add: fun_eq_iff)
  ultimately show ?thesis using r(2) by auto
qed

lemma handleWrite_drain:
  assumes doc: "epoll_documented ctl view" and inv: "conn_inv view P o1 W"
    and out: "contents (outputBuffer (conns W o1)) = out" "out \<noteq> []" and n: "w out = WOk (length out)"
  shows "\<exists>W'. handleWrite ctl w o1 W = Inr W' \<and> conn_inv view P o1 W'
    \<and> conns W' = (conns W)(o1 := (conns W o1)\<lparr>outputBuffer := retrieveAll (outputBuffer (conns W o1)),
          wire := wire (conns W o1) @ out\<rparr>)
    \<and> pendingFunctors W' = pendingFunctors W @ (if writeCompleteCallback (conns W o1) then [WriteCompleteTask o1] else [])
    \<and> contents (outputBuffer (conns W' o1)) = []"
proof -
  let ?ob = "outputBuffer (conns W o1)" and ?p = "c_chan (conns W o1)"
  let ?W1 = "set_conn o1 (\<lambda>c. c\<lparr>outputBuffer := retrieveAll ?ob, wire := wire c @ out\<rparr>) W"
  have b: "buffer_inv ?ob" using inv by (simp add: conn_inv_def)
  have "length out = unat (readableBytes ?ob)" using out contents_length [OF b] by simp
  then have "(of_nat (length out) :: size_t) = readableBytes ?ob" by simp
  then have ra: "retrieve (of_nat (length out)) ?ob = retrieveAll ?ob" by (simp add: retrieve_def)
  have i: "buffer_inv (retrieveAll ?ob)" "contents (retrieveAll ?ob) = []"
    using retrieve_inv [OF b, of "readableBytes ?ob"] retrieve_contents [OF b, of "readableBytes ?ob"] contents_length [OF b]
    by (auto simp: retrieve_def)
  then have z: "readableBytes (retrieveAll ?ob) = 0" by (simp add: readable_zero_iff)
  have wr: "isWriting (conn_channel o1 W)" using inv out by (simp add: conn_inv_def)
  have "poller_inv view P ?W1" "?p \<in> P" "ch_index (chans ?W1 ?p) = kAdded" "bit (ch_events (chans ?W1 ?p)) 0"
    using inv by (simp_all add: conn_inv_def conn_channel_def)
  then obtain W2 where W2: "change_events ctl ev_disableWriting ?p ?W1 = Inr W2" "poller_inv view P W2"
      "chans W2 ?p = (chans W ?p)\<lparr>ch_events := ev_disableWriting (ch_events (chans W ?p)), ch_index := kAdded\<rparr>"
      "conns W2 = conns ?W1" "pendingFunctors W2 = pendingFunctors W" "threadId W2 = threadId W"
    using conn_change [OF doc, of P ?W1 ?p ev_disableWriting] by (auto simp: bit_ev)
  have c: "c_chan (conns W2 o1) = ?p" using W2(4) by simp
  have "conn_inv view P o1 W2"
    using W2 c i inv by (simp add: conn_inv_def conn_channel_def isWriting_bit bit_ev)
  moreover have "conns W2 = (conns W)(o1 := (conns W o1)\<lparr>outputBuffer := retrieveAll ?ob, wire := wire (conns W o1) @ out\<rparr>)"
    using W2(4) by (simp add: fun_eq_iff)
  ultimately show ?thesis
    using W2 n out b i ra z wr
    by (simp add: handleWrite_def GetBufferAllAsString_contents writeFd_contents Let_def disableWriting_def)
qed

text \<open>Whatever \<open>write\<close> answers, \<open>handleWrite\<close> neither loses nor reorders a byte.\<close>

lemma handleWrite_idle:
  assumes "conn_inv view P o1 W" "contents (outputBuffer (conns W o1)) = []
    \<or> w (contents (outputBuffer (conns W o1))) = WOk 0 \<or> (\<exists>e. w (contents (outputBuffer (conns W o1))) = WErr e)"
  shows "handleWrite ctl w o1 W = Inr W"
proof -
  have "buffer_inv (outputBuffer (conns W o1))" using assms by (simp add: conn_inv_def)
  then show ?thesis using assms
    by (auto simp: handleWrite_def GetBufferAllAsString_contents writeFd_contents Let_def conn_inv_def)
qed

lemma handleWrite_ok:
  assumes doc: "epoll_documented ctl view" and inv: "conn_inv view P o1 W" and w: "write_documented w"
  shows "\<exists>W'. handleWrite ctl w o1 W = Inr W' \<and> conn_inv view P o1 W' \<and> sent o1 W' = sent o1 W
    \<and> c_state (conns W' o1) = c_state (conns W o1) \<and> wr_shut (conns W' o1) = wr_shut (conns W o1)
    \<and> store (outputBuffer (conns W' o1)) = store (outputBuffer (conns W o1))"
proof -
  let ?out = "contents (outputBuffer (conns W o1))"
  consider "?out = [] \<or> w ?out = WOk 0 \<or> (\<exists>e. w ?out = WErr e)"
    | n where "w ?out = WOk n" "0 < n" "n < length ?out" | "w ?out = WOk (length ?out)" "?out \<noteq> []"
    using w by (cases "w ?out") (force simp: write_documented_def)+
  then show ?thesis
  proof cases
    case 1
    then show ?thesis using handleWrite_idle [where w = w, OF inv 1] inv by simp
  next
    case 2
    from handleWrite_partial [where w = w, OF inv refl 2] show ?thesis by (force simp: sent_def)
  next
    case 3
    from handleWrite_drain [where w = w, OF doc inv refl 3(2,1)] show ?thesis
      by (force simp: sent_def retrieveAll_def)
  qed
qed

section \<open>The connection as an outgoing byte stream\<close>

text \<open>
  What a writer relies on: it puts chunks in, the loop drains them when the socket is writable, and
  what was sent is what was put, in order.  \<open>'w\<close> is the behaviour of \<open>write\<close> at that moment.
\<close>

datatype 'w stream_op = Send 'w "char list" | Writable 'w

fun stream_bytes :: "'w stream_op list \<Rightarrow> char list" where
  "stream_bytes [] = []"
| "stream_bytes (Send w ds # ops) = ds @ stream_bytes ops"
| "stream_bytes (Writable w # ops) = stream_bytes ops"

fun run_stream :: "('w \<Rightarrow> char list \<Rightarrow> 's \<Rightarrow> 's res) \<Rightarrow> ('w \<Rightarrow> 's \<Rightarrow> 's res) \<Rightarrow> 'w stream_op list \<Rightarrow> 's \<Rightarrow> 's res" where
  "run_stream put drain [] s = Inr s"
| "run_stream put drain (Send w ds # ops) s = rbind (put w ds s) (run_stream put drain ops)"
| "run_stream put drain (Writable w # ops) s = rbind (drain w s) (run_stream put drain ops)"

fun drain_n :: "('w \<Rightarrow> 's \<Rightarrow> 's res) \<Rightarrow> nat \<Rightarrow> 'w \<Rightarrow> 's \<Rightarrow> 's res" where
  "drain_n drain 0 w s = Inr s"
| "drain_n drain (Suc n) w s = rbind (drain w s) (drain_n drain n w)"

locale byte_stream =
  fixes put :: "'w \<Rightarrow> char list \<Rightarrow> 's \<Rightarrow> 's res"
    and drain :: "'w \<Rightarrow> 's \<Rightarrow> 's res"
    and invar :: "'s \<Rightarrow> bool"
    and sent :: "'s \<Rightarrow> char list"
    and pending :: "'s \<Rightarrow> char list"
    and capacity :: "'s \<Rightarrow> nat"
    and documented :: "'w \<Rightarrow> bool"
    and alive :: "'w \<Rightarrow> bool"
    and eager :: "'w \<Rightarrow> bool"
    and chunk_limit :: nat
    and size_limit :: nat
  assumes put_ok: "invar s \<Longrightarrow> documented w \<Longrightarrow> alive w \<Longrightarrow> length ds < chunk_limit
      \<Longrightarrow> capacity s + length ds \<le> size_limit
      \<Longrightarrow> \<exists>s'. put w ds s = Inr s' \<and> invar s' \<and> sent s' = sent s @ ds \<and> capacity s' \<le> capacity s + length ds"
    and drain_ok: "invar s \<Longrightarrow> documented w
      \<Longrightarrow> \<exists>s'. drain w s = Inr s' \<and> invar s' \<and> sent s' = sent s \<and> capacity s' = capacity s"
    and drain_progress: "invar s \<Longrightarrow> documented w \<Longrightarrow> eager w \<Longrightarrow> pending s \<noteq> []
      \<Longrightarrow> drain w s = Inr s' \<Longrightarrow> length (pending s') < length (pending s)"
    and drain_nothing: "invar s \<Longrightarrow> pending s = [] \<Longrightarrow> drain w s = Inr s"
begin

lemma session_in_order:
  assumes "invar s" "capacity s + length (stream_bytes ops) \<le> size_limit"
    and "\<And>w. Writable w \<in> set ops \<Longrightarrow> documented w"
    and "\<And>w ds. Send w ds \<in> set ops \<Longrightarrow> documented w \<and> alive w \<and> length ds < chunk_limit"
  shows "\<exists>s'. run_stream put drain ops s = Inr s' \<and> invar s' \<and> sent s' = sent s @ stream_bytes ops"
  using assms
proof (induction ops arbitrary: s)
  case Nil
  then show ?case by simp
next
  case (Cons a ops)
  show ?case
  proof (cases a)
    case (Send w ds)
    then obtain s1 where s1: "put w ds s = Inr s1" "invar s1" "sent s1 = sent s @ ds"
        "capacity s1 \<le> capacity s + length ds"
      using put_ok [of s w ds] Cons.prems(1,2) Cons.prems(4) [of w ds] by auto
    have "\<exists>s'. run_stream put drain ops s1 = Inr s' \<and> invar s' \<and> sent s' = sent s1 @ stream_bytes ops"
      by (rule Cons.IH) (use s1 Cons.prems Send in auto)
    with s1 Send show ?thesis by auto
  next
    case (Writable w)
    then obtain s1 where s1: "drain w s = Inr s1" "invar s1" "sent s1 = sent s" "capacity s1 = capacity s"
      using drain_ok [of s w] Cons.prems(1) Cons.prems(3) [of w] by auto
    have "\<exists>s'. run_stream put drain ops s1 = Inr s' \<and> invar s' \<and> sent s' = sent s1 @ stream_bytes ops"
      by (rule Cons.IH) (use s1 Cons.prems Writable in auto)
    with s1 Writable show ?thesis by auto
  qed
qed

text \<open>Enough writable events empty the stream, if each lets at least one byte through.\<close>

lemma drains:
  assumes "invar s" "documented w" "eager w" "length (pending s) \<le> n"
  shows "\<exists>s'. drain_n drain n w s = Inr s' \<and> invar s' \<and> sent s' = sent s \<and> pending s' = []"
  using assms
proof (induction n arbitrary: s)
  case 0
  then show ?case by simp
next
  case (Suc n)
  obtain s1 where s1: "drain w s = Inr s1" "invar s1" "sent s1 = sent s"
    using drain_ok Suc.prems by blast
  have "length (pending s1) \<le> n"
    using s1 drain_progress [of s w s1] drain_nothing [of s w] Suc.prems by (cases "pending s = []") auto
  with Suc.IH [OF s1(2)] Suc.prems s1 show ?case by auto
qed

text \<open>However often it is drained and whatever \<open>write\<close> answers, the invariant stays.\<close>

lemma drain_n_invar:
  assumes "invar s" "documented w" "drain_n drain n w s = Inr s'"
  shows "invar s'"
  using assms
proof (induction n arbitrary: s)
  case (Suc n)
  then show ?case using drain_ok [of s w] by auto
qed simp

end

definition eager_write :: "(char list \<Rightarrow> wr_result) \<Rightarrow> bool" where
  "eager_write w \<longleftrightarrow> (\<forall>ds. ds \<noteq> [] \<longrightarrow> (\<exists>n. w ds = WOk n \<and> 0 < n))"

lemma handleWrite_progress:
  assumes doc: "epoll_documented ctl view" and inv: "conn_inv view P o1 W"
    and w: "write_documented w" "eager_write w" and ne: "contents (outputBuffer (conns W o1)) \<noteq> []"
    and W': "handleWrite ctl w o1 W = Inr W'"
  shows "length (contents (outputBuffer (conns W' o1))) < length (contents (outputBuffer (conns W o1)))"
proof -
  let ?out = "contents (outputBuffer (conns W o1))"
  obtain n where n: "w ?out = WOk n" "0 < n" "n \<le> length ?out"
    using w ne unfolding eager_write_def write_documented_def by blast
  show ?thesis
  proof (cases "n = length ?out")
    case True
    then show ?thesis
      using handleWrite_drain [where w = w, OF doc inv refl ne] n W' ne by auto
  next
    case False
    then show ?thesis
      using handleWrite_partial [where w = w and n = n and ctl = ctl, OF inv refl] n W' by auto
  qed
qed

interpretation strm: byte_stream "\<lambda>w ds. sendInLoop ctl w ds o1" "\<lambda>w. handleWrite ctl w o1"
  "\<lambda>W :: ('k, 'z) io_scheme. epoll_documented ctl view \<and> conn_inv view P o1 W
     \<and> c_state (conns W o1) = st \<and> st \<noteq> kDisconnected \<and> wr_shut (conns W o1) = sh"
  "sent o1" "\<lambda>W. contents (outputBuffer (conns W o1))" "\<lambda>W. length (store (outputBuffer (conns W o1)))"
  write_documented peer_alive eager_write "2 ^ 31" vec_max_size
  for ctl :: "'k epoll_ctl" and view P o1 st sh
proof unfold_locales
  fix W W' :: "('k, 'z) io_scheme" and w
  assume "epoll_documented ctl view \<and> conn_inv view P o1 W \<and> c_state (conns W o1) = st
      \<and> st \<noteq> kDisconnected \<and> wr_shut (conns W o1) = sh" "write_documented w" "eager_write w"
    "contents (outputBuffer (conns W o1)) \<noteq> []" "handleWrite ctl w o1 W = Inr W'"
  then show "length (contents (outputBuffer (conns W' o1))) < length (contents (outputBuffer (conns W o1)))"
    using handleWrite_progress by blast
next
  fix W :: "('k, 'z) io_scheme" and w and ds :: "char list"
  assume "epoll_documented ctl view \<and> conn_inv view P o1 W \<and> c_state (conns W o1) = st
      \<and> st \<noteq> kDisconnected \<and> wr_shut (conns W o1) = sh" "write_documented w" "peer_alive w"
    "length ds < 2 ^ 31" "length (store (outputBuffer (conns W o1))) + length ds \<le> vec_max_size"
  then show "\<exists>W'. sendInLoop ctl w ds o1 W = Inr W' \<and> (epoll_documented ctl view \<and> conn_inv view P o1 W'
      \<and> c_state (conns W' o1) = st \<and> st \<noteq> kDisconnected \<and> wr_shut (conns W' o1) = sh) \<and> sent o1 W' = sent o1 W @ ds
      \<and> length (store (outputBuffer (conns W' o1))) \<le> length (store (outputBuffer (conns W o1))) + length ds"
    using sendInLoop_ok [of ctl view P o1 W w ds] by auto
next
  fix W :: "('k, 'z) io_scheme" and w
  assume "epoll_documented ctl view \<and> conn_inv view P o1 W \<and> c_state (conns W o1) = st
      \<and> st \<noteq> kDisconnected \<and> wr_shut (conns W o1) = sh" "write_documented w"
  then show "\<exists>W'. handleWrite ctl w o1 W = Inr W' \<and> (epoll_documented ctl view \<and> conn_inv view P o1 W'
      \<and> c_state (conns W' o1) = st \<and> st \<noteq> kDisconnected \<and> wr_shut (conns W' o1) = sh) \<and> sent o1 W' = sent o1 W
      \<and> length (store (outputBuffer (conns W' o1))) = length (store (outputBuffer (conns W o1)))"
    using handleWrite_ok [of ctl view P o1 W w] by auto
qed (auto intro: handleWrite_idle)

section \<open>Set up and taken down\<close>

lemma poller_inv_set_chan:
  assumes "\<And>ch. ch_fd (f ch) = ch_fd ch" "\<And>ch. ch_index (f ch) = ch_index ch" "\<And>ch. ch_events (f ch) = ch_events ch"
  shows "poller_inv view P (set_chan p f s) \<longleftrightarrow> poller_inv view P s"
proof -
  have c: "ch_fd (chans (set_chan p f s) q) = ch_fd (chans s q)"
    "ch_index (chans (set_chan p f s) q) = ch_index (chans s q)"
    "ch_events (chans (set_chan p f s) q) = ch_events (chans s q)" for q
    by (simp_all add: assms)
  have "interest (set_chan p f s) = interest s"
    by (rule ext) (simp only: interest_def c set_chan_simps(1))
  then show ?thesis by (simp only: poller_inv_def c) (simp add: set_chan_def)
qed

lemma set_chan_io [simp]:
  fixes W :: "('k, 'z) io_scheme"
  shows "conns (set_chan p f W) = conns W" "calls (set_chan p f W) = calls W"
    "threadId (set_chan p f W) = threadId W" "pendingFunctors (set_chan p f W) = pendingFunctors W"
  by (simp_all add: set_chan_def)

lemma setState_simps [simp]:
  "chans (setState st o1 W) = chans W" "calls (setState st o1 W) = calls W"
  "threadId (setState st o1 W) = threadId W" "pendingFunctors (setState st o1 W) = pendingFunctors W"
  "conns (setState st o1 W) q = (if q = o1 then (conns W o1)\<lparr>c_state := st\<rparr> else conns W q)"
  "poller_inv view P (setState st o1 W) \<longleftrightarrow> poller_inv view P W"
  by (simp_all add: setState_def)

lemma poller_inv_calls [simp]:
  "poller_inv view P (W\<lparr>calls := cs\<rparr>) \<longleftrightarrow> poller_inv view P (W :: ('k, 'z) io_scheme)"
  by (rule poller_inv_cong) simp_all

lemma connectionEstablished_ok:
  assumes doc: "epoll_documented ctl view" and inv: "poller_inv view P W"
    and c: "conns W o1 = c" "c_chan c \<in> P" and ch: "ch_index (chans W (c_chan c)) = kNew" "ch_events (chans W (c_chan c)) = 0"
    and b: "buffer_inv (inputBuffer c)" "buffer_inv (outputBuffer c)" "contents (outputBuffer c) = []"
  shows "\<exists>W1. enableReading ctl (c_chan c) (set_chan (c_chan c) (channel_tie o1) (setState kConnected o1 W)) = Inr W1
    \<and> conn_inv view P o1 W1 \<and> conns W1 = (conns W)(o1 := c\<lparr>c_state := kConnected\<rparr>) \<and> calls W1 = calls W
    \<and> ch_tie (chans W1 (c_chan c)) = Some o1 \<and> ch_tied (chans W1 (c_chan c))"
proof -
  let ?p = "c_chan c" and ?W0 = "set_chan (c_chan c) (channel_tie o1) (setState kConnected o1 W)"
  have "poller_inv view P ?W0"
    by (subst poller_inv_set_chan) (simp_all add: channel_tie_def inv)
  moreover have "ch_index (chans ?W0 ?p) = kNew \<or> ch_index (chans ?W0 ?p) = kDeleted"
    using ch by (simp add: channel_tie_def)
  ultimately obtain W1 where W1: "enableReading ctl ?p ?W0 = Inr W1"
      "stepped view P ?p (ev_enableReading (ch_events (chans ?W0 ?p))) kAdded ?W0 W1"
    using register_steps [OF doc _ c(2), of ?W0 ev_enableReading] by (auto simp: enableReading_def)
  note io = stepped_io [OF W1(2)]
  have cs: "conns W1 = (conns W)(o1 := c\<lparr>c_state := kConnected\<rparr>)"
    using io(1) c(1) by (simp add: fun_eq_iff)
  have p: "poller_inv view P W1" "chans W1 ?p = (chans ?W0 ?p)\<lparr>ch_events := ev_enableReading 0, ch_index := kAdded\<rparr>"
    using W1(2) ch(2) by (simp_all add: stepped_def channel_tie_def)
  have "conn_inv view P o1 W1"
    using p cs c b by (simp add: conn_inv_def conn_channel_def isWriting_bit bit_ev)
  then show ?thesis using W1(1) cs io(2) p by (simp add: channel_tie_def)
qed

lemma disableAll_established:
  assumes doc: "epoll_documented ctl view" and inv: "conn_inv view P o1 W"
  shows "\<exists>W1. disableAll ctl (c_chan (conns W o1)) (setState kDisconnected o1 W) = Inr W1 \<and> poller_inv view P W1
    \<and> conns W1 = (conns W)(o1 := (conns W o1)\<lparr>c_state := kDisconnected\<rparr>) \<and> calls W1 = calls W
    \<and> pendingFunctors W1 = pendingFunctors W \<and> threadId W1 = threadId W"
proof -
  let ?W0 = "setState kDisconnected o1 W"
  have "poller_inv view P ?W0" "c_chan (conns W o1) \<in> P" using inv by (simp_all add: conn_inv_def)
  then obtain i W1 where W1: "disableAll ctl (c_chan (conns W o1)) ?W0 = Inr W1"
      "stepped view P (c_chan (conns W o1)) 0 i ?W0 W1"
    using change_events_steps [OF doc, of P ?W0 "c_chan (conns W o1)" ev_disableAll] by (auto simp: disableAll_def)
  then show ?thesis using stepped_io [OF W1(2)] by (auto simp: stepped_def fun_eq_iff)
qed

lemma remove_forgets:
  assumes doc: "epoll_documented ctl view" and inv: "poller_inv view P W" and p: "p \<in> P"
  shows "\<exists>W1. removeChannel ctl p W = Inr W1 \<and> conns W1 = conns W \<and> calls W1 = calls W
    \<and> (\<forall>fd e. view (epollfd W1) fd \<noteq> Some (e, p))"
proof -
  obtain W1 where W1: "removeChannel ctl p W = Inr W1" "stepped view P p (ch_events (chans W p)) kNew W W1"
    using remove_steps [OF doc inv p] by blast
  then have "poller_inv view P W1" "ch_index (chans W1 p) = kNew" by (simp_all add: stepped_def)
  then have "view (epollfd W1) fd \<noteq> Some (e, p)" for fd e
    by (auto simp: poller_inv_def interest_def split: option.split)
  then show ?thesis using W1 stepped_io [OF W1(2)] by blast
qed

section \<open>Reading\<close>

lemma conn_handleRead_ok:
  assumes inv: "conn_inv view P o1 W" and f: "readv_documented f" "f (iov_lens (inputBuffer (conns W o1))) = ROk ds"
    and room: "length (store (inputBuffer (conns W o1))) + kExtraSize \<le> vec_max_size"
  shows "\<exists>b'. buffer_inv b' \<and> contents b' = contents (inputBuffer (conns W o1)) @ ds
    \<and> conn_handleRead ctl f closecb o1 W =
        (let W1 = set_conn o1 (\<lambda>c. c\<lparr>inputBuffer := b'\<rparr>) W in
         if ds \<noteq> [] then call_user (messageCallback (conns W o1)) (MessageCall o1) W1
         else handleClose ctl closecb o1 W1)"
proof -
  let ?b = "inputBuffer (conns W o1)"
  have b: "buffer_inv ?b" using inv by (simp add: conn_inv_def)
  obtain b' where b': "readFd f ?b = Inr (of_nat (length ds), None, b')" "buffer_inv b'" "contents b' = contents ?b @ ds"
    using readFd_ok [OF b f room] by blast
  have len: "length ds \<le> sum_list (iov_lens ?b)" using f by (simp add: readv_documented_def)
  have "length ds \<le> unat (writeableBytes ?b) + kExtraSize"
    using iov_lens_sum [OF b] len by (simp split: if_splits)
  then have "length ds < 2 ^ 63"
    using buffer_invD(3) [OF b] room by (simp add: vec_max_size_def)
  then have "sint (of_nat (length ds) :: size_t) = int (length ds)"
    by (simp add: signed_of_nat signed_take_bit_int_eq_self)
  then show ?thesis using b' by (auto simp: conn_handleRead_def Let_def)
qed

section \<open>A connection to run the properties on\<close>

definition small_buffer :: "char list \<Rightarrow> buffer" where
  "small_buffer ds = \<lparr>store = replicate 8 (CHR 0x00) @ ds @ ''????'', readerIndex = 8,
     writerIndex = 8 + of_nat (length ds)\<rparr>"

definition sample_conn :: "char list \<Rightarrow> conn" where
  "sample_conn out = \<lparr>c_name = ''c'', c_state = kConnected, c_chan = 0, connectionCallback = True,
     messageCallback = True, writeCompleteCallback = True, conn_closeCallback = True,
     highWaterMarkCallback = True, highWaterMark = 6, inputBuffer = small_buffer [],
     outputBuffer = small_buffer out, wire = [], wr_shut = False, keepAlive = True\<rparr>"

text \<open>Connection 7 with \<open>out\<close> waiting, registered at descriptor 3 with events \<open>ev\<close>, in thread 1.\<close>

definition sample_io :: "c_int \<Rightarrow> char list \<Rightarrow> (int \<rightharpoonup> epoll_event) io" where
  "sample_io ev out = \<lparr>chans = (\<lambda>p. (conn_channel_new 7 (int p + 3))\<lparr>ch_events := ev, ch_index := kAdded\<rparr>),
     channels = [3 \<mapsto> 0], epollfd = [3 \<mapsto> (ev, 0)], evlist = [], threadId = 1, looping = True,
     quitting = False, callingPendingFunctors = False, pendingFunctors = [], wakeups = 0,
     wakeupChannel = 1, activateChannels = [], conns = (\<lambda>_. sample_conn out), calls = []\<rparr>"

lemma sample_conn_inv:
  assumes "length out < 100" "bit ev 0" "bit ev 2 \<longleftrightarrow> out \<noteq> []"
  shows "conn_inv (\<lambda>k. k) {0} 7 (sample_io ev out)"
proof -
  have u: "unat (8 + of_nat (length ds) :: size_t) = 8 + length ds" if "length ds < 100" for ds :: "char list"
    using that by (subst unat_add_fits) (simp_all add: unat_of_nat_fits)
  have b: "buffer_inv (small_buffer ds) \<and> contents (small_buffer ds) = ds" if "length ds < 100" for ds
    using that u [OF that] by (simp add: buffer_inv_def contents_def small_buffer_def slice_def vec_max_size_def)
  have "poller_inv (\<lambda>k. k) {0} (sample_io ev out)"
    by (auto simp: poller_inv_def interest_def sample_io_def conn_channel_new_def channel_new_def fun_eq_iff)
  then show ?thesis using b [OF assms(1)] b [of "[]"] assms(2,3)
    by (simp add: conn_inv_def conn_channel_def isWriting_bit sample_io_def sample_conn_def)
qed

lemma sample_io_simps [simp]:
  "conns (sample_io ev out) o1 = sample_conn out" "threadId (sample_io ev out) = 1"
  "pendingFunctors (sample_io ev out) = []" "calls (sample_io ev out) = []"
  "c_state (sample_conn out) = kConnected" "wr_shut (sample_conn out) = False" "c_chan (sample_conn out) = 0"
  "outputBuffer (sample_conn out) = small_buffer out" "inputBuffer (sample_conn out) = small_buffer []"
  "connectionCallback (sample_conn out)" "conn_closeCallback (sample_conn out)"
  "writeCompleteCallback (sample_conn out)" "messageCallback (sample_conn out)"
  "highWaterMarkCallback (sample_conn out)" "highWaterMark (sample_conn out) = 6" "wire (sample_conn out) = []"
  by (simp_all add: sample_io_def sample_conn_def)

lemma small_buffer_simps [simp]:
  "length (store (small_buffer ds)) = 12 + length ds"
  "length ds < 100 \<Longrightarrow> contents (small_buffer ds) = ds"
proof -
  show "length (store (small_buffer ds)) = 12 + length ds" by (simp add: small_buffer_def)
  show "contents (small_buffer ds) = ds" if "length ds < 100"
  proof -
    have "unat (8 + of_nat (length ds) :: size_t) = 8 + length ds"
      using that by (subst unat_add_fits) (simp_all add: unat_of_nat_fits)
    then show ?thesis by (simp add: contents_def small_buffer_def slice_def)
  qed
qed

text \<open>A \<open>write\<close> that takes at most \<open>k\<close> bytes, and a reset one.\<close>

definition write_upto :: "nat \<Rightarrow> char list \<Rightarrow> wr_result" where
  "write_upto k ds = WOk (min k (length ds))"

lemma write_upto_ok: "write_documented (write_upto k)" "peer_alive (write_upto k)" "0 < k \<Longrightarrow> eager_write (write_upto k)"
  by (auto simp: write_documented_def peer_alive_def eager_write_def write_upto_def)

section \<open>Properties\<close>

text \<open>
  C3: stream integrity.  On an established connection, in any order of sends of the loop thread and
  writable events, with \<open>write\<close> taking as much as it likes or asking to wait, every call returns and
  what was written to the socket followed by what waits in the output buffer is exactly what was
  sent, in order.  Afterwards the kernel watches the socket for input, and for output exactly if
  bytes are waiting: nothing is stuck and nothing polls busily.
\<close>

theorem conn_stream_integrity:
  assumes "epoll_documented ctl view" and "conn_inv view P o1 W" and "c_state (conns W o1) \<noteq> kDisconnected"
    and "\<And>w. Writable w \<in> set ops \<Longrightarrow> write_documented w"
    and "\<And>w ds. Send w ds \<in> set ops \<Longrightarrow> write_documented w \<and> peer_alive w \<and> length ds < 2 ^ 31"
    and "length (store (outputBuffer (conns W o1))) + length (stream_bytes ops) \<le> vec_max_size"
  shows "\<exists>W' e. run_stream (\<lambda>w ds. sendInLoop ctl w ds o1) (\<lambda>w. handleWrite ctl w o1) ops W = Inr W'
    \<and> wire (conns W' o1) @ contents (outputBuffer (conns W' o1)) =
        wire (conns W o1) @ contents (outputBuffer (conns W o1)) @ stream_bytes ops
    \<and> view (epollfd W') (ch_fd (conn_channel o1 W')) = Some (e, c_chan (conns W' o1))
    \<and> bit e 0 \<and> (bit e 2 \<longleftrightarrow> contents (outputBuffer (conns W' o1)) \<noteq> [])"
proof -
  obtain W' where W': "run_stream (\<lambda>w ds. sendInLoop ctl w ds o1) (\<lambda>w. handleWrite ctl w o1) ops W = Inr W'"
      "conn_inv view P o1 W'" "sent o1 W' = sent o1 W @ stream_bytes ops"
    using strm.session_in_order [of ctl view P o1 W "c_state (conns W o1)" "wr_shut (conns W o1)" ops] assms by auto
  then have "poller_inv view P W'" "c_chan (conns W' o1) \<in> P" "ch_index (conn_channel o1 W') = kAdded"
    by (simp_all add: conn_inv_def)
  from poller_invD(2) [OF this(1,2)] this(3)
  have "view (epollfd W') (ch_fd (conn_channel o1 W')) = Some (ch_events (conn_channel o1 W'), c_chan (conns W' o1))"
    by (simp add: conn_channel_def)
  then show ?thesis using W' by (auto simp: conn_inv_def isWriting_bit sent_def)
qed

lemma conn_stream_integrity_witness:
  "\<exists>W'. run_stream (\<lambda>w ds. sendInLoop list_ctl w ds 7) (\<lambda>w. handleWrite list_ctl w 7)
      [Send (write_upto 2) ''hello'', Send (\<lambda>_. WErr EWOULDBLOCK) '' world'', Writable (write_upto 4)]
      (sample_io 3 []) = Inr W'
    \<and> wire (conns W' 7) @ contents (outputBuffer (conns W' 7)) = ''hello world''"
proof -
  let ?ops = "[Send (write_upto 2) ''hello'', Send (\<lambda>_. WErr EWOULDBLOCK) '' world'', Writable (write_upto 4)]"
  have i: "conn_inv (\<lambda>k. k) {0} 7 (sample_io 3 [])"
    by (rule sample_conn_inv) (simp_all add: bit_iff_odd)
  have e: "write_documented (\<lambda>_. WErr EWOULDBLOCK)" "peer_alive (\<lambda>_. WErr EWOULDBLOCK)"
    by (simp_all add: write_documented_def peer_alive_def EWOULDBLOCK_def EPIPE_def ECONNRESET_def)
  have "\<exists>W' e. run_stream (\<lambda>w ds. sendInLoop list_ctl w ds 7) (\<lambda>w. handleWrite list_ctl w 7) ?ops (sample_io 3 []) = Inr W'
    \<and> wire (conns W' 7) @ contents (outputBuffer (conns W' 7)) =
        wire (conns (sample_io 3 []) 7) @ contents (outputBuffer (conns (sample_io 3 []) 7)) @ stream_bytes ?ops
    \<and> epollfd W' (ch_fd (conn_channel 7 W')) = Some (e, c_chan (conns W' 7))
    \<and> bit e 0 \<and> (bit e 2 \<longleftrightarrow> contents (outputBuffer (conns W' 7)) \<noteq> [])"
    by (rule conn_stream_integrity [OF list_ctl_documented i])
      (auto simp: write_upto_ok e vec_max_size_def)
  then show ?thesis by auto
qed

text \<open>
  C21: the output buffer empties.  If every writable event lets at least one byte through, then as
  many events as there are bytes waiting write all of them, in order; afterwards the kernel watches the
  socket for input and no longer for output.
\<close>

theorem conn_flush_completes:
  assumes "epoll_documented ctl view" and "conn_inv view P o1 W" and "c_state (conns W o1) \<noteq> kDisconnected"
    and "write_documented w" and "eager_write w" and "length (contents (outputBuffer (conns W o1))) \<le> n"
  shows "\<exists>W'. drain_n (\<lambda>w. handleWrite ctl w o1) n w W = Inr W' \<and> contents (outputBuffer (conns W' o1)) = []
    \<and> wire (conns W' o1) = wire (conns W o1) @ contents (outputBuffer (conns W o1))
    \<and> (\<exists>e. view (epollfd W') (ch_fd (conn_channel o1 W')) = Some (e, c_chan (conns W' o1)) \<and> bit e 0 \<and> \<not> bit e 2)"
proof -
  obtain W' where W': "drain_n (\<lambda>w. handleWrite ctl w o1) n w W = Inr W'" "conn_inv view P o1 W'"
      "sent o1 W' = sent o1 W" "contents (outputBuffer (conns W' o1)) = []"
    using strm.drains [of ctl view P o1 W "c_state (conns W o1)" "wr_shut (conns W o1)" w n] assms by auto
  have "poller_inv view P W'" "c_chan (conns W' o1) \<in> P" using W'(2) by (simp_all add: conn_inv_def)
  from poller_invD(2) [OF this] have "view (epollfd W') (ch_fd (conn_channel o1 W'))
      = Some (ch_events (conn_channel o1 W'), c_chan (conns W' o1))"
    using W'(2) by (simp add: conn_inv_def conn_channel_def)
  then show ?thesis using W' by (auto simp: sent_def conn_inv_def isWriting_bit)
qed

lemma conn_flush_completes_witness:
  "\<exists>W'. drain_n (\<lambda>w. handleWrite list_ctl w 7) 3 (write_upto 1) (sample_io 7 ''abc'') = Inr W'
    \<and> contents (outputBuffer (conns W' 7)) = [] \<and> wire (conns W' 7) = ''abc''"
proof -
  have i: "conn_inv (\<lambda>k. k) {0} 7 (sample_io 7 ''abc'')"
    by (rule sample_conn_inv) (simp_all add: bit_iff_odd)
  from conn_flush_completes [OF list_ctl_documented i, of "write_upto 1" 3] write_upto_ok [of 1]
  show ?thesis by auto
qed

text \<open>
  C28: the half-close after a drain never happens.  \<open>shutdown()\<close> with bytes waiting leaves the
  socket open so that \<open>handleWrite\<close> can shut it down when they are written; but its test
  \<open>!state_ == kDisconnecting\<close> compares a truth value and is never true.  Everything is written, the
  connection is \<open>kDisconnecting\<close>, and the write side stays open however many events follow.
\<close>

theorem conn_shutdown_never_half_closes:
  assumes "epoll_documented ctl view" and "conn_inv view P o1 W"
    and "c_state (conns W o1) = kConnected" and "contents (outputBuffer (conns W o1)) \<noteq> []"
    and "wr_shut (conns W o1) = False" and "tid = threadId W"
    and "write_documented w" and "eager_write w" and "length (contents (outputBuffer (conns W o1))) \<le> n"
  shows "\<exists>W1 W2. conn_shutdown (conn_task ctl w mem other) tid o1 W = Inr W1
    \<and> drain_n (\<lambda>w. handleWrite ctl w o1) n w W1 = Inr W2 \<and> contents (outputBuffer (conns W2 o1)) = []
    \<and> c_state (conns W2 o1) = kDisconnecting \<and> \<not> wr_shut (conns W2 o1)"
proof -
  let ?W1 = "setState kDisconnecting o1 W"
  have inv: "conn_inv view P o1 ?W1" using assms(2) by (simp add: conn_inv_def conn_channel_def)
  then have "isWriting (conn_channel o1 ?W1)" using assms(4) by (simp add: conn_inv_def)
  then have "conn_shutdown (conn_task ctl w mem other) tid o1 W = Inr ?W1"
    using assms(3,6) by (simp add: conn_shutdown_def runInLoop_def isInLoopThread_def shutdownInLoop_def)
  moreover obtain W2 where "drain_n (\<lambda>w. handleWrite ctl w o1) n w ?W1 = Inr W2"
      "c_state (conns W2 o1) = kDisconnecting" "wr_shut (conns W2 o1) = False"
      "contents (outputBuffer (conns W2 o1)) = []"
    using strm.drains [of ctl view P o1 ?W1 kDisconnecting False w n] assms inv by auto
  ultimately show ?thesis by blast
qed

lemma conn_shutdown_never_half_closes_witness:
  "\<exists>W1 W2. conn_shutdown (conn_task list_ctl (write_upto 9) (\<lambda>_. None) (\<lambda>_. Inr)) 1 7 (sample_io 7 ''bye'') = Inr W1
    \<and> drain_n (\<lambda>w. handleWrite list_ctl w 7) 5 (write_upto 9) W1 = Inr W2 \<and> \<not> wr_shut (conns W2 7)"
proof -
  have i: "conn_inv (\<lambda>k. k) {0} 7 (sample_io 7 ''bye'')"
    by (rule sample_conn_inv) (simp_all add: bit_iff_odd)
  from conn_shutdown_never_half_closes [OF list_ctl_documented i, of 1 "write_upto 9" 5 "\<lambda>_. None" "\<lambda>_. Inr"] write_upto_ok [of 9]
  show ?thesis by simp blast
qed

text \<open>
  The write-complete callback.  The writable event that lets the last waiting byte through
  queues the callback exactly once, if it is set, and nothing else; one that leaves bytes behind
  queues nothing and keeps the channel watched for output.
\<close>

theorem conn_write_complete:
  assumes "epoll_documented ctl view" and "conn_inv view P o1 W"
    and "w (contents (outputBuffer (conns W o1))) = WOk n" and "0 < n"
    and "n \<le> length (contents (outputBuffer (conns W o1)))"
  shows "\<exists>W'. handleWrite ctl w o1 W = Inr W'
    \<and> (isWriting (conn_channel o1 W') \<longleftrightarrow> n < length (contents (outputBuffer (conns W o1))))
    \<and> (n = length (contents (outputBuffer (conns W o1))) \<longrightarrow> pendingFunctors W' =
         pendingFunctors W @ (if writeCompleteCallback (conns W o1) then [WriteCompleteTask o1] else []))"
proof (cases "n = length (contents (outputBuffer (conns W o1)))")
  case True
  then have "contents (outputBuffer (conns W o1)) \<noteq> []" using assms(4) by auto
  from handleWrite_drain [where w = w, OF assms(1,2) refl this] assms(3) True
  show ?thesis by (auto simp: conn_inv_def)
next
  case False
  then show ?thesis
    using handleWrite_partial [where w = w and n = n and ctl = ctl, OF assms(2) refl assms(3,4)] assms(5)
    by (auto simp: conn_inv_def)
qed

lemma conn_write_complete_witness:
  "\<exists>W'. handleWrite list_ctl (write_upto 5) 7 (sample_io 7 ''bye'') = Inr W' \<and> pendingFunctors W' = [WriteCompleteTask 7]"
proof -
  have i: "conn_inv (\<lambda>k. k) {0} 7 (sample_io 7 ''bye'')"
    by (rule sample_conn_inv) (simp_all add: bit_iff_odd)
  from conn_write_complete [OF list_ctl_documented i, of "write_upto 5" 3] show ?thesis
    by (auto simp: write_upto_def)
qed

text \<open>
  A peer that is gone.  When the direct write of \<open>sendInLoop\<close> fails with \<open>EPIPE\<close> or
  \<open>ECONNRESET\<close>, the data is dropped and nothing at all changes: no state, no callback, no close.  The
  caller is told nothing.
\<close>

theorem conn_send_fault_drops:
  assumes "conn_inv view P o1 W" and "c_state (conns W o1) \<noteq> kDisconnected"
    and "contents (outputBuffer (conns W o1)) = []" and "w data = WErr e" and "e = EPIPE \<or> e = ECONNRESET"
  shows "sendInLoop ctl w data o1 W = Inr W"
proof -
  have "\<not> isWriting (conn_channel o1 W)" "readableBytes (outputBuffer (conns W o1)) = 0"
    using assms(1,3) by (simp_all add: conn_inv_def readable_zero_iff)
  moreover have "e \<noteq> EWOULDBLOCK" using assms(5) by (auto simp: EPIPE_def ECONNRESET_def EWOULDBLOCK_def)
  ultimately show ?thesis using assms(2,4,5) by (auto simp: sendInLoop_def send_direct_def send_queue_def Let_def)
qed

lemma conn_send_fault_drops_witness:
  "sendInLoop list_ctl (\<lambda>_. WErr EPIPE) ''lost'' 7 (sample_io 3 []) = Inr (sample_io 3 [])"
proof -
  have i: "conn_inv (\<lambda>k. k) {0} 7 (sample_io 3 [])"
    by (rule sample_conn_inv) (simp_all add: bit_iff_odd)
  show ?thesis by (rule conn_send_fault_drops [where e = EPIPE, OF i]) simp_all
qed

text \<open>
  C33: sending from another thread.  \<open>send(Buffer *)\<close> binds a copy: whenever the loop runs it,
  exactly the buffer's bytes are sent.  \<open>send(const std::string &)\<close> binds the caller's pointer: if the
  string has been released by the time the loop runs the functor, running it is undefined behaviour.
\<close>

theorem conn_send_other_thread:
  assumes "c_state (conns W o1) = kConnected" and "tid \<noteq> threadId W"
    and "buffer_inv b" and "buf \<noteq> []" and "mem addr = None"
  shows "(\<exists>b1 W1 t. send_buffer ctl w run tid b o1 W = Inr (b1, W1) \<and> contents b1 = []
       \<and> pendingFunctors W1 = pendingFunctors W @ [t]
       \<and> (\<forall>W2. conn_task ctl w mem other t W2 = sendInLoop ctl w (contents b) o1 W2))
    \<and> (\<exists>W1 t. send_string ctl w run tid addr buf o1 W = Inr W1 \<and> pendingFunctors W1 = pendingFunctors W @ [t]
       \<and> (\<forall>W2. conn_task ctl w mem other t W2 = Inl UndefinedBehaviour))"
proof -
  have "contents (retrieve (readableBytes b) b) = []"
    using retrieve_contents [OF assms(3), of "readableBytes b"] contents_length [OF assms(3)] by simp
  then have "\<exists>b1. retrieveAllAsString b = Inr (contents b, b1) \<and> contents b1 = []"
    using read_all_contents [OF assms(3)] by (simp add: retrieveAllAsString_def retrieveAsString_def)
  then have "\<exists>b1 W1 t. send_buffer ctl w run tid b o1 W = Inr (b1, W1) \<and> contents b1 = []
       \<and> pendingFunctors W1 = pendingFunctors W @ [t]
       \<and> (\<forall>W2. conn_task ctl w mem other t W2 = sendInLoop ctl w (contents b) o1 W2)"
    using assms(1,2) by (auto simp: send_buffer_def runInLoop_def isInLoopThread_def queue_defs)
  moreover have "[addr..<addr + length buf] = addr # [Suc addr..<addr + length buf]"
    using assms(4) by (intro upt_conv_Cons) simp
  then have "read_mem mem addr (length buf) = None" using assms(5) by (simp add: read_mem_def)
  then have "\<exists>W1 t. send_string ctl w run tid addr buf o1 W = Inr W1 \<and> pendingFunctors W1 = pendingFunctors W @ [t]
       \<and> (\<forall>W2. conn_task ctl w mem other t W2 = Inl UndefinedBehaviour)"
    using assms(1,2) by (auto simp: send_string_def runInLoop_def isInLoopThread_def queue_defs)
  ultimately show ?thesis by blast
qed

lemma conn_send_other_thread_witness:
  "\<exists>W1 t. send_string list_ctl (write_upto 9) (\<lambda>_. Inr) 2 4096 ''hi'' 7 (sample_io 3 []) = Inr W1
     \<and> pendingFunctors W1 = [t]
     \<and> conn_task list_ctl (write_upto 9) (\<lambda>_. None) (\<lambda>_. Inr) t W1 = Inl UndefinedBehaviour"
proof -
  have b: "buffer_inv (small_buffer [])"
    using sample_conn_inv [of "[]" 3] by (simp add: conn_inv_def bit_iff_odd)
  have "c_state (conns (sample_io 3 []) 7) = kConnected" "(2 :: int) \<noteq> threadId (sample_io 3 [])" by simp_all
  from conn_send_other_thread [OF this b, of "''hi''" "\<lambda>_. None" 4096]
  show ?thesis by simp blast
qed

text \<open>
  The high-water mark.  A chunk that joins bytes already waiting queues the high-water callback
  exactly when it takes their number from below the mark to it or above, with the new number.
\<close>

theorem conn_high_water_once:
  assumes "epoll_documented ctl view" and "conn_inv view P o1 W" and "c_state (conns W o1) \<noteq> kDisconnected"
    and "contents (outputBuffer (conns W o1)) \<noteq> []" and "data \<noteq> []" and "length data < 2 ^ 31"
    and "length (store (outputBuffer (conns W o1))) + length data \<le> vec_max_size"
  shows "\<exists>W'. sendInLoop ctl w data o1 W = Inr W' \<and> pendingFunctors W' = pendingFunctors W @
    (let old = length (contents (outputBuffer (conns W o1))); new = old + length data;
         mark = unat (highWaterMark (conns W o1)) in
     if mark \<le> new \<and> old < mark \<and> highWaterMarkCallback (conns W o1)
     then [HighWaterMarkTask o1 (of_nat new)] else [])"
proof -
  let ?ob = "outputBuffer (conns W o1)" and ?len = "of_nat (length data) :: size_t"
  have b: "buffer_inv ?ob" and wr: "isWriting (conn_channel o1 W)"
    using assms(2,4) by (simp_all add: conn_inv_def)
  have l: "unat ?len = length data" using assms(6) by (intro unat_of_nat_fits) simp
  then have pos: "0 < ?len" using assms(5) by (simp add: word_less_nat_alt)
  have old: "unat (readableBytes ?ob) = length (contents ?ob)" using contents_length [OF b] by simp
  have "length (contents ?ob) < 2 ^ 63"
    using old buffer_invD(2) [OF b] buffer_idx [OF b] by simp
  then have new: "unat (readableBytes ?ob + ?len) = length (contents ?ob) + length data"
    using old l assms(6) by (subst unat_add_fits) simp_all
  have nw: "readableBytes ?ob + ?len = of_nat (length (contents ?ob) + length data)"
    unfolding new [symmetric] by simp
  have rb: "readableBytes ?ob = of_nat (length (contents ?ob))" unfolding old [symmetric] by simp
  obtain b' where b': "buf_append data ?len ?ob = Inr b'"
    using buf_append_ok [OF b, of ?len data] l assms(6,7) by auto
  show ?thesis
    using assms(3) wr pos b' new old
    by (simp add: sendInLoop_def send_direct_def send_queue_def Let_def word_le_nat_alt word_less_nat_alt nw [symmetric] rb)
qed

lemma conn_high_water_once_witness:
  "\<exists>W'. sendInLoop list_ctl (write_upto 9) ''defg'' 7 (sample_io 7 ''abc'') = Inr W'
    \<and> pendingFunctors W' = [HighWaterMarkTask 7 7]"
proof -
  have i: "conn_inv (\<lambda>k. k) {0} 7 (sample_io 7 ''abc'')"
    by (rule sample_conn_inv) (simp_all add: bit_iff_odd)
  from conn_high_water_once [OF list_ctl_documented i, of "''defg''" "write_upto 9"]
  show ?thesis by (simp add: vec_max_size_def Let_def)
qed

text \<open>
  Establishing.  On a fresh connection \<open>connectionEstablished\<close> registers the channel for reading,
  ties it to the object, makes the connection \<open>kConnected\<close>, establishes the invariant and tells the
  user; but if the user has set no connection callback it throws \<open>bad_function_call\<close>.
\<close>

theorem conn_established:
  assumes "epoll_documented ctl view" and "poller_inv view P W" and "conns W o1 = c" and "c_chan c \<in> P"
    and "ch_index (chans W (c_chan c)) = kNew" and "ch_events (chans W (c_chan c)) = 0"
    and "buffer_inv (inputBuffer c)" and "buffer_inv (outputBuffer c)" and "contents (outputBuffer c) = []"
  shows "if connectionCallback c
    then \<exists>W'. connectionEstablished ctl o1 W = Inr W' \<and> conn_inv view P o1 W'
      \<and> c_state (conns W' o1) = kConnected \<and> ch_tie (conn_channel o1 W') = Some o1
      \<and> calls W' = calls W @ [ConnectionCall o1 kConnected]
    else connectionEstablished ctl o1 W = Inl BadFunctionCall"
proof -
  obtain W1 where W1: "enableReading ctl (c_chan c) (set_chan (c_chan c) (channel_tie o1) (setState kConnected o1 W)) = Inr W1"
      "conn_inv view P o1 W1" "conns W1 = (conns W)(o1 := c\<lparr>c_state := kConnected\<rparr>)" "calls W1 = calls W"
      "ch_tie (chans W1 (c_chan c)) = Some o1"
    using connectionEstablished_ok [OF assms] by blast
  have "connectionEstablished ctl o1 W = call_connection o1 W1"
    using W1(1) assms(3) by (simp add: connectionEstablished_def Let_def)
  moreover have "conn_inv view P o1 (W1\<lparr>calls := cs\<rparr>)" for cs
    using W1(2) by (simp add: conn_inv_def conn_channel_def)
  ultimately show ?thesis using W1 by (simp add: call_connection_def call_user_def conn_channel_def)
qed

definition new_conn_io :: "bool \<Rightarrow> (int \<rightharpoonup> epoll_event) io" where
  "new_conn_io cb = (sample_io 0 [])\<lparr>chans := (\<lambda>p. conn_channel_new 7 (int p + 3)), channels := Map.empty,
     epollfd := Map.empty, conns := (\<lambda>_. (sample_conn [])\<lparr>c_state := kConnecting, connectionCallback := cb\<rparr>)\<rparr>"

lemma conn_established_witness:
  "(\<exists>W'. connectionEstablished list_ctl 7 (new_conn_io True) = Inr W' \<and> calls W' = [ConnectionCall 7 kConnected])
   \<and> connectionEstablished list_ctl 7 (new_conn_io False) = Inl BadFunctionCall"
proof -
  have b: "buffer_inv (small_buffer [])"
    using sample_conn_inv [of "[]" 3] by (simp add: conn_inv_def bit_iff_odd)
  have p: "poller_inv (\<lambda>k. k) {0} (new_conn_io cb)" for cb
    by (rule poller_inv_init) (simp_all add: new_conn_io_def conn_channel_new_def channel_new_def index_defs)
  have c: "conns (new_conn_io cb) 7 = (sample_conn [])\<lparr>c_state := kConnecting, connectionCallback := cb\<rparr>"
    "calls (new_conn_io cb) = []"
    "ch_index (chans (new_conn_io cb) 0) = kNew" "ch_events (chans (new_conn_io cb) 0) = 0" for cb
    by (simp_all add: new_conn_io_def conn_channel_new_def channel_new_def index_defs)
  from conn_established [OF list_ctl_documented p [of True] c(1) [of True]]
    conn_established [OF list_ctl_documented p [of False] c(1) [of False]] b c
  show ?thesis by force
qed

text \<open>
  Closing.  When the peer closes, \<open>handleClose\<close> makes the connection \<open>kDisconnected\<close>, tells the
  user once and hands the connection to the close callback; the \<open>connectDestroyed\<close> that follows does
  not tell the user again, and afterwards the kernel watches nothing for the channel.
\<close>

theorem conn_close_notifies_once:
  assumes "epoll_documented ctl view" and "conn_inv view P o1 W"
    and "connectionCallback (conns W o1)" and "conn_closeCallback (conns W o1)"
  shows "\<exists>W1 W2. handleClose ctl (\<lambda>o2 W. Inr (queue_own (ConnectDestroyed o2) W)) o1 W = Inr W1
    \<and> pendingFunctors W1 = pendingFunctors W @ [ConnectDestroyed o1]
    \<and> conn_task ctl w mem other (ConnectDestroyed o1) W1 = Inr W2
    \<and> calls W2 = calls W @ [ConnectionCall o1 kDisconnected] \<and> c_state (conns W2 o1) = kDisconnected
    \<and> (\<forall>fd e. view (epollfd W2) fd \<noteq> Some (e, c_chan (conns W o1)))"
proof -
  obtain W0 where W0: "disableAll ctl (c_chan (conns W o1)) (setState kDisconnected o1 W) = Inr W0"
      "poller_inv view P W0" "conns W0 = (conns W)(o1 := (conns W o1)\<lparr>c_state := kDisconnected\<rparr>)"
      "calls W0 = calls W" "pendingFunctors W0 = pendingFunctors W"
    using disableAll_established [OF assms(1,2)] by blast
  let ?W1 = "queue_own (ConnectDestroyed o1) (W0\<lparr>calls := calls W @ [ConnectionCall o1 kDisconnected]\<rparr>)"
  have h: "handleClose ctl (\<lambda>o2 W. Inr (queue_own (ConnectDestroyed o2) W)) o1 W = Inr ?W1"
    using W0 assms(3,4) by (simp add: handleClose_def call_connection_def call_user_def)
  have "poller_inv view P ?W1" "c_chan (conns W o1) \<in> P" using W0 assms(2) by (simp_all add: conn_inv_def)
  then obtain W2 where "removeChannel ctl (c_chan (conns W o1)) ?W1 = Inr W2" "conns W2 = conns ?W1"
      "calls W2 = calls ?W1" "\<forall>fd e. view (epollfd W2) fd \<noteq> Some (e, c_chan (conns W o1))"
    using remove_forgets [OF assms(1)] by blast
  then show ?thesis using h W0 by (auto simp: connectDestroyed_def Let_def)
qed

lemma conn_close_notifies_once_witness:
  "\<exists>W1 W2. handleClose list_ctl (\<lambda>o2 W. Inr (queue_own (ConnectDestroyed o2) W)) 7 (sample_io 3 []) = Inr W1
    \<and> conn_task list_ctl (write_upto 1) (\<lambda>_. None) (\<lambda>_. Inr) (ConnectDestroyed 7) W1 = Inr W2
    \<and> calls W2 = [ConnectionCall 7 kDisconnected]"
proof -
  have i: "conn_inv (\<lambda>k. k) {0} 7 (sample_io 3 [])"
    by (rule sample_conn_inv) (simp_all add: bit_iff_odd)
  from conn_close_notifies_once [OF list_ctl_documented i, of "write_upto 1" "\<lambda>_. None" "\<lambda>_. Inr"]
  show ?thesis by simp blast
qed

text \<open>
  Reading.  When \<open>readv\<close> delivers bytes, \<open>handleRead\<close> appends exactly these to the input
  buffer and calls the message callback once; at end of file it closes the connection instead; and
  a failed \<open>readv\<close> never reaches \<open>handleError\<close>: the call does not return normally.
\<close>

theorem conn_read_dispatch:
  assumes "conn_inv view P o1 W" and "messageCallback (conns W o1)" and "readv_documented f"
    and "length (store (inputBuffer (conns W o1))) + kExtraSize \<le> vec_max_size"
  shows "case f (iov_lens (inputBuffer (conns W o1))) of
      RErr e \<Rightarrow> conn_handleRead ctl f closecb o1 W \<noteq> Inr W'
    | ROk ds \<Rightarrow> \<exists>b. contents b = contents (inputBuffer (conns W o1)) @ ds
        \<and> conn_handleRead ctl f closecb o1 W =
           (let W1 = set_conn o1 (\<lambda>c. c\<lparr>inputBuffer := b\<rparr>) W in
            if ds = [] then handleClose ctl closecb o1 W1 else Inr (W1\<lparr>calls := calls W @ [MessageCall o1]\<rparr>))"
proof (cases "f (iov_lens (inputBuffer (conns W o1)))")
  case (RErr e)
  have "buffer_inv (inputBuffer (conns W o1))" using assms(1) by (simp add: conn_inv_def)
  from readFd_error [where f = f, OF this RErr] have "conn_handleRead ctl f closecb o1 W \<noteq> Inr W'"
    by (cases "readFd f (inputBuffer (conns W o1))") (auto simp: conn_handleRead_def)
  with RErr show ?thesis by simp
next
  case (ROk ds)
  from conn_handleRead_ok [OF assms(1,3) ROk assms(4), of ctl closecb] obtain b where
    "contents b = contents (inputBuffer (conns W o1)) @ ds"
    "conn_handleRead ctl f closecb o1 W = (let W1 = set_conn o1 (\<lambda>c. c\<lparr>inputBuffer := b\<rparr>) W in
       if ds \<noteq> [] then call_user (messageCallback (conns W o1)) (MessageCall o1) W1
       else handleClose ctl closecb o1 W1)" by blast
  with ROk assms(2) show ?thesis by (auto simp: Let_def call_user_def intro!: exI [of _ b])
qed

lemma conn_read_dispatch_witness:
  "\<exists>b. contents b = ''abc'' \<and> conn_handleRead list_ctl (\<lambda>lens. ROk (take (sum_list lens) ''abc'')) (\<lambda>_. Inr) 7 (sample_io 3 [])
     = Inr ((set_conn 7 (\<lambda>c. c\<lparr>inputBuffer := b\<rparr>) (sample_io 3 []))\<lparr>calls := [MessageCall 7]\<rparr>)"
proof -
  let ?f = "\<lambda>lens. ROk (take (sum_list lens) ''abc'')"
  have i: "conn_inv (\<lambda>k. k) {0} 7 (sample_io 3 [])"
    by (rule sample_conn_inv) (simp_all add: bit_iff_odd)
  have "iov_lens (small_buffer []) = [4, 65536]"
    by (simp add: iov_lens_def small_buffer_def writeableBytes_def vsize_def kExtraSize_def)
  moreover have "readv_documented ?f" by (simp add: readv_documented_def)
  ultimately show ?thesis
    using conn_read_dispatch [OF i, of ?f list_ctl "\<lambda>_. Inr" "sample_io 3 []"]
    by (simp add: kExtraSize_def vec_max_size_def)
qed

end
