(* ===== verification/Address_Acceptor.thy ===== *)
theory Address_Acceptor
  imports TcpConnection Decimal
begin

text \<open>
  \<open>InetAddress\<close>, \<open>Socket\<close> and \<open>Acceptor\<close>: IPv4 addresses as the sources keep them (a \<open>sockaddr_in\<close> in
  network byte order on a little-endian machine), the options of a socket, and the acceptor, which
  turns readable events of the listening socket into new connections.  The answers of the system
  calls are arguments.
\<close>

section \<open>Addresses\<close>

record sockaddr_in =
  sin_family :: int
  sin_port :: "16 word"
  s_addr :: "32 word"

definition AF_INET :: int where "AF_INET = 2"

definition htons :: "16 word \<Rightarrow> 16 word" where
  "htons p = push_bit 8 p OR drop_bit 8 p"

definition addr_byte :: "nat \<Rightarrow> 32 word \<Rightarrow> nat" where
  "addr_byte i w = unat (take_bit 8 (drop_bit (8 * i) w))"

definition inet_ntop :: "32 word \<Rightarrow> string" where
  "inet_ntop w = show_nat (addr_byte 0 w) @ ''.'' @ show_nat (addr_byte 1 w) @ ''.''
     @ show_nat (addr_byte 2 w) @ ''.'' @ show_nat (addr_byte 3 w)"

text \<open>The constructor takes an IP string and does not look at it: the address is \<open>INADDR_ANY\<close>, zero.\<close>

definition InetAddress_new :: "16 word \<Rightarrow> string \<Rightarrow> sockaddr_in" where
  "InetAddress_new port ip = \<lparr>sin_family = AF_INET, sin_port = htons port, s_addr = 0\<rparr>"

text \<open>The other constructor, from a kernel's address, and the setter.\<close>

definition InetAddress_of :: "sockaddr_in \<Rightarrow> sockaddr_in" where
  [simp]: "InetAddress_of addr = addr"

definition setSockAddr :: "sockaddr_in \<Rightarrow> sockaddr_in \<Rightarrow> sockaddr_in" where
  [simp]: "setSockAddr addr a = addr"

definition toIp :: "sockaddr_in \<Rightarrow> string" where
  "toIp a = inet_ntop (s_addr a)"

definition toPort :: "sockaddr_in \<Rightarrow> 16 word" where
  "toPort a = htons (sin_port a)"

text \<open>\<open>toIpPort\<close> prints the port with \<open>sprintf\<close> behind the address; 64 bytes are all there are.\<close>

definition toIpPort :: "sockaddr_in \<Rightarrow> string res" where
  "toIpPort a =
     (let buf = inet_ntop (s_addr a); port = htons (sin_port a); s = buf @ '':'' @ show_nat (unat port) in
      if length s < 64 then Inr s else Inl UndefinedBehaviour)"

lemma htons_htons [simp]: "htons (htons p) = p"
  by (rule bit_word_eqI) (auto simp: htons_def bit_simps)

lemma addr_byte_less: "addr_byte i w < 256"
proof -
  have "unat (take_bit 8 (drop_bit (8 * i) w)) = take_bit 8 (unat (drop_bit (8 * i) w))"
    by (simp add: unsigned_take_bit_eq)
  also have "\<dots> < 2 ^ 8" by (rule take_bit_nat_less_exp)
  finally show ?thesis by (simp add: addr_byte_def)
qed

lemma addr_bytes_inj:
  assumes "\<forall>i<4. addr_byte i v = addr_byte i w"
  shows "v = w"
proof (rule bit_word_eqI)
  fix n assume "n < LENGTH(32)"
  then have "n div 8 < 4" by simp
  with assms have "addr_byte (n div 8) v = addr_byte (n div 8) w" by blast
  then have "take_bit 8 (drop_bit (8 * (n div 8)) v) = take_bit 8 (drop_bit (8 * (n div 8)) w)"
    by (simp add: addr_byte_def word_unat_eq_iff)
  then have "bit (take_bit 8 (drop_bit (8 * (n div 8)) v)) (n mod 8)
      = bit (take_bit 8 (drop_bit (8 * (n div 8)) w)) (n mod 8)" by simp
  then show "bit v n = bit w n" by (simp add: bit_take_bit_iff bit_drop_bit_eq)
qed

lemma show_nat_no_sep: "CHR ''.'' \<notin> set (show_nat n)" "CHR '':'' \<notin> set (show_nat n)"
  by (rule show_nat_no; simp add: is_digit_def)+

lemma inet_ntop_inj: "inet_ntop v = inet_ntop w \<longleftrightarrow> v = w"
proof
  assume "inet_ntop v = inet_ntop w"
  then have "addr_byte 0 v = addr_byte 0 w" "addr_byte 1 v = addr_byte 1 w"
    "addr_byte 2 v = addr_byte 2 w" "addr_byte 3 v = addr_byte 3 w"
    by (simp_all add: inet_ntop_def split_first show_nat_no_sep show_nat_inj)
  moreover have "i < 4 \<Longrightarrow> i = 0 \<or> i = 1 \<or> i = 2 \<or> i = (3 :: nat)" for i by auto
  ultimately show "v = w" by (intro addr_bytes_inj) blast
qed simp

lemma inet_ntop_no_colon: "CHR '':'' \<notin> set (inet_ntop w)"
  by (simp add: inet_ntop_def show_nat_no_sep)

lemma toIpPort_length: "length (inet_ntop w @ '':'' @ show_nat (unat (p :: 16 word))) \<le> 21"
proof -
  have b: "length (show_nat (addr_byte i w)) \<le> 3" for i w
    using addr_byte_less [of i w] by (intro show_nat_length) simp_all
  have "length (show_nat (unat p)) \<le> 5"
    using unsigned_less [of p, where ?'a = nat] by (intro show_nat_length) simp_all
  then show ?thesis
    using b [of 0 w] b [of 1 w] b [of 2 w] b [of 3 w] by (simp add: inet_ntop_def)
qed

lemma toIpPort_ok: "toIpPort a = Inr (inet_ntop (s_addr a) @ '':'' @ show_nat (unat (toPort a)))"
proof -
  have "length (inet_ntop (s_addr a) @ '':'' @ show_nat (unat (toPort a))) < 64"
    using toIpPort_length [of "s_addr a" "toPort a"] by linarith
  then show ?thesis by (simp add: toIpPort_def toPort_def Let_def)
qed

section \<open>Sockets\<close>

record sock =
  sock_fd :: int
  tcp_nodelay :: bool
  so_reuseaddr :: bool
  so_reuseport :: bool
  so_keepalive :: bool
  bound_to :: "sockaddr_in option"
  backlog :: "nat option"
  sock_wr_shut :: bool
  sock_open :: bool

definition Socket_new :: "int \<Rightarrow> sock" where
  "Socket_new fd = \<lparr>sock_fd = fd, tcp_nodelay = False, so_reuseaddr = False, so_reuseport = False,
     so_keepalive = False, bound_to = None, backlog = None, sock_wr_shut = False, sock_open = True\<rparr>"

definition Socket_destroy :: "sock \<Rightarrow> sock" where
  "Socket_destroy k = k\<lparr>sock_open := False\<rparr>"

text \<open>A refused \<open>bind\<close> or \<open>listen\<close> is a \<open>LOG_FATAL\<close>; a refused \<open>shutdown\<close> is only logged.\<close>

definition bindAddress :: "bool \<Rightarrow> sockaddr_in \<Rightarrow> sock \<Rightarrow> sock res" where
  "bindAddress bind_ok a k = (if bind_ok then Inr (k\<lparr>bound_to := Some a\<rparr>) else Inl FatalAbort)"

definition sock_listen :: "bool \<Rightarrow> sock \<Rightarrow> sock res" where
  "sock_listen listen_ok k = (if listen_ok then Inr (k\<lparr>backlog := Some 1024\<rparr>) else Inl FatalAbort)"

definition shutdownWrite :: "bool \<Rightarrow> sock \<Rightarrow> sock" where
  "shutdownWrite shutdown_ok k = (if shutdown_ok then k\<lparr>sock_wr_shut := True\<rparr> else k)"

definition setTcpNoDelay :: "bool \<Rightarrow> sock \<Rightarrow> sock" where "setTcpNoDelay on k = k\<lparr>tcp_nodelay := on\<rparr>"
definition setReuseAddr :: "bool \<Rightarrow> sock \<Rightarrow> sock" where "setReuseAddr on k = k\<lparr>so_reuseaddr := on\<rparr>"
definition setReusePort :: "bool \<Rightarrow> sock \<Rightarrow> sock" where "setReusePort on k = k\<lparr>so_reuseport := on\<rparr>"
definition setKeepAlive :: "bool \<Rightarrow> sock \<Rightarrow> sock" where "setKeepAlive on k = k\<lparr>so_keepalive := on\<rparr>"

lemmas sock_defs = Socket_new_def setTcpNoDelay_def setReuseAddr_def setReusePort_def setKeepAlive_def bindAddress_def

text \<open>What \<open>accept4\<close> gave: a descriptor with the peer's address, or an error.\<close>

datatype accept_result = AcOk int sockaddr_in | AcErr int

text \<open>\<open>peeraddr\<close> is overwritten on success only.\<close>

definition sock_accept :: "accept_result \<Rightarrow> sockaddr_in \<Rightarrow> int \<times> sockaddr_in" where
  "sock_accept r peeraddr = (case r of AcOk fd a \<Rightarrow> (fd, setSockAddr a peeraddr) | AcErr e \<Rightarrow> (- 1, peeraddr))"

section \<open>The acceptor\<close>

record acceptor =
  acceptSocket :: sock
  acceptChannel :: ptr
  newConnectionCallback :: bool
  listenning :: bool

text \<open>
  \<open>sockfd\<close> is what \<open>socket\<close> returned.  The channel of the acceptor is stored at \<open>p\<close>.
\<close>

definition createNonblocking :: "int \<Rightarrow> int res" where
  "createNonblocking sockfd = (if sockfd < 0 then Inl FatalAbort else Inr sockfd)"

definition Acceptor_new :: "int \<Rightarrow> bool \<Rightarrow> sockaddr_in \<Rightarrow> bool \<Rightarrow> ptr \<Rightarrow> ('k, 'z) io_scheme
    \<Rightarrow> (acceptor \<times> ('k, 'z) io_scheme) res" where
  "Acceptor_new sockfd bind_ok listenAddr reuseport p W =
     rbind (createNonblocking sockfd) (\<lambda>fd.
       let k = setReusePort True (setReuseAddr reuseport (Socket_new fd)) in
       rbind (bindAddress bind_ok listenAddr k) (\<lambda>k1.
         Inr (\<lparr>acceptSocket = k1, acceptChannel = p, newConnectionCallback = False, listenning = False\<rparr>,
              set_chan p (\<lambda>_. setReadCallback AcceptorHandleRead (channel_new fd)) W)))"

definition setNewConnectionCallback :: "bool \<Rightarrow> acceptor \<Rightarrow> acceptor" where
  [simp]: "setNewConnectionCallback cb A = A\<lparr>newConnectionCallback := cb\<rparr>"

definition Acceptor_destroy :: "'k epoll_ctl \<Rightarrow> acceptor \<Rightarrow> ('k, 'z) io_scheme \<Rightarrow> ('k, 'z) io_scheme res" where
  "Acceptor_destroy ctl A W = rbind (disableAll ctl (acceptChannel A) W) (channel_remove ctl (acceptChannel A))"

definition acceptor_listen :: "'k epoll_ctl \<Rightarrow> bool \<Rightarrow> acceptor \<Rightarrow> ('k, 'z) io_scheme
    \<Rightarrow> (acceptor \<times> ('k, 'z) io_scheme) res" where
  "acceptor_listen ctl listen_ok A W =
     (let A1 = A\<lparr>listenning := True\<rparr> in
      rbind (sock_listen listen_ok (acceptSocket A1)) (\<lambda>k.
      rbind (enableReading ctl (acceptChannel A1) W) (\<lambda>W1.
        Inr (A1\<lparr>acceptSocket := k\<rparr>, W1))))"

text \<open>What one readable event leads to: a new connection for the server, a descriptor closed, or a log line.\<close>

datatype accept_outcome = NewConnection int sockaddr_in | ClosedFd int | AcceptFailed bool

definition EMFILE :: int where "EMFILE = 24"

definition acceptor_handleRead :: "accept_result \<Rightarrow> acceptor \<Rightarrow> accept_outcome" where
  "acceptor_handleRead r A =
     (let peerAddr = InetAddress_new 0 ''127.0.0.1''; (connfd, peer) = sock_accept r peerAddr in
      if 0 \<le> connfd then
        (if newConnectionCallback A then NewConnection connfd peer else ClosedFd connfd)
      else AcceptFailed ((case r of AcErr e \<Rightarrow> e | _ \<Rightarrow> 0) = EMFILE))"

section \<open>Properties\<close>

text \<open>
  C40: printing addresses.  \<open>toIpPort\<close> never overruns its 64 bytes, and two addresses print alike only
  if they have the same IP and the same port, so the text identifies the endpoint.
\<close>

theorem inet_toIpPort_injective:
  "(\<exists>s. toIpPort a = Inr s \<and> length s \<le> 21)
   \<and> (toIpPort a = toIpPort b \<longleftrightarrow> s_addr a = s_addr b \<and> toPort a = toPort b)"
proof -
  have "toIpPort a = toIpPort b \<longleftrightarrow> s_addr a = s_addr b \<and> toPort a = toPort b"
    by (simp add: toIpPort_ok split_first inet_ntop_no_colon inet_ntop_inj show_nat_inj word_unat_eq_iff)
  then show ?thesis using toIpPort_ok [of a] toIpPort_length [of "s_addr a" "toPort a"] by blast
qed

text \<open>
  The port survives the two byte-order conversions, but the IP argument of the constructor is
  ignored: whatever address is asked for, the socket is bound to all interfaces.
\<close>

theorem inet_ctor_ignores_ip:
  "toPort (InetAddress_new port ip) = port \<and> toIp (InetAddress_new port ip) = ''0.0.0.0''"
proof -
  have "show_nat 0 = ''0''" by code_simp
  then show ?thesis by (simp add: toPort_def toIp_def InetAddress_new_def inet_ntop_def addr_byte_def)
qed

text \<open>
  The acceptor's options.  \<open>SO_REUSEPORT\<close> is switched on always and \<open>SO_REUSEADDR\<close> only when port
  reuse was asked for: with the default option a restarted server cannot rebind its address, and
  other processes of the user can share the port.
\<close>

theorem acceptor_options_swapped:
  assumes "0 \<le> sockfd"
  shows "\<exists>A W'. Acceptor_new sockfd True listenAddr reuseport p W = Inr (A, W')
    \<and> so_reuseport (acceptSocket A) \<and> (so_reuseaddr (acceptSocket A) \<longleftrightarrow> reuseport)
    \<and> bound_to (acceptSocket A) = Some listenAddr \<and> \<not> listenning A"
  using assms by (simp add: Acceptor_new_def createNonblocking_def sock_defs Let_def)

lemma acceptor_options_swapped_witness:
  "\<exists>A W'. Acceptor_new 5 True (InetAddress_new 80 ''10.0.0.1'') False 3 (sample_io 3 []) = Inr (A, W')
    \<and> so_reuseport (acceptSocket A) \<and> \<not> so_reuseaddr (acceptSocket A)"
  using acceptor_options_swapped [of 5 "InetAddress_new 80 ''10.0.0.1''" False 3 "sample_io 3 []"] by auto

text \<open>
  Accepting.  A readable event with an accepted descriptor is handed to the server with the
  peer's address, or closed when no callback is set: it is never leaked.  A failed accept hands
  over nothing.
\<close>

theorem acceptor_no_leak:
  assumes "\<And>fd a. r = AcOk fd a \<Longrightarrow> 0 \<le> fd"
  shows "acceptor_handleRead r A =
    (case r of AcOk fd a \<Rightarrow> if newConnectionCallback A then NewConnection fd a else ClosedFd fd
     | AcErr e \<Rightarrow> AcceptFailed (e = EMFILE))"
  using assms by (cases r) (auto simp: acceptor_handleRead_def sock_accept_def)

lemma acceptor_no_leak_witness:
  "acceptor_handleRead (AcOk 9 (InetAddress_new 80 [])) \<lparr>acceptSocket = Socket_new 5, acceptChannel = 3,
     newConnectionCallback = False, listenning = True\<rparr> = ClosedFd 9"
  using acceptor_no_leak [of "AcOk 9 (InetAddress_new 80 [])"] by simp

end
