(* ===== verification/Loop_Threads.thy ===== *)
theory Loop_Threads
  imports EventLoop Decimal
begin

text \<open>
  \<open>EventLoopThread\<close> and \<open>EventLoopThreadPool\<close>.  A loop thread is two threads meeting at \<open>loop_\<close>: the
  owner, which starts it, waits for its loop and destroys it, and the child, whose stack holds the
  loop.  Their interleavings are a step relation.  The pool hands out its loops round robin.
\<close>

section \<open>One loop thread\<close>

datatype child_pc = NotStarted | Starting | Constructed | Initialised | Published | InLoop | Returned | Ended
datatype owner_pc = OIdle | OWaiting | OGot bool | OChecked | OJoining | OGone | OUndefined

text \<open>
  \<open>el\<close> is the \<open>EventLoop\<close> on the child's stack, if it exists; \<open>loop_ptr\<close> tells whether \<open>loop_\<close> is
  non-null, and then it points to that loop.
\<close>

record ('k, 'f) loop_thread =
  loop_ptr :: bool
  exiting :: bool
  el :: "('k, 'f) eventloop option"
  child :: child_pc
  owner :: owner_pc
  init_calls :: nat

inductive elt_step :: "('k, 'f) loop_thread \<Rightarrow> ('k, 'f) loop_thread \<Rightarrow> bool" where
  start_thread: "owner s = OIdle \<Longrightarrow> elt_step s (s\<lparr>owner := OWaiting, child := Starting\<rparr>)"
| construct: "child s = Starting \<Longrightarrow> \<not> quitting L \<Longrightarrow> elt_step s (s\<lparr>el := Some L, child := Constructed\<rparr>)"
| init_callback: "child s = Constructed
    \<Longrightarrow> elt_step s (s\<lparr>init_calls := Suc (init_calls s), child := Initialised\<rparr>)"
| publish: "child s = Initialised \<Longrightarrow> elt_step s (s\<lparr>loop_ptr := True, child := Published\<rparr>)"
| got_loop: "owner s = OWaiting \<Longrightarrow> loop_ptr s \<Longrightarrow> elt_step s (s\<lparr>owner := OGot (loop_ptr s)\<rparr>)"
| enter_loop: "child s = Published \<Longrightarrow> el s = Some L
    \<Longrightarrow> elt_step s (s\<lparr>el := Some (L\<lparr>looping := True, quitting := False\<rparr>), child := InLoop\<rparr>)"
| callback_quit: "child s = InLoop \<Longrightarrow> el s = Some L
    \<Longrightarrow> elt_step s (s\<lparr>el := Some (loop_quit (threadId L) L)\<rparr>)"
| leave_loop: "child s = InLoop \<Longrightarrow> el s = Some L \<Longrightarrow> quitting L
    \<Longrightarrow> elt_step s (s\<lparr>el := Some (L\<lparr>looping := False\<rparr>), child := Returned\<rparr>)"
| clear_ptr: "child s = Returned \<Longrightarrow> elt_step s (s\<lparr>loop_ptr := False, el := None, child := Ended\<rparr>)"
| dtor_null: "owner s = OGot b \<Longrightarrow> \<not> loop_ptr s \<Longrightarrow> elt_step s (s\<lparr>exiting := True, owner := OGone\<rparr>)"
| dtor_check: "owner s = OGot b \<Longrightarrow> loop_ptr s \<Longrightarrow> elt_step s (s\<lparr>exiting := True, owner := OChecked\<rparr>)"
| dtor_quit: "owner s = OChecked \<Longrightarrow> el s = Some L \<Longrightarrow> t \<noteq> threadId L
    \<Longrightarrow> elt_step s (s\<lparr>el := Some (loop_quit t L), owner := OJoining\<rparr>)"
| dtor_quit_dangling: "owner s = OChecked \<Longrightarrow> el s = None \<Longrightarrow> elt_step s (s\<lparr>owner := OUndefined\<rparr>)"
| dtor_join: "owner s = OJoining \<Longrightarrow> child s = Ended \<Longrightarrow> elt_step s (s\<lparr>owner := OGone\<rparr>)"

inductive_cases elt_stepE: "elt_step s t"

definition elt_new :: "('k, 'f) loop_thread" where
  "elt_new = \<lparr>loop_ptr = False, exiting = False, el = None, child = NotStarted, owner = OIdle, init_calls = 0\<rparr>"

inductive elt_reachable :: "('k, 'f) loop_thread \<Rightarrow> bool" where
  elt_init: "elt_reachable elt_new"
| elt_next: "elt_reachable s \<Longrightarrow> elt_step s t \<Longrightarrow> elt_reachable t"

text \<open>The pointer is set exactly while the child is between publishing its loop and clearing it.\<close>

definition elt_inv :: "('k, 'f) loop_thread \<Rightarrow> bool" where
  "elt_inv s \<longleftrightarrow>
     (loop_ptr s \<longleftrightarrow> child s \<in> {Published, InLoop, Returned})
     \<and> (el s \<noteq> None \<longleftrightarrow> child s \<in> {Constructed, Initialised, Published, InLoop, Returned})
     \<and> init_calls s = (if child s \<in> {NotStarted, Starting, Constructed} then 0 else 1)
     \<and> (owner s = OIdle \<longleftrightarrow> child s = NotStarted)
     \<and> (owner s \<notin> {OIdle, OWaiting} \<longrightarrow> child s \<in> {Published, InLoop, Returned, Ended})
     \<and> (\<forall>b. owner s = OGot b \<longrightarrow> b)"

lemma elt_step_inv: "elt_step s t \<Longrightarrow> elt_inv s \<Longrightarrow> elt_inv t"
  by (erule elt_stepE) (auto simp: elt_inv_def)

lemma elt_reachable_inv: "elt_reachable s \<Longrightarrow> elt_inv s"
proof (induction rule: elt_reachable.induct)
  case elt_init
  then show ?case by (simp add: elt_inv_def elt_new_def)
next
  case (elt_next s t)
  then show ?case by (blast intro: elt_step_inv)
qed

section \<open>The pool\<close>

text \<open>
  \<open>'l\<close> is the type of loop addresses.  The threads are allocated with \<open>new\<close> and never stored, so the
  pool keeps only their loops.  \<open>spawn\<close> gives the loop that a thread of that name starts.
\<close>

record 'l pool =
  baseLoop :: 'l
  pool_name :: string
  pool_started :: bool
  numThreads :: c_int
  next_idx :: size_t
  loops :: "'l list"
  pool_inits :: "'l list"

definition pool_new :: "'l \<Rightarrow> string \<Rightarrow> 'l pool" where
  "pool_new l nm = \<lparr>baseLoop = l, pool_name = nm, pool_started = False, numThreads = 0, next_idx = 0,
     loops = [], pool_inits = []\<rparr>"

definition setThreadNum :: "c_int \<Rightarrow> 'l pool \<Rightarrow> 'l pool" where
  "setThreadNum n p = p\<lparr>numThreads := n\<rparr>"

definition pool_thread_name :: "string \<Rightarrow> nat \<Rightarrow> string" where
  "pool_thread_name nm i = snprintf (length nm + 32) (nm @ show_int (int i))"

text \<open>
  \<open>start\<close>: \<open>cb\<close> tells whether an initialisation callback is set; \<open>pool_inits\<close> records the loops it
  is called with, by the threads for their own loop or here for the base loop.
\<close>

definition pool_start :: "(string \<Rightarrow> 'l) \<Rightarrow> bool \<Rightarrow> 'l pool \<Rightarrow> 'l pool" where
  "pool_start spawn cb p =
     (let p1 = p\<lparr>pool_started := True\<rparr>;
          ls = map (\<lambda>i. spawn (pool_thread_name (pool_name p) i)) [0..<nat (sint (numThreads p))];
          p2 = p1\<lparr>loops := loops p1 @ ls, pool_inits := pool_inits p1 @ (if cb then ls else [])\<rparr>
      in if numThreads p = 0 \<and> cb then p2\<lparr>pool_inits := pool_inits p2 @ [baseLoop p]\<rparr> else p2)"

definition getNextLoop :: "'l pool \<Rightarrow> ('l \<times> 'l pool) res" where
  "getNextLoop p =
     (if loops p \<noteq> [] then
        rbind (vec_read (loops p) (unat (next_idx p)) 1) (\<lambda>l.
          let p1 = p\<lparr>next_idx := next_idx p + 1\<rparr> in
          Inr (hd l, if of_nat (length (loops p)) \<le> next_idx p1 then p1\<lparr>next_idx := 0\<rparr> else p1))
      else Inr (baseLoop p, p))"

definition getAllLoops :: "'l pool \<Rightarrow> 'l list" where
  "getAllLoops p = (if loops p = [] then replicate 1 (baseLoop p) else loops p)"

fun next_loops :: "nat \<Rightarrow> 'l pool \<Rightarrow> ('l list \<times> 'l pool) res" where
  "next_loops 0 p = Inr ([], p)"
| "next_loops (Suc m) p =
     rbind (getNextLoop p) (\<lambda>(l, p1). rbind (next_loops m p1) (\<lambda>(ls, p2). Inr (l # ls, p2)))"

text \<open>The index stays inside the vector; the vector itself is bounded by memory.\<close>

definition pool_inv :: "'l pool \<Rightarrow> bool" where
  "pool_inv p \<longleftrightarrow> unat (next_idx p) < max 1 (length (loops p)) \<and> length (loops p) \<le> vec_max_size"

lemma getNextLoop_ok:
  assumes "pool_inv p"
  shows "\<exists>p'. getNextLoop p = Inr (getAllLoops p ! unat (next_idx p), p') \<and> pool_inv p'
    \<and> loops p' = loops p \<and> baseLoop p' = baseLoop p
    \<and> unat (next_idx p') = Suc (unat (next_idx p)) mod length (getAllLoops p)"
proof (cases "loops p = []")
  case True
  then show ?thesis using assms by (simp add: getNextLoop_def pool_inv_def getAllLoops_def)
next
  case False
  let ?n = "length (loops p)" and ?k = "unat (next_idx p)"
  have k: "?k < ?n" "?n < 2 ^ 63" using assms False
    by (cases "loops p"; auto simp: pool_inv_def vec_max_size_def)+
  have s: "unat (next_idx p + 1) = Suc ?k" using k by (subst unat_add_fits) simp_all
  have n: "unat (of_nat ?n :: size_t) = ?n" using k by (intro unat_of_nat_fits) simp
  have r: "vec_read (loops p) ?k 1 = Inr [loops p ! ?k]"
    using k by (simp add: vec_read_def take_Suc hd_drop_conv_nth)
  have le: "of_nat ?n \<le> next_idx p + 1 \<longleftrightarrow> ?n = Suc ?k"
    using k s n by (auto simp: word_le_nat_alt)
  show ?thesis
  proof (cases "?n = Suc ?k")
    case True
    then show ?thesis using False r le assms
      by (simp add: getNextLoop_def getAllLoops_def pool_inv_def Let_def)
  next
    case neq: False
    then have "Suc ?k < ?n" using k by simp
    then show ?thesis using False r le neq assms s
      by (simp add: getNextLoop_def getAllLoops_def pool_inv_def Let_def)
  qed
qed

section \<open>Properties\<close>

text \<open>
  C34: \<open>startLoop()\<close>.  In every interleaving of owner and child, when \<open>startLoop\<close> has returned it has
  returned a non-null loop, and the child has constructed the loop and run the initialisation
  callback, exactly once; while \<open>loop_\<close> is non-null the loop it points to exists.
\<close>

theorem elt_startLoop_ready:
  assumes "elt_reachable s"
  shows "(\<forall>b. owner s = OGot b \<longrightarrow> b \<and> init_calls s = 1) \<and> (loop_ptr s \<longrightarrow> el s \<noteq> None)"
  using elt_reachable_inv [OF assms] by (auto simp: elt_inv_def)

definition started_thread :: "(unit, nat) loop_thread" where
  "started_thread = \<lparr>loop_ptr = True, exiting = False, el = Some idle_loop, child = Published, owner = OGot True,
     init_calls = 1\<rparr>"

lemma started_thread_reachable: "elt_reachable started_thread"
proof -
  let ?s0 = "elt_new :: (unit, nat) loop_thread"
  let ?s1 = "?s0\<lparr>owner := OWaiting, child := Starting\<rparr>"
  let ?s2 = "?s1\<lparr>el := Some idle_loop, child := Constructed\<rparr>"
  let ?s3 = "?s2\<lparr>init_calls := Suc (init_calls ?s2), child := Initialised\<rparr>"
  let ?s4 = "?s3\<lparr>loop_ptr := True, child := Published\<rparr>"
  have "elt_reachable ?s1" by (rule elt_next [OF elt_init start_thread]) (simp add: elt_new_def)
  then have "elt_reachable ?s2" by (rule elt_next [OF _ construct]) (simp_all add: idle_loop_def)
  then have "elt_reachable ?s3" by (rule elt_next [OF _ init_callback]) simp
  then have "elt_reachable ?s4" by (rule elt_next [OF _ publish]) simp
  then have "elt_reachable (?s4\<lparr>owner := OGot (loop_ptr ?s4)\<rparr>)" by (rule elt_next [OF _ got_loop]) simp_all
  then show ?thesis by (simp add: started_thread_def elt_new_def)
qed

lemma elt_startLoop_ready_witness:
  "owner started_thread = OGot True \<and> init_calls started_thread = 1 \<and> el started_thread \<noteq> None"
  using elt_startLoop_ready [OF started_thread_reachable] by (simp add: started_thread_def)

text \<open>
  C35: the destructor can hang.  Destroy the object after \<open>startLoop\<close> returned but before the child
  has entered \<open>loop()\<close>: the destructor's \<open>quit()\<close> is undone by \<open>loop()\<close>, so a state is reached in which the
  owner waits in \<open>join()\<close>, the child loops with \<open>quit_\<close> unset, and the only step left to anyone is a
  callback of the loop calling \<open>quit()\<close> itself.
\<close>

theorem elt_destructor_hangs:
  fixes s :: "('k, 'f) loop_thread"
  assumes "elt_reachable s" and "owner s = OGot b" and "child s = Published"
  shows "\<exists>(u :: ('k, 'f) loop_thread) L. elt_reachable u \<and> owner u = OJoining \<and> child u = InLoop \<and> el u = Some L \<and> \<not> quitting L
    \<and> (\<forall>v. elt_step u v \<longrightarrow> v = u\<lparr>el := Some (loop_quit (threadId L) L)\<rparr>)"
proof -
  have "loop_ptr s" "el s \<noteq> None" using elt_reachable_inv [OF assms(1)] assms(3) by (simp_all add: elt_inv_def)
  then obtain L where L: "el s = Some L" by blast
  define s1 where "s1 = s\<lparr>exiting := True, owner := OChecked\<rparr>"
  define s2 where "s2 = s1\<lparr>el := Some (loop_quit (threadId L + 1) L), owner := OJoining\<rparr>"
  define L2 where "L2 = (loop_quit (threadId L + 1) L)\<lparr>looping := True, quitting := False\<rparr>"
  define u where "u = s2\<lparr>el := Some L2, child := InLoop\<rparr>"
  have "elt_reachable s1" unfolding s1_def by (rule elt_next [OF assms(1) dtor_check [OF assms(2) \<open>loop_ptr s\<close>]])
  then have "elt_reachable s2"
    unfolding s2_def by (rule elt_next [OF _ dtor_quit]) (simp_all add: s1_def L)
  then have r: "elt_reachable u"
    unfolding u_def L2_def by (rule elt_next [OF _ enter_loop]) (simp_all add: s2_def s1_def assms(3))
  have u: "owner u = OJoining" "child u = InLoop" "el u = Some L2" "\<not> quitting L2"
    by (simp_all add: u_def s2_def L2_def)
  have "v = u\<lparr>el := Some (loop_quit (threadId L2) L2)\<rparr>" if "elt_step u v" for v
    using that by (rule elt_stepE) (use u in auto)
  with r u show ?thesis by blast
qed

lemma elt_destructor_hangs_witness:
  "\<exists>u :: (unit, nat) loop_thread. elt_reachable u \<and> owner u = OJoining \<and> child u = InLoop"
  using elt_destructor_hangs [OF started_thread_reachable, of True] by (auto simp: started_thread_def)

text \<open>
  Round robin.  Starting from any index in range, \<open>m\<close> calls of \<open>getNextLoop\<close> never read outside
  the vector and return the loops of \<open>getAllLoops\<close> in turn, cyclically; without threads that is the
  base loop every time.  Any window of as many calls as there are loops gets each of them once.
\<close>

theorem pool_round_robin:
  assumes "pool_inv p"
  shows "\<exists>p'. next_loops m p = Inr (map (\<lambda>j. getAllLoops p ! ((unat (next_idx p) + j) mod length (getAllLoops p))) [0..<m], p')
    \<and> pool_inv p' \<and> getAllLoops p' = getAllLoops p"
  using assms
proof (induction m arbitrary: p)
  case 0
  then show ?case by simp
next
  case (Suc m)
  let ?n = "length (getAllLoops p)" and ?k = "unat (next_idx p)"
  obtain p1 where p1: "getNextLoop p = Inr (getAllLoops p ! ?k, p1)" "pool_inv p1" "loops p1 = loops p"
      "baseLoop p1 = baseLoop p" "unat (next_idx p1) = Suc ?k mod ?n"
    using getNextLoop_ok [OF Suc.prems] by blast
  have all: "getAllLoops p1 = getAllLoops p" using p1 by (simp add: getAllLoops_def)
  obtain p' where p': "next_loops m p1 = Inr (map (\<lambda>j. getAllLoops p ! ((Suc ?k mod ?n + j) mod ?n)) [0..<m], p')"
      "pool_inv p'" "getAllLoops p' = getAllLoops p"
    using Suc.IH [OF p1(2)] p1(5) all by auto
  have "?k < ?n" using Suc.prems by (auto simp: pool_inv_def getAllLoops_def max_def split: if_splits)
  then have "map (\<lambda>j. getAllLoops p ! ((?k + j) mod ?n)) [0..<Suc m]
      = getAllLoops p ! ?k # map (\<lambda>j. getAllLoops p ! ((Suc ?k mod ?n + j) mod ?n)) [0..<m]"
    by (simp add: upt_conv_Cons map_Suc_upt [symmetric] mod_add_left_eq del: upt_Suc)
  with p1(1) p' show ?case by simp
qed

lemma pool_round_robin_witness:
  "\<exists>p'. next_loops 5 ((pool_new 0 ''srv'')\<lparr>loops := [10, 11, 12 :: nat]\<rparr>) = Inr ([10, 11, 12, 10, 11], p')"
proof -
  let ?p = "(pool_new 0 ''srv'')\<lparr>loops := [10, 11, 12 :: nat]\<rparr>"
  have "pool_inv ?p" by (simp add: pool_inv_def pool_new_def vec_max_size_def)
  from pool_round_robin [OF this, of 5] obtain p' where
    "next_loops 5 ?p = Inr (map (\<lambda>j. getAllLoops ?p ! ((unat (next_idx ?p) + j) mod length (getAllLoops ?p))) [0..<5], p')"
    by blast
  then show ?thesis by (simp add: getAllLoops_def pool_new_def upt_rec)
qed

text \<open>
  Starting the pool.  With \<open>n > 0\<close> threads the pool gains \<open>n\<close> loops, of threads named by the pool
  and their number without truncation, pairwise different; the initialisation callback runs once per
  loop of the pool, or once for the base loop when there are no threads.
\<close>

theorem pool_start_loops:
  assumes "loops p = []" and "pool_inits p = []" and "inj spawn"
  shows "loops (pool_start spawn True p) = map (\<lambda>i. spawn (pool_name p @ show_nat i)) [0..<nat (sint (numThreads p))]
    \<and> distinct (loops (pool_start spawn True p))
    \<and> (0 \<le> sint (numThreads p) \<longrightarrow> pool_inits (pool_start spawn True p) = getAllLoops (pool_start spawn True p))"
proof -
  have "i < 10 ^ 10" if "i < nat (sint (numThreads p))" for i
    using that sint_lt [of "numThreads p"] by simp
  then have "length (show_nat i) \<le> 10" if "i < nat (sint (numThreads p))" for i
    using that by (intro show_nat_length) simp_all
  then have n: "pool_thread_name (pool_name p) i = pool_name p @ show_nat i" if "i < nat (sint (numThreads p))" for i
    using that le_trans [of "length (show_nat i)" 10 31] by (simp add: pool_thread_name_def show_int_def snprintf_def)
  have l: "loops (pool_start spawn True p) = map (\<lambda>i. spawn (pool_name p @ show_nat i)) [0..<nat (sint (numThreads p))]"
    using assms(1) n by (auto simp: pool_start_def Let_def)
  moreover have "inj_on (\<lambda>i. spawn (pool_name p @ show_nat i)) A" for A
    by (simp add: inj_on_def inj_eq [OF assms(3)] show_nat_inj)
  ultimately have "distinct (loops (pool_start spawn True p))" by (simp add: distinct_map)
  moreover have "pool_inits (pool_start spawn True p) = getAllLoops (pool_start spawn True p)" if "0 \<le> sint (numThreads p)"
  proof (cases "numThreads p = 0")
    case False
    then have "sint (numThreads p) \<noteq> 0" by (simp add: signed_eq_0_iff)
    then show ?thesis using False that assms by (simp add: pool_start_def getAllLoops_def Let_def)
  qed (use assms in \<open>simp add: pool_start_def getAllLoops_def Let_def\<close>)
  ultimately show ?thesis using l by blast
qed

lemma pool_start_loops_witness:
  "loops (pool_start (\<lambda>s. s) True (setThreadNum 2 (pool_new ''base'' ''srv''))) = [''srv0'', ''srv1'']"
proof -
  let ?p = "setThreadNum 2 (pool_new ''base'' ''srv'')"
  have "loops (pool_start (\<lambda>s. s) True ?p) = map (\<lambda>i. pool_name ?p @ show_nat i) [0..<nat (sint (numThreads ?p))]"
    using pool_start_loops [of ?p "\<lambda>s. s"] by (simp add: setThreadNum_def pool_new_def)
  moreover have "show_nat 0 = ''0''" "show_nat 1 = ''1''" by code_simp+
  ultimately show ?thesis by (simp add: setThreadNum_def pool_new_def upt_rec)
qed

end
