(* ===== verification/TcpServer.thy ===== *)
theory TcpServer
  imports Address_Acceptor Loop_Threads
begin

text \<open>
  \<open>include/net/TcpServer.h\<close> and \<open>src/net/TcpServer.cpp\<close>: the server ties the acceptor, the pool of
  loops and the connections together.  \<open>ios\<close> holds the state of every loop, by the loop's address;
  a connection lives in the state of its own loop, and \<open>connections\<close> maps its name to the object.
\<close>

section \<open>State\<close>

record 'k server =
  s_loop :: nat
  s_ipPort :: string
  s_name :: string
  s_acceptor :: acceptor
  threadPool :: "nat pool"
  s_connectionCallback :: bool
  s_messageCallback :: bool
  s_writeCompleteCallback :: bool
  s_threadInitCallback :: bool
  s_started :: nat
  nextConnId :: c_int
  connections :: "string \<rightharpoonup> obj"
  ios :: "nat \<Rightarrow> 'k io"
  conn_loop :: "obj \<Rightarrow> nat"
  next_obj :: nat

definition upd_io :: "nat \<Rightarrow> ('k io \<Rightarrow> 'k io res) \<Rightarrow> 'k server \<Rightarrow> 'k server res" where
  "upd_io l f S = rbind (f (ios S l)) (\<lambda>W. Inr (S\<lparr>ios := (ios S)(l := W)\<rparr>))"

text \<open>
  \<open>runInLoop\<close> of the loop at \<open>l\<close>, called in thread \<open>tid\<close>; \<open>now\<close> is the effect of running the functor
  on the spot.
\<close>

definition run_in :: "int \<Rightarrow> nat \<Rightarrow> task \<Rightarrow> ('k server \<Rightarrow> 'k server res) \<Rightarrow> 'k server \<Rightarrow> 'k server res" where
  "run_in tid l t now S =
     (if isInLoopThread tid (ios S l) then now S else upd_io l (\<lambda>W. Inr (queueInLoop tid t W)) S)"

section \<open>Operations\<close>

definition TcpServer_new :: "bool \<Rightarrow> nat \<Rightarrow> sockaddr_in \<Rightarrow> string \<Rightarrow> bool \<Rightarrow> int \<Rightarrow> bool \<Rightarrow> ptr \<Rightarrow> nat
    \<Rightarrow> (nat \<Rightarrow> 'k io) \<Rightarrow> 'k server res" where
  "TcpServer_new loop_null l listenAddr nameArg reuseport sockfd bind_ok p heap io_states =
     (if loop_null then Inl FatalAbort
      else rbind (toIpPort listenAddr) (\<lambda>ipPort.
        rbind (Acceptor_new sockfd bind_ok listenAddr reuseport p (io_states l)) (\<lambda>(A, W).
          Inr \<lparr>s_loop = l, s_ipPort = ipPort, s_name = nameArg,
            s_acceptor = setNewConnectionCallback True A, threadPool = pool_new l nameArg,
            s_connectionCallback = False, s_messageCallback = False, s_writeCompleteCallback = False,
            s_threadInitCallback = False, s_started = 0, nextConnId = 1, connections = Map.empty,
            ios = io_states(l := W), conn_loop = (\<lambda>_. l), next_obj = heap\<rparr>)))"

text \<open>The setters of the user's callbacks.\<close>

definition server_setThreadInitCallback :: "bool \<Rightarrow> 'k server \<Rightarrow> 'k server" where
  [simp]: "server_setThreadInitCallback cb S = S\<lparr>s_threadInitCallback := cb\<rparr>"

definition server_setConnectionCallback :: "bool \<Rightarrow> 'k server \<Rightarrow> 'k server" where
  [simp]: "server_setConnectionCallback cb S = S\<lparr>s_connectionCallback := cb\<rparr>"

definition server_setMessageCallback :: "bool \<Rightarrow> 'k server \<Rightarrow> 'k server" where
  [simp]: "server_setMessageCallback cb S = S\<lparr>s_messageCallback := cb\<rparr>"

definition server_setWriteCompleteCallback :: "bool \<Rightarrow> 'k server \<Rightarrow> 'k server" where
  [simp]: "server_setWriteCompleteCallback cb S = S\<lparr>s_writeCompleteCallback := cb\<rparr>"

definition server_setThreadNum :: "c_int \<Rightarrow> 'k server \<Rightarrow> 'k server" where
  "server_setThreadNum n S = S\<lparr>threadPool := setThreadNum n (threadPool S)\<rparr>"

definition server_listen :: "'k epoll_ctl \<Rightarrow> bool \<Rightarrow> 'k server \<Rightarrow> 'k server res" where
  "server_listen ctl listen_ok S =
     rbind (acceptor_listen ctl listen_ok (s_acceptor S) (ios S (s_loop S))) (\<lambda>(A, W).
       Inr (S\<lparr>s_acceptor := A, ios := (ios S)(s_loop S := W)\<rparr>))"

definition server_start :: "'k epoll_ctl \<Rightarrow> bool \<Rightarrow> (string \<Rightarrow> nat) \<Rightarrow> int \<Rightarrow> 'k server \<Rightarrow> 'k server res" where
  "server_start ctl listen_ok spawn tid S =
     (let S1 = S\<lparr>s_started := Suc (s_started S)\<rparr> in
      if s_started S = 0 then
        run_in tid (s_loop S) AcceptorListen (server_listen ctl listen_ok)
          (S1\<lparr>threadPool := pool_start spawn (s_threadInitCallback S) (threadPool S)\<rparr>)
      else Inr S1)"

text \<open>
  The name of a new connection.  The counter is a signed \<open>int\<close>; its overflow is undefined.
\<close>

definition conn_name :: "'k server \<Rightarrow> string" where
  "conn_name S = s_name S @ snprintf 64 (''-'' @ s_ipPort S @ ''#'' @ show_int (sint (nextConnId S)))"

definition bump_conn_id :: "'k server \<Rightarrow> 'k server res" where
  "bump_conn_id S =
     (if sint (nextConnId S) = 2 ^ 31 - 1 then Inl UndefinedBehaviour
      else Inr (S\<lparr>nextConnId := nextConnId S + 1\<rparr>))"

text \<open>Creating the connection object at address \<open>o1\<close> in the loop \<open>l\<close>, and setting its callbacks.\<close>

definition make_connection :: "string \<Rightarrow> int \<Rightarrow> nat \<Rightarrow> 'k server \<Rightarrow> 'k server res" where
  "make_connection connName sockfd l S =
     (let o1 = next_obj S in
      upd_io l (\<lambda>W. rbind (TcpConnection_new connName sockfd o1 o1 W) (\<lambda>W1.
          Inr (set_conn o1 (\<lambda>c. conn_setCloseCallback True (setWriteCompleteCallback (s_writeCompleteCallback S)
            (setMessageCallback (s_messageCallback S) (setConnectionCallback (s_connectionCallback S) c)))) W1)))
        (S\<lparr>connections := (connections S)(connName \<mapsto> o1), conn_loop := (conn_loop S)(o1 := l),
           next_obj := Suc o1\<rparr>))"

definition newConnection :: "'k epoll_ctl \<Rightarrow> int \<Rightarrow> int \<Rightarrow> 'k server \<Rightarrow> 'k server res" where
  "newConnection ctl tid sockfd S =
     rbind (getNextLoop (threadPool S)) (\<lambda>(l, pl).
       let S1 = S\<lparr>threadPool := pl\<rparr>; connName = conn_name S1; o1 = next_obj S in
       rbind (bump_conn_id S1) (\<lambda>S2.
       rbind (make_connection connName sockfd l S2)
         (run_in tid l (ConnectionEstablished o1) (upd_io l (connectionEstablished ctl o1)))))"

definition removeConnectionInLoop :: "int \<Rightarrow> obj \<Rightarrow> 'k server \<Rightarrow> 'k server res" where
  "removeConnectionInLoop tid o1 S =
     (let l = conn_loop S o1 in
      upd_io l (\<lambda>W. Inr (queueInLoop tid (ConnectDestroyed o1) W))
        (S\<lparr>connections := (connections S)(c_name (conns (ios S l) o1) := None)\<rparr>))"

definition removeConnection :: "int \<Rightarrow> obj \<Rightarrow> 'k server \<Rightarrow> 'k server res" where
  "removeConnection tid o1 S =
     run_in tid (s_loop S) (RemoveConnectionInLoop o1) (removeConnectionInLoop tid o1) S"

text \<open>
  \<open>handleClose\<close> of a connection of the server: its last call, the close callback, is
  \<open>removeConnection\<close>, which also acts on the server.
\<close>

definition server_handleClose :: "'k epoll_ctl \<Rightarrow> int \<Rightarrow> obj \<Rightarrow> 'k server \<Rightarrow> 'k server res" where
  "server_handleClose ctl tid o1 S =
     rbind (upd_io (conn_loop S o1) (handleClose ctl (\<lambda>_. Inr) o1) S) (removeConnection tid o1)"

text \<open>
  The body of the destructor, over the entries of the map in the order of its iteration: the entry's pointer is reset
  and the connection destroyed in its own loop.  An entry without a pointer would be called through null.
\<close>

fun destroy_connections :: "'k epoll_ctl \<Rightarrow> int \<Rightarrow> string list \<Rightarrow> 'k server \<Rightarrow> 'k server res" where
  "destroy_connections ctl tid [] S = Inr S"
| "destroy_connections ctl tid (n # ns) S =
     (case connections S n of
        None \<Rightarrow> Inl UndefinedBehaviour
      | Some o1 \<Rightarrow>
          let S1 = S\<lparr>connections := (connections S)(n := None)\<rparr> in
          rbind (run_in tid (conn_loop S1 o1) (ConnectDestroyed o1) (upd_io (conn_loop S1 o1) (connectDestroyed ctl o1)) S1)
            (destroy_connections ctl tid ns))"

text \<open>
  The destructor: its body, then the members in the reverse order of their declaration.  The map is empty by then, the
  pool's destructor does nothing to its threads, and the acceptor takes its channel out of the poller.
\<close>

definition server_destroy :: "'k epoll_ctl \<Rightarrow> int \<Rightarrow> string list \<Rightarrow> 'k server \<Rightarrow> 'k server res" where
  "server_destroy ctl tid ns S =
     rbind (destroy_connections ctl tid ns S) (\<lambda>S1. upd_io (s_loop S1) (Acceptor_destroy ctl (s_acceptor S1)) S1)"

section \<open>Names of connections\<close>

text \<open>
  Every name in the map carries a number below the counter, and the printed address leaves room for
  it, so that no name is ever truncated or used again.
\<close>

definition full_name :: "'k server \<Rightarrow> int \<Rightarrow> string" where
  "full_name S i = s_name S @ ''-'' @ s_ipPort S @ ''#'' @ show_int i"

definition names_inv :: "'k server \<Rightarrow> bool" where
  "names_inv S \<longleftrightarrow> length (s_ipPort S) \<le> 21 \<and> 1 \<le> sint (nextConnId S)
     \<and> (\<forall>n o1. connections S n = Some o1 \<longrightarrow>
          (\<exists>i. 1 \<le> i \<and> i < sint (nextConnId S) \<and> n = full_name S i \<and> o1 < next_obj S \<and> c_name (conns (ios S (conn_loop S o1)) o1) = n))
     \<and> (\<forall>m n o1. connections S m = Some o1 \<longrightarrow> connections S n = Some o1 \<longrightarrow> m = n)"

lemma full_name_inj: "full_name S i = full_name S j \<longleftrightarrow> i = j"
  by (simp add: full_name_def show_int_inj)

lemma conn_name_full:
  assumes "length (s_ipPort S) \<le> 21"
  shows "conn_name S = full_name S (sint (nextConnId S))"
proof -
  have "length (show_int (sint (nextConnId S))) \<le> Suc 10"
    using sint_ge [of "nextConnId S"] sint_lt [of "nextConnId S"] by (intro show_int_length) simp_all
  then show ?thesis using assms by (simp add: conn_name_def full_name_def snprintf_fits)
qed

lemma bump_sint:
  assumes "bump_conn_id S = Inr S'"
  shows "sint (nextConnId S') = sint (nextConnId S) + 1 \<and> S' = S\<lparr>nextConnId := nextConnId S'\<rparr>"
proof -
  have n: "sint (nextConnId S) \<noteq> 2 ^ 31 - 1" "S' = S\<lparr>nextConnId := nextConnId S + 1\<rparr>"
    using assms by (auto simp: bump_conn_id_def split: if_splits)
  moreover have "- (2 ^ 31) \<le> sint (nextConnId S) + 1" "sint (nextConnId S) + 1 < 2 ^ 31"
    using n(1) sint_ge [of "nextConnId S"] sint_lt [of "nextConnId S"] by simp_all
  then have "sint (nextConnId S + 1) = sint (nextConnId S) + 1"
    by (simp add: sint_word_ariths signed_take_bit_int_eq_self)
  ultimately show ?thesis by simp
qed

text \<open>What no step of the library does: change the name of a connection or the server's books.\<close>

definition server_frame :: "'k server \<Rightarrow> 'k server \<Rightarrow> bool" where
  "server_frame S S' \<longleftrightarrow> connections S' = connections S \<and> conn_loop S' = conn_loop S \<and> next_obj S' = next_obj S
     \<and> nextConnId S' = nextConnId S \<and> s_name S' = s_name S \<and> s_ipPort S' = s_ipPort S
     \<and> (\<forall>l q. c_name (conns (ios S' l) q) = c_name (conns (ios S l) q))"

lemma names_inv_frame: "server_frame S S' \<Longrightarrow> names_inv S \<Longrightarrow> names_inv S'"
  by (simp add: names_inv_def server_frame_def full_name_def)

lemma epoll_update_more: "epoll_update ctl op p s = Inr s' \<Longrightarrow> poller.more s' = poller.more s"
  by (auto simp: epoll_update_def Let_def split: prod.splits if_splits)

lemma change_events_more:
  assumes "change_events ctl f p s = Inr s'"
  shows "poller.more s' = poller.more s"
  using assms
  by (auto simp: change_events_def updateChannel_def Let_def rbind_eq_Inr set_index_def set_chan_def
      dest!: epoll_update_more split: if_splits)

lemma change_events_conns:
  fixes W W' :: "('k, 'z) io_scheme"
  assumes "change_events ctl f p W = Inr W'"
  shows "conns W' = conns W"
proof -
  have "poller.more W' = poller.more W" by (rule change_events_more [OF assms])
  then show ?thesis by (cases W; cases W'; simp)
qed

lemma connectionEstablished_conns:
  assumes "connectionEstablished ctl o1 W = Inr W'"
  shows "conns W' = (conns W)(o1 := (conns W o1)\<lparr>c_state := kConnected\<rparr>)"
proof -
  obtain W1 where W1: "enableReading ctl (c_chan (conns W o1)) (set_chan (c_chan (conns W o1)) (channel_tie o1)
        (setState kConnected o1 W)) = Inr W1" "call_connection o1 W1 = Inr W'"
    using assms by (auto simp: connectionEstablished_def Let_def rbind_eq_Inr)
  have "conns W' = conns W1" using W1(2) by (auto simp: call_connection_def call_user_def split: if_splits)
  also have "\<dots> = conns (setState kConnected o1 W)"
    using change_events_conns W1(1) unfolding enableReading_def by fastforce
  finally show ?thesis by (simp add: fun_eq_iff)
qed

lemma run_established_frame:
  assumes "run_in tid l (ConnectionEstablished o1) (upd_io l (connectionEstablished ctl o1)) S = Inr S'"
  shows "server_frame S S'"
proof (cases "isInLoopThread tid (ios S l)")
  case True
  then obtain W where "connectionEstablished ctl o1 (ios S l) = Inr W" "S' = S\<lparr>ios := (ios S)(l := W)\<rparr>"
    using assms by (auto simp: run_in_def upd_io_def rbind_eq_Inr)
  then show ?thesis by (auto simp: server_frame_def dest: connectionEstablished_conns)
next
  case False
  then show ?thesis using assms by (auto simp: run_in_def upd_io_def server_frame_def queue_defs)
qed

lemma TcpConnection_new_conns:
  assumes "TcpConnection_new nm fd o1 p W = Inr W'"
  shows "\<exists>c. conns W' = (conns W)(o1 := c) \<and> c_name c = nm"
  using assms by (auto simp: TcpConnection_new_def conn_new_def rbind_eq_Inr fun_eq_iff)

lemma make_connection_books:
  assumes "make_connection nm fd l S = Inr S'"
  shows "connections S' = (connections S)(nm \<mapsto> next_obj S)" "next_obj S' = Suc (next_obj S)"
    "nextConnId S' = nextConnId S" "s_name S' = s_name S" "s_ipPort S' = s_ipPort S"
    "c_name (conns (ios S' (conn_loop S' q)) q) =
       (if q = next_obj S then nm else c_name (conns (ios S (conn_loop S q)) q))"
proof -
  let ?o = "next_obj S"
  obtain W1 where W1: "TcpConnection_new nm fd ?o ?o (ios S l) = Inr W1"
      "S' = S\<lparr>connections := (connections S)(nm \<mapsto> ?o), conn_loop := (conn_loop S)(?o := l), next_obj := Suc ?o,
         ios := (ios S)(l := set_conn ?o (\<lambda>c. c\<lparr>connectionCallback := s_connectionCallback S,
            messageCallback := s_messageCallback S, writeCompleteCallback := s_writeCompleteCallback S,
            conn_closeCallback := True\<rparr>) W1)\<rparr>"
    using assms by (auto simp: make_connection_def Let_def upd_io_def rbind_eq_Inr)
  obtain c where "conns W1 = (conns (ios S l))(?o := c)" "c_name c = nm"
    using TcpConnection_new_conns [OF W1(1)] by blast
  then show "connections S' = (connections S)(nm \<mapsto> next_obj S)" "next_obj S' = Suc (next_obj S)"
    "nextConnId S' = nextConnId S" "s_name S' = s_name S" "s_ipPort S' = s_ipPort S"
    "c_name (conns (ios S' (conn_loop S' q)) q) =
       (if q = next_obj S then nm else c_name (conns (ios S (conn_loop S q)) q))"
    using W1(2) by simp_all
qed

lemma fresh_name:
  assumes "names_inv S"
  shows "connections S (conn_name S) = None"
proof (rule ccontr)
  assume "connections S (conn_name S) \<noteq> None"
  then obtain i where "i < sint (nextConnId S)" "conn_name S = full_name S i"
    using assms unfolding names_inv_def by blast
  then show False using assms by (simp add: names_inv_def conn_name_full full_name_inj)
qed

lemma add_connection_names_inv:
  assumes inv: "names_inv S" and books: "connections S' = (connections S)(conn_name S \<mapsto> next_obj S)"
    "next_obj S' = Suc (next_obj S)" "sint (nextConnId S') = sint (nextConnId S) + 1"
    "s_name S' = s_name S" "s_ipPort S' = s_ipPort S"
    "\<And>q. c_name (conns (ios S' (conn_loop S' q)) q) =
       (if q = next_obj S then conn_name S else c_name (conns (ios S (conn_loop S q)) q))"
  shows "names_inv S'"
proof -
  have f: "full_name S' i = full_name S i" for i using books by (simp add: full_name_def)
  have c: "conn_name S = full_name S (sint (nextConnId S))" using inv by (simp add: names_inv_def conn_name_full)
  have old: "connections S n = Some q \<Longrightarrow> \<exists>i. 1 \<le> i \<and> i < sint (nextConnId S) \<and> n = full_name S i \<and> q < next_obj S
      \<and> c_name (conns (ios S (conn_loop S q)) q) = n" for n q
    using inv unfolding names_inv_def by blast
  have "\<exists>i. 1 \<le> i \<and> i < sint (nextConnId S') \<and> n = full_name S' i \<and> q < next_obj S'
      \<and> c_name (conns (ios S' (conn_loop S' q)) q) = n" if "connections S' n = Some q" for n q
  proof (cases "n = conn_name S")
    case True
    then show ?thesis using that inv books c f
      by (intro exI [of _ "sint (nextConnId S)"]) (auto simp: names_inv_def)
  next
    case False
    then have "connections S n = Some q" using that books(1) by simp
    from old [OF this] obtain i where "1 \<le> i" "i < sint (nextConnId S)" "n = full_name S i" "q < next_obj S"
        "c_name (conns (ios S (conn_loop S q)) q) = n" by blast
    then show ?thesis using books f by (intro exI [of _ i]) auto
  qed
  moreover have "m = n" if "connections S' m = Some q" "connections S' n = Some q" for m n q
    using that inv books(1) old [of m q] old [of n q] unfolding names_inv_def
    by (auto split: if_splits)
  moreover have "length (s_ipPort S') \<le> 21" "1 \<le> sint (nextConnId S')"
    using inv books by (simp_all add: names_inv_def)
  ultimately show ?thesis unfolding names_inv_def by blast
qed

section \<open>A new connection in the server's own loop\<close>

lemma poller_inv_add:
  assumes "poller_inv view P s" "p \<notin> P" "ch_index ch = kNew" "\<forall>q\<in>P. ch_fd (chans s q) \<noteq> ch_fd ch"
  shows "poller_inv view (insert p P) (set_chan p (\<lambda>_. ch) s)"
proof -
  let ?s = "set_chan p (\<lambda>_. ch) s"
  have c: "q \<in> P \<Longrightarrow> chans ?s q = chans s q" for q using assms(2) by auto
  note reg = poller_inv_reg [OF assms(1)]
  have "interest ?s fd = interest s fd" for fd
    using reg(2) [of fd] c by (auto simp: interest_def split: option.split)
  then have "view (epollfd ?s) = interest ?s" using assms(1) by (simp add: poller_inv_def fun_eq_iff)
  moreover have "inj_on (\<lambda>q. ch_fd (chans ?s q)) (insert p P)"
    using assms reg(3) by (auto simp: inj_on_def)
  moreover have "\<forall>q\<in>insert p P. ch_index (chans ?s q) \<in> {kNew, kAdded, kDeleted}"
    using assms by (auto simp: poller_inv_def)
  moreover have "\<forall>q\<in>insert p P. ch_index (chans ?s q) \<noteq> kNew \<longrightarrow> channels ?s (ch_fd (chans ?s q)) = Some q"
    using assms reg(1) by auto
  moreover have "\<forall>fd q. channels ?s fd = Some q \<longrightarrow> q \<in> insert p P \<and> ch_fd (chans ?s q) = fd \<and> ch_index (chans ?s q) \<noteq> kNew"
    using reg(2) c by auto
  ultimately show ?thesis unfolding poller_inv_def by blast
qed

lemma conn_new_ok:
  "\<exists>ib ob. conn_new nm p = Inr \<lparr>c_name = nm, c_state = kConnecting, c_chan = p, connectionCallback = False,
         messageCallback = False, writeCompleteCallback = False, conn_closeCallback = False,
         highWaterMarkCallback = False, highWaterMark = 64 * 1024 * 1024, inputBuffer = ib,
         outputBuffer = ob, wire = [], wr_shut = False, keepAlive = True\<rparr>
    \<and> buffer_inv ib \<and> buffer_inv ob \<and> contents ib = [] \<and> contents ob = [] \<and> length (store ob) = 1032"
  using buffer_new_ok [of kInitialSize] by (auto simp: conn_new_def kInitialSize_def vec_max_size_def)

section \<open>Properties\<close>

text \<open>
  C20: names of connections.  While the counter does not overflow, \<open>newConnection\<close> never gives a name
  that is in use, so it never replaces a live connection; the map gains exactly the new object
  under its own name, and stays a one-to-one map of names to objects.
\<close>

theorem server_names_unique:
  assumes "names_inv S" and "newConnection ctl tid sockfd S = Inr S'"
  shows "names_inv S' \<and> connections S (conn_name S) = None
    \<and> connections S' = (connections S)(conn_name S \<mapsto> next_obj S)"
proof -
  obtain l pl S2 S3 where n: "getNextLoop (threadPool S) = Inr (l, pl)"
      "bump_conn_id (S\<lparr>threadPool := pl\<rparr>) = Inr S2"
      "make_connection (conn_name (S\<lparr>threadPool := pl\<rparr>)) sockfd l S2 = Inr S3"
      "run_in tid l (ConnectionEstablished (next_obj S)) (upd_io l (connectionEstablished ctl (next_obj S))) S3 = Inr S'"
    using assms(2) by (auto simp: newConnection_def Let_def rbind_eq_Inr)
  have cn: "conn_name (S\<lparr>threadPool := pl\<rparr>) = conn_name S" by (simp add: conn_name_def)
  obtain k where k: "sint k = sint (nextConnId S) + 1" "S2 = S\<lparr>threadPool := pl, nextConnId := k\<rparr>"
    using bump_sint [OF n(2)] by auto
  note b = make_connection_books [OF n(3)]
  have "names_inv S3" by (rule add_connection_names_inv [OF assms(1)]) (use b k cn in simp_all)
  then have "names_inv S'" using run_established_frame [OF n(4)] by (rule names_inv_frame [rotated])
  moreover have "connections S' = connections S3"
    using run_established_frame [OF n(4)] by (simp add: server_frame_def)
  ultimately show ?thesis using fresh_name [OF assms(1)] b(1) k(2) cn by simp
qed

text \<open>
  A connection in the server's own loop.  With no I/O threads, \<open>newConnection\<close> on a descriptor not
  yet registered sets the connection up completely: registered for reading, \<open>kConnected\<close>, the user
  told once.  But the callbacks default to empty functions: without \<open>setConnectionCallback\<close> it throws
  \<open>bad_function_call\<close> on the first connection.
\<close>

theorem server_new_connection:
  assumes "epoll_documented ctl view" and "poller_inv view P (ios S (s_loop S))" and "next_obj S \<notin> P"
    and "\<forall>q\<in>P. ch_fd (chans (ios S (s_loop S)) q) \<noteq> sockfd"
    and "loops (threadPool S) = []" and "baseLoop (threadPool S) = s_loop S"
    and "isInLoopThread tid (ios S (s_loop S))" and "sint (nextConnId S) < 2 ^ 31 - 1"
  shows "if s_connectionCallback S
    then \<exists>S'. newConnection ctl tid sockfd S = Inr S'
      \<and> conn_inv view (insert (next_obj S) P) (next_obj S) (ios S' (s_loop S))
      \<and> c_state (conns (ios S' (s_loop S)) (next_obj S)) = kConnected
      \<and> calls (ios S' (s_loop S)) = calls (ios S (s_loop S)) @ [ConnectionCall (next_obj S) kConnected]
    else newConnection ctl tid sockfd S = Inl BadFunctionCall"
proof -
  let ?l = "s_loop S" and ?o = "next_obj S" and ?W = "ios S (s_loop S)"
  obtain ib ob where c: "conn_new (conn_name S) ?o = Inr \<lparr>c_name = conn_name S, c_state = kConnecting, c_chan = ?o,
         connectionCallback = False, messageCallback = False, writeCompleteCallback = False, conn_closeCallback = False,
         highWaterMarkCallback = False, highWaterMark = 64 * 1024 * 1024, inputBuffer = ib,
         outputBuffer = ob, wire = [], wr_shut = False, keepAlive = True\<rparr>"
      "buffer_inv ib" "buffer_inv ob" "contents ib = []" "contents ob = []"
    using conn_new_ok by blast
  define C where "C = \<lparr>c_name = conn_name S, c_state = kConnecting, c_chan = ?o,
         connectionCallback = s_connectionCallback S, messageCallback = s_messageCallback S,
         writeCompleteCallback = s_writeCompleteCallback S, conn_closeCallback = True,
         highWaterMarkCallback = False, highWaterMark = 64 * 1024 * 1024, inputBuffer = ib,
         outputBuffer = ob, wire = [], wr_shut = False, keepAlive = True\<rparr>"
  define W1 where "W1 = set_conn ?o (\<lambda>_. C) (set_chan ?o (\<lambda>_. conn_channel_new ?o sockfd) ?W)"
  have new: "rbind (TcpConnection_new (conn_name S) sockfd ?o ?o ?W) (\<lambda>W1.
      Inr (set_conn ?o (\<lambda>c. c\<lparr>connectionCallback := s_connectionCallback S, messageCallback := s_messageCallback S,
         writeCompleteCallback := s_writeCompleteCallback S, conn_closeCallback := True\<rparr>) W1)) = Inr W1"
    by (simp add: TcpConnection_new_def c(1) W1_def C_def set_conn_def set_chan_def)
  have i: "poller_inv view (insert ?o P) W1" unfolding W1_def poller_inv_set_conn
    by (rule poller_inv_add) (use assms(2-4) in \<open>simp_all add: conn_channel_new_def channel_new_def index_defs\<close>)
  have e: "if connectionCallback C
    then \<exists>W'. connectionEstablished ctl ?o W1 = Inr W' \<and> conn_inv view (insert ?o P) ?o W'
      \<and> c_state (conns W' ?o) = kConnected \<and> ch_tie (conn_channel ?o W') = Some ?o
      \<and> calls W' = calls W1 @ [ConnectionCall ?o kConnected]
    else connectionEstablished ctl ?o W1 = Inl BadFunctionCall"
    by (rule conn_established [OF assms(1) i])
      (use c in \<open>simp_all add: W1_def C_def conn_channel_new_def channel_new_def index_defs\<close>)
  define S3 where "S3 = S\<lparr>nextConnId := nextConnId S + 1, connections := (connections S)(conn_name S \<mapsto> ?o),
     conn_loop := (conn_loop S)(?o := ?l), next_obj := Suc ?o, ios := (ios S)(?l := W1)\<rparr>"
  have g: "getNextLoop (threadPool S) = Inr (?l, threadPool S)" using assms(5,6) by (simp add: getNextLoop_def)
  have b: "bump_conn_id S = Inr (S\<lparr>nextConnId := nextConnId S + 1\<rparr>)" using assms(8) by (simp add: bump_conn_id_def)
  have m: "make_connection (conn_name S) sockfd ?l (S\<lparr>nextConnId := nextConnId S + 1\<rparr>) = Inr S3"
    using new by (simp add: make_connection_def Let_def upd_io_def S3_def)
  have t: "isInLoopThread tid W1" using assms(7) by (simp add: isInLoopThread_def W1_def)
  have s: "S\<lparr>threadPool := threadPool S\<rparr> = S" by simp
  have "newConnection ctl tid sockfd S
      = rbind (connectionEstablished ctl ?o W1) (\<lambda>W. Inr (S3\<lparr>ios := (ios S3)(?l := W)\<rparr>))"
    using t by (simp add: newConnection_def g b m Let_def run_in_def upd_io_def) (simp add: S3_def)
  moreover have "calls W1 = calls ?W" "connectionCallback C \<longleftrightarrow> s_connectionCallback S"
    by (simp_all add: W1_def C_def)
  ultimately show ?thesis using e by (auto split: if_splits)
qed

definition sample_server :: "bool \<Rightarrow> (int \<rightharpoonup> epoll_event) server" where
  "sample_server cb = \<lparr>s_loop = 0, s_ipPort = ''0.0.0.0:80'', s_name = ''web'',
     s_acceptor = \<lparr>acceptSocket = Socket_new 4, acceptChannel = 1, newConnectionCallback = True, listenning = True\<rparr>,
     threadPool = pool_new 0 ''web'', s_connectionCallback = cb, s_messageCallback = True,
     s_writeCompleteCallback = False, s_threadInitCallback = False, s_started = 1, nextConnId = 1,
     connections = Map.empty, ios = (\<lambda>_. sample_io 3 []), conn_loop = (\<lambda>_. 0), next_obj = 9\<rparr>"

lemma server_new_connection_witness:
  "(\<exists>S'. newConnection list_ctl 1 8 (sample_server True) = Inr S' \<and> c_state (conns (ios S' 0) 9) = kConnected)
   \<and> newConnection list_ctl 1 8 (sample_server False) = Inl BadFunctionCall"
proof -
  have "conn_inv (\<lambda>k. k) {0} 7 (sample_io 3 [])"
    by (rule sample_conn_inv) (simp_all add: bit_iff_odd)
  then have p: "poller_inv (\<lambda>k. k) {0} (ios (sample_server cb) (s_loop (sample_server cb)))" for cb
    by (simp add: conn_inv_def sample_server_def)
  have s: "next_obj (sample_server cb) \<notin> {0}"
    "\<forall>q\<in>{0}. ch_fd (chans (ios (sample_server cb) (s_loop (sample_server cb))) q) \<noteq> 8"
    "loops (threadPool (sample_server cb)) = []" "baseLoop (threadPool (sample_server cb)) = s_loop (sample_server cb)"
    "isInLoopThread 1 (ios (sample_server cb) (s_loop (sample_server cb)))"
    "sint (nextConnId (sample_server cb)) < 2 ^ 31 - 1" for cb
    by (simp_all add: sample_server_def sample_io_def conn_channel_new_def channel_new_def pool_new_def isInLoopThread_def)
  from server_new_connection [OF list_ctl_documented p s, of True]
    server_new_connection [OF list_ctl_documented p s, of False]
  show ?thesis by (auto simp: sample_server_def)
qed

lemma server_names_unique_witness:
  "\<exists>S'. newConnection list_ctl 2 8 (sample_server True) = Inr S' \<and> connections S' = [''web-0.0.0.0:80#1'' \<mapsto> 9]"
proof -
  have n: "names_inv (sample_server True)" by (simp add: names_inv_def sample_server_def)
  have one: "show_int 1 = ''1''" by code_simp
  obtain S' where S': "newConnection list_ctl 2 8 (sample_server True) = Inr S'"
    using conn_new_ok [of "''web-0.0.0.0:80#1''" 9] one
    by (auto simp: snprintf_def newConnection_def sample_server_def getNextLoop_def pool_new_def bump_conn_id_def make_connection_def
        upd_io_def TcpConnection_new_def run_in_def isInLoopThread_def conn_name_def Let_def)
  have "conn_name (sample_server True) = ''web-0.0.0.0:80#1''" by (simp add: conn_name_def sample_server_def) code_simp
  then show ?thesis using S' server_names_unique [OF n S'] by (simp add: sample_server_def)
qed

text \<open>
  A closed connection leaves the server.  When the peer of a connection in the map closes, the
  user is told and then: in the server's own thread the entry is erased, and no other, and the
  object's destruction is queued in its loop; in an I/O thread the removal is queued in the server's
  loop and the map is not touched from there.
\<close>

theorem server_close_removes:
  assumes "epoll_documented ctl view" and "names_inv S" and "connections S n = Some o1"
    and "conn_inv view P o1 (ios S (conn_loop S o1))"
    and "connectionCallback (conns (ios S (conn_loop S o1)) o1)"
    and "conn_closeCallback (conns (ios S (conn_loop S o1)) o1)"
  shows "\<exists>S'. server_handleClose ctl tid o1 S = Inr S'
    \<and> calls (ios S' (conn_loop S o1)) = calls (ios S (conn_loop S o1)) @ [ConnectionCall o1 kDisconnected]
    \<and> (if isInLoopThread tid (ios S (s_loop S))
       then connections S' = (connections S)(n := None)
         \<and> ConnectDestroyed o1 \<in> set (pendingFunctors (ios S' (conn_loop S o1)))
       else connections S' = connections S
         \<and> RemoveConnectionInLoop o1 \<in> set (pendingFunctors (ios S' (s_loop S))))"
proof -
  let ?l = "conn_loop S o1"
  obtain W0 where W0: "disableAll ctl (c_chan (conns (ios S ?l) o1)) (setState kDisconnected o1 (ios S ?l)) = Inr W0"
      "conns W0 = (conns (ios S ?l))(o1 := (conns (ios S ?l) o1)\<lparr>c_state := kDisconnected\<rparr>)"
      "calls W0 = calls (ios S ?l)" "threadId W0 = threadId (ios S ?l)"
    using disableAll_established [OF assms(1,4)] by blast
  let ?W1 = "W0\<lparr>calls := calls (ios S ?l) @ [ConnectionCall o1 kDisconnected]\<rparr>"
  have h: "upd_io ?l (handleClose ctl (\<lambda>_. Inr) o1) S = Inr (S\<lparr>ios := (ios S)(?l := ?W1)\<rparr>)"
    using W0 assms(5,6) by (simp add: upd_io_def handleClose_def call_connection_def call_user_def)
  have "c_name (conns (ios S ?l) o1) = n" using assms(2,3) unfolding names_inv_def by blast
  then show ?thesis
    using h W0 by (simp add: server_handleClose_def removeConnection_def run_in_def removeConnectionInLoop_def
        upd_io_def isInLoopThread_def Let_def)
qed

lemma server_close_removes_witness:
  "\<exists>S'. server_handleClose list_ctl 1 7 ((sample_server True)\<lparr>connections := [''web-0.0.0.0:80#0'' \<mapsto> 7],
      ios := (\<lambda>_. (sample_io 3 [])\<lparr>conns := (\<lambda>_. (sample_conn [])\<lparr>c_name := ''web-0.0.0.0:80#1''\<rparr>)\<rparr>),
      connections := [''web-0.0.0.0:80#1'' \<mapsto> 7], nextConnId := 2\<rparr>) = Inr S' \<and> connections S' = Map.empty"
proof -
  let ?W = "(sample_io 3 [])\<lparr>conns := (\<lambda>_. (sample_conn [])\<lparr>c_name := ''web-0.0.0.0:80#1''\<rparr>)\<rparr>"
  let ?S = "(sample_server True)\<lparr>connections := [''web-0.0.0.0:80#0'' \<mapsto> 7],
      ios := (\<lambda>_. ?W), connections := [''web-0.0.0.0:80#1'' \<mapsto> 7], nextConnId := 2\<rparr>"
  have "conn_inv (\<lambda>k. k) {0} 7 (sample_io 3 [])"
    by (rule sample_conn_inv) (simp_all add: bit_iff_odd)
  moreover have "poller_inv (\<lambda>k. k) {0} ?W \<longleftrightarrow> poller_inv (\<lambda>k. k) {0} (sample_io 3 [])"
    by (rule poller_inv_cong) simp_all
  ultimately have c: "conn_inv (\<lambda>k. k) {0} 7 (ios ?S (conn_loop ?S 7))"
    by (simp add: conn_inv_def conn_channel_def)
  have one: "show_int 1 = ''1''" by code_simp
  have n: "names_inv ?S"
    by (auto simp: names_inv_def full_name_def sample_server_def one intro!: exI [of _ 1] split: if_splits)
  from server_close_removes [OF list_ctl_documented n _ c, of "''web-0.0.0.0:80#1''" 1]
  show ?thesis by (auto simp: sample_server_def isInLoopThread_def)
qed

text \<open>
  Starting once.  The first \<open>start()\<close> in the server's thread starts the pool and puts the
  acceptor into listening with its backlog; every later \<open>start()\<close>, from any thread, only counts.
\<close>

theorem server_start_once:
  assumes "s_started S = 0" and "isInLoopThread tid (ios S (s_loop S))"
    and "server_start ctl True spawn tid S = Inr S1"
  shows "listenning (s_acceptor S1) \<and> backlog (acceptSocket (s_acceptor S1)) = Some 1024
    \<and> pool_started (threadPool S1) \<and> server_start ctl' lo spawn' tid' S1 = Inr (S1\<lparr>s_started := 2\<rparr>)"
  using assms
  by (auto simp: server_start_def run_in_def server_listen_def acceptor_listen_def sock_listen_def
      pool_start_def Let_def rbind_eq_Inr)

definition unstarted_server :: "(int \<rightharpoonup> epoll_event) server" where
  "unstarted_server = (sample_server True)\<lparr>s_started := 0,
     ios := (\<lambda>_. (sample_io 3 [])\<lparr>chans := (\<lambda>p. channel_new (int p + 3)), channels := Map.empty, epollfd := Map.empty\<rparr>)\<rparr>"

lemma server_start_once_witness:
  "\<exists>S1. server_start list_ctl True (\<lambda>_. 5) 1 unstarted_server = Inr S1
    \<and> server_start list_ctl False (\<lambda>_. 6) 2 S1 = Inr (S1\<lparr>s_started := 2\<rparr>)"
proof -
  have i: "s_started unstarted_server = 0" "isInLoopThread 1 (ios unstarted_server (s_loop unstarted_server))"
    by (simp_all add: unstarted_server_def sample_server_def isInLoopThread_def)
  have "\<exists>S1. server_start list_ctl True (\<lambda>_. 5) 1 unstarted_server = Inr S1"
    by (simp add: unstarted_server_def sample_server_def isInLoopThread_def server_start_def run_in_def
        server_listen_def acceptor_listen_def sock_listen_def enableReading_def change_events_def updateChannel_def
        epoll_update_def list_ctl_def ctl_legal_def channel_new_def index_defs pool_new_def pool_start_def Let_def)
  then obtain S1 where S1: "server_start list_ctl True (\<lambda>_. 5) 1 unstarted_server = Inr S1" by blast
  from server_start_once [OF i S1, of list_ctl False "\<lambda>_. 6" 2] S1 show ?thesis by blast
qed

end
