(* ===== verification/Connection_Life.thy ===== *)
theory Connection_Life
  imports TcpServer
begin

text \<open>
  The life of a connection, read off its state and the index of its channel: made but not yet
  established, live, closing and gone.  For every handler and every call the user can make, what it
  needs of the connection, what it leaves and what it does not touch; and sessions of such calls.
\<close>

section \<open>Phases\<close>

datatype life = Fresh | Live | Closing | Gone

definition life_of :: "conn \<Rightarrow> channel \<Rightarrow> life" where
  "life_of c ch =
     (if c_state c = kConnecting then Fresh
      else if c_state c \<noteq> kDisconnected then Live
      else if ch_index ch = kNew then Gone else Closing)"

text \<open>The channel's callbacks are those the constructor binds, and it is tied to its own connection if at all.\<close>

definition conn_bound :: "obj \<Rightarrow> channel \<Rightarrow> bool" where
  "conn_bound o1 ch \<longleftrightarrow> readCallback ch = Some (ConnHandleRead o1) \<and> writeCallback ch = Some (ConnHandleWrite o1)
     \<and> closeCallback ch = Some (ConnHandleClose o1) \<and> (ch_tied ch \<longrightarrow> ch_tie ch = Some o1)"

text \<open>
  A well-formed connection: stored with its own channel, its callbacks set, its buffers well formed,
  and the registration of the channel as the phase demands.
\<close>

definition conn_wf :: "obj \<Rightarrow> conn \<Rightarrow> channel \<Rightarrow> bool" where
  "conn_wf o1 c ch \<longleftrightarrow> c_chan c = o1 \<and> connectionCallback c \<and> messageCallback c \<and> conn_closeCallback c
     \<and> buffer_inv (inputBuffer c) \<and> buffer_inv (outputBuffer c) \<and> conn_bound o1 ch
     \<and> (case life_of c ch of
          Fresh \<Rightarrow> ch_index ch = kNew \<and> ch_events ch = 0 \<and> contents (outputBuffer c) = []
        | Live \<Rightarrow> ch_index ch = kAdded \<and> bit (ch_events ch) 0
            \<and> (bit (ch_events ch) 2 \<longleftrightarrow> contents (outputBuffer c) \<noteq> [])
        | Closing \<Rightarrow> ch_index ch \<in> {kAdded, kDeleted} \<and> ch_events ch = 0
        | Gone \<Rightarrow> ch_events ch = 0)"

lemmas life_defs = life_of_def conn_wf_def conn_bound_def

text \<open>The returned events of the channel do not matter.\<close>

lemma life_of_revents [simp]: "life_of c (ch\<lparr>ch_revents := r\<rparr>) = life_of c ch"
  by (simp add: life_of_def)

lemma conn_wf_revents [simp]: "conn_wf o1 c (ch\<lparr>ch_revents := r\<rparr>) = conn_wf o1 c ch"
  by (simp add: conn_wf_def conn_bound_def split: life.split)

section \<open>What a handler of one connection leaves alone\<close>

text \<open>The functors a handler may queue in its own loop: notices to the user, which hold the object.\<close>

definition notice :: "obj \<Rightarrow> task \<Rightarrow> bool" where
  "notice o1 t \<longleftrightarrow> t = WriteCompleteTask o1 \<or> (\<exists>n. t = HighWaterMarkTask o1 n)"

text \<open>
  \<open>W'\<close> differs from \<open>W\<close> only in connection \<open>o1\<close> and its channel, in notices queued for it, and in
  what the poller and the user have seen; the name and the bindings of \<open>o1\<close> stay.
\<close>

definition framed :: "obj \<Rightarrow> ('k, 'z) io_scheme \<Rightarrow> ('k, 'z) io_scheme \<Rightarrow> bool" where
  "framed o1 W W' \<longleftrightarrow>
     (\<forall>q. q \<noteq> o1 \<longrightarrow> conns W' q = conns W q \<and> chans W' q = chans W q)
     \<and> c_name (conns W' o1) = c_name (conns W o1) \<and> ch_fd (chans W' o1) = ch_fd (chans W o1)
     \<and> c_chan (conns W' o1) = c_chan (conns W o1)
     \<and> connectionCallback (conns W' o1) = connectionCallback (conns W o1)
     \<and> messageCallback (conns W' o1) = messageCallback (conns W o1)
     \<and> conn_closeCallback (conns W' o1) = conn_closeCallback (conns W o1)
     \<and> (conn_bound o1 (chans W o1) \<longrightarrow> conn_bound o1 (chans W' o1))
     \<and> threadId W' = threadId W \<and> wakeupChannel W' = wakeupChannel W
     \<and> (\<exists>ts. pendingFunctors W' = pendingFunctors W @ ts \<and> (\<forall>t\<in>set ts. notice o1 t))"

lemma framed_refl [simp]: "framed o1 W W"
  by (simp add: framed_def)

lemma framed_trans:
  assumes "framed o1 W1 W2" "framed o1 W2 W3"
  shows "framed o1 W1 W3"
proof -
  obtain ts where "pendingFunctors W2 = pendingFunctors W1 @ ts" "\<forall>t\<in>set ts. notice o1 t"
    using assms(1) by (auto simp: framed_def)
  moreover obtain us where "pendingFunctors W3 = pendingFunctors W2 @ us" "\<forall>t\<in>set us. notice o1 t"
    using assms(2) by (auto simp: framed_def)
  ultimately have "\<exists>vs. pendingFunctors W3 = pendingFunctors W1 @ vs \<and> (\<forall>t\<in>set vs. notice o1 t)"
    by (intro exI [of _ "ts @ us"]) auto
  then show ?thesis using assms by (simp add: framed_def)
qed

lemma wakeupChannel_queue [simp]:
  "wakeupChannel (queueInLoop tid t L) = wakeupChannel L" "wakeupChannel (queue_own u W) = wakeupChannel W"
  by (simp_all add: queue_own_def queue_defs)

lemma wakeupChannel_set [simp]:
  "wakeupChannel (set_conn o1 f W) = wakeupChannel W"
  "wakeupChannel (set_chan p g (L :: ('k, 'f, 'z) eventloop_scheme)) = wakeupChannel L"
  by (simp_all add: set_conn_def set_chan_def)

lemma framed_set_conn:
  assumes "\<And>c. c_name (f c) = c_name c" "\<And>c. c_chan (f c) = c_chan c"
    "\<And>c. connectionCallback (f c) = connectionCallback c" "\<And>c. messageCallback (f c) = messageCallback c"
    "\<And>c. conn_closeCallback (f c) = conn_closeCallback c"
  shows "framed o1 W (set_conn o1 f W)"
  using assms by (simp add: framed_def)

lemma framed_queue_own: "notice o1 t \<Longrightarrow> framed o1 W (queue_own t W)"
  by (simp add: framed_def)

lemma framed_calls: "framed o1 W (W\<lparr>calls := cs\<rparr>)"
  by (simp add: framed_def)

lemma framed_stepped:
  fixes W W' :: "('k, 'z) io_scheme"
  assumes "stepped view P o1 e i W W'"
  shows "framed o1 W W'"
proof -
  have "poller.more W' = poller.more W" using assms by (simp add: stepped_def)
  then have "wakeupChannel W' = wakeupChannel W" by (cases W; cases W'; simp)
  then show ?thesis using stepped_io [OF assms] assms by (simp add: framed_def stepped_def conn_bound_def)
qed

lemma change_events_frame:
  fixes W W' :: "('k, 'z) io_scheme"
  assumes "change_events ctl f o1 W = Inr W'"
  shows "framed o1 W W'"
proof -
  have m: "poller.more W' = poller.more W" by (rule change_events_more [OF assms])
  then have "wakeupChannel W' = wakeupChannel W" "threadId W' = threadId W" "conns W' = conns W"
    "pendingFunctors W' = pendingFunctors W"
    by (cases W; cases W'; simp)+
  moreover have "chans W' q = chans W q" if "q \<noteq> o1" for q
    using assms that
    by (auto simp: change_events_def updateChannel_def epoll_update_def Let_def rbind_eq_Inr
        split: if_splits prod.splits)
  moreover have "ch_fd (chans W' o1) = ch_fd (chans W o1) \<and> (conn_bound o1 (chans W o1) \<longrightarrow> conn_bound o1 (chans W' o1))"
    using assms
    by (auto simp: change_events_def updateChannel_def epoll_update_def Let_def rbind_eq_Inr conn_bound_def
        split: if_splits prod.splits)
  ultimately show ?thesis by (simp add: framed_def)
qed

lemma send_direct_frame:
  assumes "send_direct w ds o1 W = (n, r, f, W')"
  shows "framed o1 W W'" "f \<Longrightarrow> W' = W" "c_state (conns W' o1) = c_state (conns W o1)"
proof -
  have "framed o1 W W' \<and> (f \<longrightarrow> W' = W) \<and> c_state (conns W' o1) = c_state (conns W o1)"
    using assms
    by (auto simp: send_direct_def Let_def framed_def notice_def split: if_splits wr_result.splits)
  then show "framed o1 W W'" "f \<Longrightarrow> W' = W" "c_state (conns W' o1) = c_state (conns W o1)" by auto
qed

lemma send_queue_frame:
  assumes "send_queue ctl ds n r f o1 W = Inr W'" "c_chan (conns W o1) = o1"
  shows "framed o1 W W'"
proof (cases "\<not> f \<and> 0 < r")
  case False
  then show ?thesis using assms by (auto simp: send_queue_def)
next
  case True
  let ?c = "conns W o1"
  define W1 where "W1 = (if highWaterMark ?c \<le> readableBytes (outputBuffer ?c) + r \<and> readableBytes (outputBuffer ?c) < highWaterMark ?c
      \<and> highWaterMarkCallback ?c then queue_own (HighWaterMarkTask o1 (readableBytes (outputBuffer ?c) + r)) W else W)"
  have "rbind (buf_append (drop n ds) r (outputBuffer ?c)) (\<lambda>b. let W2 = set_conn o1 (\<lambda>c. c\<lparr>outputBuffer := b\<rparr>) W1 in
      if \<not> isWriting (conn_channel o1 W2) then enableWriting ctl (c_chan ?c) W2 else Inr W2) = Inr W'"
    using assms(1) True unfolding W1_def send_queue_def Let_def by (simp only: if_True simp_thms)
  then obtain b where b: "(let W2 = set_conn o1 (\<lambda>c. c\<lparr>outputBuffer := b\<rparr>) W1 in
      if \<not> isWriting (conn_channel o1 W2) then enableWriting ctl (c_chan ?c) W2 else Inr W2) = Inr W'"
    by (auto simp only: rbind_eq_Inr)
  have "framed o1 W W1" by (simp add: W1_def framed_queue_own notice_def)
  moreover have "framed o1 W1 (set_conn o1 (\<lambda>c. c\<lparr>outputBuffer := b\<rparr>) W1)" by (rule framed_set_conn) simp_all
  moreover have "framed o1 (set_conn o1 (\<lambda>c. c\<lparr>outputBuffer := b\<rparr>) W1) W'"
    using b assms(2) by (auto simp: Let_def enableWriting_def intro: change_events_frame split: if_splits)
  ultimately show ?thesis by (blast intro: framed_trans)
qed

lemma sendInLoop_frame:
  assumes "sendInLoop ctl w ds o1 W = Inr W'" "c_chan (conns W o1) = o1"
  shows "framed o1 W W'"
proof (cases "c_state (conns W o1) = kDisconnected")
  case True
  then show ?thesis using assms by (simp add: sendInLoop_def)
next
  case False
  obtain n r f W1 where d: "send_direct w ds o1 W = (n, r, f, W1)" by (cases "send_direct w ds o1 W") auto
  have q: "send_queue ctl ds n r f o1 W1 = Inr W'" using assms(1) False d by (simp add: sendInLoop_def)
  have f: "framed o1 W W1" by (rule send_direct_frame [OF d])
  then have "c_chan (conns W1 o1) = o1" using assms(2) by (simp add: framed_def)
  from send_queue_frame [OF q this] f show ?thesis by (blast intro: framed_trans)
qed

lemma handleWrite_frame:
  assumes "handleWrite ctl w o1 W = Inr W'" "c_chan (conns W o1) = o1"
  shows "framed o1 W W'"
proof (cases "isWriting (conn_channel o1 W)")
  case False
  then show ?thesis using assms by (simp add: handleWrite_def)
next
  case True
  let ?ob = "outputBuffer (conns W o1)"
  obtain ds r where r: "GetBufferAllAsString ?ob = Inr ds" "writeFd w ?ob = Inr r"
    using assms True by (auto simp: handleWrite_def Let_def rbind_eq_Inr)
  show ?thesis
  proof (cases "\<exists>n. r = WOk n \<and> 0 < n")
    case False
    then show ?thesis using assms True r by (auto simp: handleWrite_def Let_def split: wr_result.splits)
  next
    case True
    then obtain n where n: "r = WOk n" "0 < n" by blast
    define W1 where "W1 = set_conn o1 (\<lambda>c. c\<lparr>outputBuffer := retrieve (of_nat n) ?ob, wire := wire c @ take n ds\<rparr>) W"
    have f1: "framed o1 W W1" unfolding W1_def by (rule framed_set_conn) simp_all
    have e: "(if readableBytes (outputBuffer (conns W1 o1)) = 0 then
          rbind (disableWriting ctl (c_chan (conns W o1)) W1) (\<lambda>W2.
            Inr (if writeCompleteCallback (conns W2 o1) then queue_own (WriteCompleteTask o1) W2 else W2))
        else Inr W1) = Inr W'"
      using assms(1) \<open>isWriting (conn_channel o1 W)\<close> r n unfolding W1_def
      by (simp add: handleWrite_def Let_def cong: if_cong)
    show ?thesis
    proof (cases "readableBytes (outputBuffer (conns W1 o1)) = 0")
      case True
      then obtain W2 where W2: "disableWriting ctl o1 W1 = Inr W2"
          "W' = (if writeCompleteCallback (conns W2 o1) then queue_own (WriteCompleteTask o1) W2 else W2)"
        using e assms(2) by (auto simp: rbind_eq_Inr)
      have "framed o1 W1 W2" using W2(1) by (auto simp: disableWriting_def intro: change_events_frame)
      moreover have "framed o1 W2 W'" using W2(2) by (simp add: framed_queue_own notice_def)
      ultimately show ?thesis using f1 by (blast intro: framed_trans)
    next
      case False
      then show ?thesis using e f1 by simp
    qed
  qed
qed

section \<open>What each handler does to the phase\<close>

definition life_in :: "obj \<Rightarrow> ('k, 'z) io_scheme \<Rightarrow> life" where
  "life_in o1 W = life_of (conns W o1) (chans W o1)"

definition wf_in :: "obj \<Rightarrow> ('k, 'z) io_scheme \<Rightarrow> bool" where
  "wf_in o1 W \<longleftrightarrow> conn_wf o1 (conns W o1) (chans W o1)"

lemmas in_defs = life_in_def wf_in_def

lemma live_conn_inv:
  assumes "poller_inv view P W" "o1 \<in> P" "wf_in o1 W" "life_in o1 W = Live"
  shows "conn_inv view P o1 W" "c_state (conns W o1) \<noteq> kDisconnected" "c_state (conns W o1) \<noteq> kConnecting"
  using assms
  by (auto simp: in_defs conn_inv_def conn_wf_def conn_channel_def isWriting_bit life_of_def split: if_splits)

lemma live_again:
  assumes "conn_inv view P o1 W'" "framed o1 W W'" "wf_in o1 W"
    "c_state (conns W' o1) \<noteq> kDisconnected" "c_state (conns W' o1) \<noteq> kConnecting"
  shows "wf_in o1 W'" "life_in o1 W' = Live" "poller_inv view P W'"
  using assms
  by (auto simp: in_defs conn_inv_def conn_wf_def conn_channel_def isWriting_bit life_of_def framed_def)

text \<open>A connection whose handlers may run: registered or being closed.\<close>

definition runnable :: "('k \<Rightarrow> int \<rightharpoonup> epoll_event) \<Rightarrow> ptr set \<Rightarrow> obj \<Rightarrow> ('k, 'z) io_scheme \<Rightarrow> bool" where
  "runnable view P o1 W \<longleftrightarrow> poller_inv view P W \<and> o1 \<in> P \<and> wf_in o1 W \<and> life_in o1 W \<in> {Live, Closing}"

text \<open>The same phase, and nothing else touched.\<close>

definition same_life :: "obj \<Rightarrow> ('k, 'z) io_scheme \<Rightarrow> ('k, 'z) io_scheme \<Rightarrow> bool" where
  "same_life o1 W W' \<longleftrightarrow> framed o1 W W' \<and> life_in o1 W' = life_in o1 W"

lemma same_life_refl [simp]: "same_life o1 W W"
  by (simp add: same_life_def)

lemma same_life_trans: "same_life o1 W1 W2 \<Longrightarrow> same_life o1 W2 W3 \<Longrightarrow> same_life o1 W1 W3"
  by (auto simp: same_life_def intro: framed_trans)

lemma runnable_live:
  assumes "runnable view P o1 W" "c_state (conns W o1) \<noteq> kDisconnected"
  shows "life_in o1 W = Live" "conn_inv view P o1 W"
proof -
  show l: "life_in o1 W = Live" using assms by (auto simp: runnable_def in_defs life_of_def split: if_splits)
  then show "conn_inv view P o1 W" using assms live_conn_inv by (auto simp: runnable_def)
qed

lemma runnable_closing:
  assumes "runnable view P o1 W" "c_state (conns W o1) = kDisconnected"
  shows "life_in o1 W = Closing" "\<not> isWriting (conn_channel o1 W)"
    "ch_index (chans W o1) \<in> {kAdded, kDeleted}" "ch_events (chans W o1) = 0"
proof -
  show l: "life_in o1 W = Closing" using assms by (auto simp: runnable_def in_defs life_of_def split: if_splits)
  then show "\<not> isWriting (conn_channel o1 W)" "ch_index (chans W o1) \<in> {kAdded, kDeleted}" "ch_events (chans W o1) = 0"
    using assms by (auto simp: runnable_def in_defs conn_wf_def conn_channel_def isWriting_bit)
qed

lemma runnable_chan: "runnable view P o1 W \<Longrightarrow> c_chan (conns W o1) = o1"
  by (simp add: runnable_def in_defs conn_wf_def)

text \<open>A handler that keeps a live connection's invariant and state keeps it runnable.\<close>

lemma runnable_again:
  assumes "runnable view P o1 W" "conn_inv view P o1 W'" "framed o1 W W'"
    "c_state (conns W o1) \<noteq> kDisconnected" "c_state (conns W' o1) \<noteq> kDisconnected" "c_state (conns W' o1) \<noteq> kConnecting"
  shows "runnable view P o1 W' \<and> same_life o1 W W'"
  using assms live_again [OF assms(2,3)] runnable_live [OF assms(1,4)]
  by (simp add: runnable_def same_life_def)

lemma runnable_not_connecting: "runnable view P o1 W \<Longrightarrow> c_state (conns W o1) \<noteq> kConnecting"
  by (auto simp: runnable_def in_defs life_of_def)

lemma handleWrite_runnable:
  assumes doc: "epoll_documented ctl view" and r: "runnable view P o1 W" and w: "write_documented w"
  shows "\<exists>W'. handleWrite ctl w o1 W = Inr W' \<and> runnable view P o1 W' \<and> same_life o1 W W'"
proof (cases "c_state (conns W o1) = kDisconnected")
  case True
  then show ?thesis using r runnable_closing(2) [OF r] by (simp add: handleWrite_def)
next
  case False
  obtain W' where W': "handleWrite ctl w o1 W = Inr W'" "conn_inv view P o1 W'" "c_state (conns W' o1) = c_state (conns W o1)"
    using handleWrite_ok [OF doc runnable_live(2) [OF r False] w] by blast
  from runnable_again [OF r W'(2) handleWrite_frame [OF W'(1) runnable_chan [OF r]] False] W' False
    runnable_not_connecting [OF r] show ?thesis by simp
qed

text \<open>
  \<open>sendInLoop\<close> asks \<open>write\<close> only about its own data, and only when nothing waits to be written.  If \<open>write\<close> answers
  that the peer is gone nothing changes, and otherwise all of the data is accepted.
\<close>

definition refused_send :: "(char list \<Rightarrow> wr_result) \<Rightarrow> char list \<Rightarrow> obj \<Rightarrow> ('k, 'z) io_scheme \<Rightarrow> bool" where
  "refused_send w ds o1 W \<longleftrightarrow> \<not> isWriting (conn_channel o1 W) \<and> readableBytes (outputBuffer (conns W o1)) = 0
     \<and> (w ds = WErr EPIPE \<or> w ds = WErr ECONNRESET)"

lemma sendInLoop_runnable:
  assumes doc: "epoll_documented ctl view" and r: "runnable view P o1 W" and w: "write_documented w"
    and len: "length ds < 2 ^ 31" and room: "length (store (outputBuffer (conns W o1))) + length ds \<le> vec_max_size"
  shows "\<exists>W'. sendInLoop ctl w ds o1 W = Inr W' \<and> runnable view P o1 W' \<and> same_life o1 W W'
    \<and> length (store (outputBuffer (conns W' o1))) \<le> length (store (outputBuffer (conns W o1))) + length ds
    \<and> c_state (conns W' o1) = c_state (conns W o1)
    \<and> sent o1 W' = sent o1 W @ (if c_state (conns W o1) = kDisconnected \<or> refused_send w ds o1 W then [] else ds)"
proof (cases "c_state (conns W o1) = kDisconnected")
  case True
  then show ?thesis using r by (simp add: sendInLoop_def)
next
  case st: False
  note inv = runnable_live(2) [OF r st]
  define w' where "w' = (\<lambda>xs. if xs = ds \<and> w ds \<noteq> WErr EPIPE \<and> w ds \<noteq> WErr ECONNRESET then w ds else WErr EWOULDBLOCK)"
  have w': "write_documented w'" "peer_alive w'"
    using w by (auto simp: w'_def write_documented_def peer_alive_def EWOULDBLOCK_def EPIPE_def ECONNRESET_def)
  show ?thesis
  proof (cases "refused_send w ds o1 W")
    case True
    then have "sendInLoop ctl w ds o1 W = Inr W"
      using st by (auto simp: refused_send_def sendInLoop_def send_direct_def send_queue_def Let_def EWOULDBLOCK_def EPIPE_def ECONNRESET_def)
    then show ?thesis using r True by simp
  next
    case False
    then have "send_direct w ds o1 W = send_direct w' ds o1 W"
      by (auto simp: refused_send_def send_direct_def w'_def Let_def)
    then have e: "sendInLoop ctl w ds o1 W = sendInLoop ctl w' ds o1 W" by (simp add: sendInLoop_def)
    obtain W' where W': "sendInLoop ctl w' ds o1 W = Inr W'" "conn_inv view P o1 W'"
        "c_state (conns W' o1) = c_state (conns W o1)"
        "length (store (outputBuffer (conns W' o1))) \<le> length (store (outputBuffer (conns W o1))) + length ds"
        "sent o1 W' = sent o1 W @ ds"
      using sendInLoop_ok [OF doc inv w' len room st] by blast
    from runnable_again [OF r W'(2) sendInLoop_frame [OF W'(1) runnable_chan [OF r]] st] W' st e False
      runnable_not_connecting [OF r] show ?thesis by simp
  qed
qed

lemma set_conn_runnable:
  assumes "runnable view P o1 W"
    and "\<And>c. c_name (f c) = c_name c" "\<And>c. c_chan (f c) = c_chan c"
    "\<And>c. connectionCallback (f c) = connectionCallback c" "\<And>c. messageCallback (f c) = messageCallback c"
    "\<And>c. conn_closeCallback (f c) = conn_closeCallback c" "\<And>c. outputBuffer (f c) = outputBuffer c"
    and "c_state (f (conns W o1)) = c_state (conns W o1)
      \<or> c_state (conns W o1) \<notin> {kDisconnected, kConnecting} \<and> c_state (f (conns W o1)) \<notin> {kDisconnected, kConnecting}"
    and "buffer_inv (inputBuffer (f (conns W o1)))"
  shows "runnable view P o1 (set_conn o1 f W) \<and> same_life o1 W (set_conn o1 f W)"
proof -
  have "life_of (f (conns W o1)) ch = life_of (conns W o1) ch" for ch
    using assms(8) by (auto simp: life_of_def)
  then show ?thesis using assms framed_set_conn [of f o1 W]
    by (simp add: runnable_def same_life_def in_defs conn_wf_def split: life.splits)
qed

section \<open>Becoming live, closing and going\<close>

lemma framed_set_chan:
  fixes W :: "('k, 'z) io_scheme"
  assumes "\<And>ch. ch_fd (f ch) = ch_fd ch" "\<And>ch. conn_bound o1 ch \<Longrightarrow> conn_bound o1 (f ch)"
  shows "framed o1 W (set_chan o1 f W)"
  using assms by (simp add: framed_def)

lemma framed_setState: "framed o1 W (setState st o1 W)"
  unfolding setState_def by (rule framed_set_conn) simp_all

lemma call_connection_set:
  "connectionCallback (conns W o1) \<Longrightarrow>
     call_connection o1 W = Inr (W\<lparr>calls := calls W @ [ConnectionCall o1 (c_state (conns W o1))]\<rparr>)"
  by (simp add: call_connection_def call_user_def)

lemma wf_in_calls [simp]: "wf_in o1 (W\<lparr>calls := cs\<rparr>) = wf_in o1 W" "life_in o1 (W\<lparr>calls := cs\<rparr>) = life_in o1 W"
  by (simp_all add: in_defs)

lemma established_live:
  assumes doc: "epoll_documented ctl view" and inv: "poller_inv view P W" and o1: "o1 \<in> P"
    and wf: "wf_in o1 W" and fresh: "life_in o1 W = Fresh"
  shows "\<exists>W'. connectionEstablished ctl o1 W = Inr W' \<and> poller_inv view P W' \<and> wf_in o1 W' \<and> life_in o1 W' = Live
    \<and> framed o1 W W' \<and> pendingFunctors W' = pendingFunctors W
    \<and> calls W' = calls W @ [ConnectionCall o1 kConnected]"
proof -
  let ?c = "conns W o1" and ?ch = "chans W o1"
  let ?W0 = "set_chan o1 (channel_tie o1) (setState kConnected o1 W)"
  have c: "c_chan ?c = o1" "connectionCallback ?c" "messageCallback ?c" "conn_closeCallback ?c"
      "buffer_inv (inputBuffer ?c)" "buffer_inv (outputBuffer ?c)" "conn_bound o1 ?ch"
      "ch_index ?ch = kNew" "ch_events ?ch = 0" "contents (outputBuffer ?c) = []"
    using wf fresh by (simp_all add: in_defs conn_wf_def)
  have p0: "poller_inv view P ?W0"
    by (subst poller_inv_set_chan) (simp_all add: channel_tie_def inv)
  have i0: "ch_index (chans ?W0 o1) = kNew \<or> ch_index (chans ?W0 o1) = kDeleted"
    using c by (simp add: channel_tie_def)
  obtain W1 where W1: "enableReading ctl o1 ?W0 = Inr W1"
      "stepped view P o1 (ev_enableReading (ch_events (chans ?W0 o1))) kAdded ?W0 W1"
    using register_steps [OF doc p0 o1 i0, of ev_enableReading] by (auto simp: enableReading_def)
  note io = stepped_io [OF W1(2)]
  have f: "framed o1 W W1"
    by (rule framed_trans [OF framed_trans [OF framed_setState framed_set_chan] framed_stepped [OF W1(2)]])
      (simp_all add: channel_tie_def conn_bound_def)
  have cs: "conns W1 o1 = ?c\<lparr>c_state := kConnected\<rparr>" "poller_inv view P W1"
      "chans W1 o1 = (channel_tie o1 ?ch)\<lparr>ch_events := ev_enableReading 0, ch_index := kAdded\<rparr>"
    using io W1(2) c(9) by (simp_all add: stepped_def channel_tie_def)
  have w: "wf_in o1 W1" "life_in o1 W1 = Live"
    using c cs(1,3) by (simp_all add: in_defs conn_wf_def life_of_def bit_ev conn_bound_def channel_tie_def)
  have "connectionEstablished ctl o1 W = Inr (W1\<lparr>calls := calls W @ [ConnectionCall o1 kConnected]\<rparr>)"
    using W1(1) c(1,2) cs(1) io(2) by (simp add: connectionEstablished_def Let_def call_connection_set)
  moreover have "framed o1 W (W1\<lparr>calls := calls W @ [ConnectionCall o1 kConnected]\<rparr>)"
    by (rule framed_trans [OF f framed_calls])
  ultimately show ?thesis using w cs(2) io(3) by simp
qed

text \<open>Switching all events off: a registered channel is deleted, a deleted one is added again.\<close>

lemma disableAll_toggles:
  assumes doc: "epoll_documented ctl view" and inv: "poller_inv view P W" and p: "p \<in> P"
    and idx: "ch_index (chans W p) \<in> {kAdded, kDeleted}"
  shows "\<exists>W' i. disableAll ctl p W = Inr W' \<and> i \<in> {kAdded, kDeleted} \<and> stepped view P p 0 i W W'"
  using reregister_steps [OF doc inv p, of ev_disableAll] register_steps [OF doc inv p, of ev_disableAll] idx
  by (auto simp: disableAll_def split: if_splits)

lemma handleClose_closing:
  assumes doc: "epoll_documented ctl view" and r: "runnable view P o1 W"
  shows "\<exists>W'. handleClose ctl (\<lambda>_. Inr) o1 W = Inr W' \<and> runnable view P o1 W' \<and> life_in o1 W' = Closing
    \<and> framed o1 W W' \<and> pendingFunctors W' = pendingFunctors W
    \<and> calls W' = calls W @ [ConnectionCall o1 kDisconnected]"
proof -
  let ?c = "conns W o1" and ?W0 = "setState kDisconnected o1 W"
  have c: "c_chan ?c = o1" "connectionCallback ?c" "messageCallback ?c" "conn_closeCallback ?c"
      "buffer_inv (inputBuffer ?c)" "buffer_inv (outputBuffer ?c)" "conn_bound o1 (chans W o1)"
      "poller_inv view P W" "o1 \<in> P" "ch_index (chans W o1) \<in> {kAdded, kDeleted}"
    using r by (auto simp: runnable_def in_defs conn_wf_def split: life.splits)
  obtain W1 i where W1: "disableAll ctl o1 ?W0 = Inr W1" "i \<in> {kAdded, kDeleted}" "stepped view P o1 0 i ?W0 W1"
    using disableAll_toggles [OF doc _ c(9), of ?W0] c by auto
  note io = stepped_io [OF W1(3)]
  have f: "framed o1 W W1" by (rule framed_trans [OF framed_setState framed_stepped [OF W1(3)]])
  have cs: "conns W1 o1 = ?c\<lparr>c_state := kDisconnected\<rparr>" "poller_inv view P W1"
      "chans W1 o1 = (chans W o1)\<lparr>ch_events := 0, ch_index := i\<rparr>"
    using io W1(3) by (simp_all add: stepped_def)
  let ?W2 = "W1\<lparr>calls := calls W @ [ConnectionCall o1 kDisconnected]\<rparr>"
  have "wf_in o1 W1" "life_in o1 W1 = Closing"
    using c cs(1,3) W1(2) by (auto simp: in_defs conn_wf_def life_of_def conn_bound_def)
  then have "runnable view P o1 ?W2" "life_in o1 ?W2 = Closing" using c(9) cs(2) by (simp_all add: runnable_def)
  moreover have "handleClose ctl (\<lambda>_. Inr) o1 W = Inr ?W2"
    using W1(1) c(1,2,4) cs(1) io(2) by (simp add: handleClose_def call_connection_set)
  moreover have "framed o1 W ?W2" by (rule framed_trans [OF f framed_calls])
  ultimately show ?thesis using io(3) by simp
qed

lemma connectDestroyed_gone:
  assumes doc: "epoll_documented ctl view" and inv: "poller_inv view P W" and o1: "o1 \<in> P"
    and wf: "wf_in o1 W" and l: "life_in o1 W \<in> {Closing, Gone}"
  shows "\<exists>W'. connectDestroyed ctl o1 W = Inr W' \<and> poller_inv view P W' \<and> wf_in o1 W' \<and> life_in o1 W' = Gone
    \<and> framed o1 W W' \<and> pendingFunctors W' = pendingFunctors W \<and> calls W' = calls W"
proof -
  let ?c = "conns W o1"
  have c: "c_chan ?c = o1" "c_state ?c = kDisconnected" "ch_events (chans W o1) = 0"
    using wf l by (auto simp: in_defs conn_wf_def life_of_def split: if_splits)
  obtain W1 where W1: "removeChannel ctl o1 W = Inr W1" "stepped view P o1 (ch_events (chans W o1)) kNew W W1"
    using remove_steps [OF doc inv o1] by blast
  note io = stepped_io [OF W1(2)]
  have "conns W1 = conns W" "poller_inv view P W1" "chans W1 o1 = (chans W o1)\<lparr>ch_index := kNew\<rparr>"
    using io W1(2) by (simp_all add: stepped_def)
  then have "wf_in o1 W1" "life_in o1 W1 = Gone" "poller_inv view P W1"
    using wf c by (auto simp: in_defs conn_wf_def life_of_def conn_bound_def split: life.splits if_splits)
  moreover have "connectDestroyed ctl o1 W = Inr W1" using W1(1) c by (simp add: connectDestroyed_def Let_def)
  ultimately show ?thesis using framed_stepped [OF W1(2)] io by simp
qed

section \<open>What user code may do inside a callback\<close>

text \<open>
  A callback of the user runs in the loop's thread and may call the connection it is given.  The
  server relies only on this contract: one call returns, keeps what is kept invariant, leaves the rest
  alone, and uses at most its cost of a bounded resource.
\<close>

locale callback_code =
  fixes act :: "'a \<Rightarrow> 'w \<Rightarrow> 'w res" and invar :: "'w \<Rightarrow> bool" and same :: "'w \<Rightarrow> 'w \<Rightarrow> bool"
    and allowed :: "'a \<Rightarrow> bool" and used :: "'w \<Rightarrow> nat" and cost :: "'a \<Rightarrow> nat" and cap :: nat
  assumes same_refl: "same W W"
    and same_trans: "same W1 W2 \<Longrightarrow> same W2 W3 \<Longrightarrow> same W1 W3"
    and act_ok: "invar W \<Longrightarrow> allowed a \<Longrightarrow> used W + cost a \<le> cap
      \<Longrightarrow> \<exists>W'. act a W = Inr W' \<and> invar W' \<and> same W W' \<and> used W' \<le> used W + cost a"
begin

lemma session_ok:
  assumes "invar W" "\<forall>a\<in>set as. allowed a" "used W + sum_list (map cost as) \<le> cap"
  shows "\<exists>W'. run_all act as W = Inr W' \<and> invar W' \<and> same W W'"
  using assms
proof (induction as arbitrary: W)
  case Nil
  then show ?case by (simp add: same_refl)
next
  case (Cons a as)
  have "used W + cost a \<le> cap" using Cons.prems(3) by simp
  then obtain W1 where W1: "act a W = Inr W1" "invar W1" "same W W1" "used W1 \<le> used W + cost a"
    using act_ok [of W a] Cons.prems by auto
  then have "used W1 + sum_list (map cost as) \<le> cap" using Cons.prems(3) by simp
  then obtain W2 where "run_all act as W1 = Inr W2" "invar W2" "same W1 W2"
    using Cons.IH W1(2) Cons.prems(2) by auto
  then show ?case using W1 same_trans by auto
qed

end

text \<open>The calls: sending, shutting down, and taking bytes out of the input buffer.\<close>

datatype user_act = USend "char list \<Rightarrow> wr_result" "char list" | UShutdown | UConsume size_t

fun user_step :: "'k epoll_ctl \<Rightarrow> obj \<Rightarrow> user_act \<Rightarrow> ('k, 'z) io_scheme \<Rightarrow> ('k, 'z) io_scheme res" where
  "user_step ctl o1 (USend w ds) W = send_string ctl w (\<lambda>_. Inr) (threadId W) 0 ds o1 W"
| "user_step ctl o1 UShutdown W = conn_shutdown (conn_task ctl (\<lambda>_. WErr 0) (\<lambda>_. None) (\<lambda>_. Inr)) (threadId W) o1 W"
| "user_step ctl o1 (UConsume n) W = Inr (set_conn o1 (\<lambda>c. c\<lparr>inputBuffer := retrieve n (inputBuffer c)\<rparr>) W)"

fun user_allowed :: "user_act \<Rightarrow> bool" where
  "user_allowed (USend w ds) \<longleftrightarrow> write_documented w \<and> length ds < 2 ^ 31"
| "user_allowed _ \<longleftrightarrow> True"

fun user_cost :: "user_act \<Rightarrow> nat" where
  "user_cost (USend w ds) = length ds"
| "user_cost _ = 0"

lemma shutdownInLoop_runnable:
  assumes "runnable view P o1 W"
  shows "runnable view P o1 (shutdownInLoop o1 W) \<and> same_life o1 W (shutdownInLoop o1 W)"
proof (cases "isWriting (conn_channel o1 W)")
  case False
  have b: "buffer_inv (inputBuffer (conns W o1))" using assms by (simp add: runnable_def in_defs conn_wf_def)
  have "runnable view P o1 (set_conn o1 (\<lambda>c. c\<lparr>wr_shut := True\<rparr>) W)
      \<and> same_life o1 W (set_conn o1 (\<lambda>c. c\<lparr>wr_shut := True\<rparr>) W)"
    by (rule set_conn_runnable [OF assms]) (use b in simp_all)
  then show ?thesis using False by (simp add: shutdownInLoop_def)
qed (use assms in \<open>simp add: shutdownInLoop_def\<close>)

lemma setState_disconnecting_runnable:
  assumes "runnable view P o1 W" "c_state (conns W o1) \<in> {kConnected, kDisconnecting}"
  shows "runnable view P o1 (setState kDisconnecting o1 W) \<and> same_life o1 W (setState kDisconnecting o1 W)"
proof -
  have "buffer_inv (inputBuffer (conns W o1))" using assms(1) by (simp add: runnable_def in_defs conn_wf_def)
  then show ?thesis unfolding setState_def by (intro set_conn_runnable [OF assms(1)]) (use assms(2) in auto)
qed

lemma shutdown_runnable:
  assumes "runnable view P o1 W"
  shows "\<exists>W'. conn_shutdown (conn_task ctl w mem other) (threadId W) o1 W = Inr W' \<and> runnable view P o1 W'
    \<and> same_life o1 W W' \<and> outputBuffer (conns W' o1) = outputBuffer (conns W o1)"
proof (cases "c_state (conns W o1) = kConnected")
  case False
  then show ?thesis using assms by (simp add: conn_shutdown_def)
next
  case True
  let ?W1 = "setState kDisconnecting o1 W"
  have 1: "runnable view P o1 ?W1 \<and> same_life o1 W ?W1"
    by (rule setState_disconnecting_runnable [OF assms]) (simp add: True)
  then have 2: "runnable view P o1 (shutdownInLoop o1 ?W1) \<and> same_life o1 ?W1 (shutdownInLoop o1 ?W1)"
    using shutdownInLoop_runnable by blast
  have "conn_shutdown (conn_task ctl w mem other) (threadId W) o1 W = Inr (shutdownInLoop o1 ?W1)"
    using True by (simp add: conn_shutdown_def runInLoop_def isInLoopThread_def)
  then show ?thesis using 1 2 by (auto intro: same_life_trans simp: shutdownInLoop_def)
qed

interpretation usr: callback_code "user_step ctl o1"
  "\<lambda>W :: ('k, 'z) io_scheme. epoll_documented ctl view \<and> runnable view P o1 W" "same_life o1" user_allowed
  "\<lambda>W. length (store (outputBuffer (conns W o1)))" user_cost vec_max_size
  for ctl :: "'k epoll_ctl" and view P o1
proof unfold_locales
  fix W :: "('k, 'z) io_scheme" and a
  assume r: "epoll_documented ctl view \<and> runnable view P o1 W" and a: "user_allowed a"
    and room: "length (store (outputBuffer (conns W o1))) + user_cost a \<le> vec_max_size"
  show "\<exists>W'. user_step ctl o1 a W = Inr W' \<and> (epoll_documented ctl view \<and> runnable view P o1 W') \<and> same_life o1 W W'
      \<and> length (store (outputBuffer (conns W' o1))) \<le> length (store (outputBuffer (conns W o1))) + user_cost a"
  proof (cases a)
    case (USend w ds)
    then show ?thesis using r a room sendInLoop_runnable [of ctl view P o1 W w ds]
      by (auto simp: send_string_def isInLoopThread_def)
  next
    case UShutdown
    then show ?thesis using r shutdown_runnable [of view P o1 W ctl "\<lambda>_. WErr 0" "\<lambda>_. None" "\<lambda>_. Inr"] by auto
  next
    case (UConsume n)
    have b: "buffer_inv (retrieve n (inputBuffer (conns W o1)))"
      using r by (simp add: runnable_def in_defs conn_wf_def retrieve_inv)
    have "runnable view P o1 (set_conn o1 (\<lambda>c. c\<lparr>inputBuffer := retrieve n (inputBuffer c)\<rparr>) W)
        \<and> same_life o1 W (set_conn o1 (\<lambda>c. c\<lparr>inputBuffer := retrieve n (inputBuffer c)\<rparr>) W)"
      by (rule set_conn_runnable) (use r b in simp_all)
    then show ?thesis using UConsume r by simp
  qed
qed (auto intro: same_life_trans)

end
