(* ===== verification/Server_Steps.thy ===== *)
theory Server_Steps
  imports Connection_Life
begin

text \<open>
  What one callback or one functor does to the server, in the thread of one of its loops.  The
  invariant accounts for every connection object ever made: where it is in its life, which queue holds
  the functor that will move it on, and whether the map and the kernel know it; every step keeps it.
\<close>

section \<open>The handlers on the server\<close>

text \<open>
  \<open>TcpConnection::handleRead\<close> with the close callback the server binds, \<open>removeConnection\<close>, which acts on
  the server too.
\<close>

definition server_handleRead :: "'k epoll_ctl \<Rightarrow> int \<Rightarrow> (nat list \<Rightarrow> rd_result) \<Rightarrow> obj \<Rightarrow> 'k server \<Rightarrow> 'k server res" where
  "server_handleRead ctl tid sys_readv o1 S =
     (let l = conn_loop S o1 in
      rbind (readFd sys_readv (inputBuffer (conns (ios S l) o1))) (\<lambda>(n, savedErrno, b).
      rbind (upd_io l (\<lambda>W. Inr (set_conn o1 (\<lambda>c. c\<lparr>inputBuffer := b\<rparr>) W)) S) (\<lambda>S1.
        if 0 < sint n then
          upd_io l (\<lambda>W. call_user (messageCallback (conns W o1)) (MessageCall o1) W) S1
        else if sint n = 0 then server_handleClose ctl tid o1 S1
        else Inr S1)))"

text \<open>What the kernel answers during one callback.\<close>

record io_env =
  e_readv :: "nat list \<Rightarrow> rd_result"
  e_write :: "char list \<Rightarrow> wr_result"
  e_accept :: accept_result

text \<open>The callback of a channel, run in the thread of the loop \<open>l\<close>.\<close>

fun run_callback :: "'k epoll_ctl \<Rightarrow> nat \<Rightarrow> io_env \<Rightarrow> callback \<Rightarrow> 'k server \<Rightarrow> 'k server res" where
  "run_callback ctl l E LoopHandleRead S = upd_io l (\<lambda>W. Inr (handleWakeup W)) S"
| "run_callback ctl l E AcceptorHandleRead S =
     (case acceptor_handleRead (e_accept E) (s_acceptor S) of
        NewConnection fd peer \<Rightarrow> newConnection ctl (threadId (ios S l)) fd S
      | _ \<Rightarrow> Inr S)"
| "run_callback ctl l E (ConnHandleRead o1) S = server_handleRead ctl (threadId (ios S l)) (e_readv E) o1 S"
| "run_callback ctl l E (ConnHandleWrite o1) S = upd_io (conn_loop S o1) (handleWrite ctl (e_write E) o1) S"
| "run_callback ctl l E (ConnHandleClose o1) S = server_handleClose ctl (threadId (ios S l)) o1 S"
| "run_callback ctl l E (ConnHandleError o1) S = Inr S"

text \<open>A functor from the queue of the loop \<open>l\<close>.\<close>

fun run_task :: "'k epoll_ctl \<Rightarrow> nat \<Rightarrow> io_env \<Rightarrow> task \<Rightarrow> 'k server \<Rightarrow> 'k server res" where
  "run_task ctl l E (RemoveConnectionInLoop o1) S = removeConnectionInLoop (threadId (ios S l)) o1 S"
| "run_task ctl l E AcceptorListen S = server_listen ctl True S"
| "run_task ctl l E t S = upd_io l (conn_task ctl (e_write E) (\<lambda>_. None) (\<lambda>_. Inr) t) S"

section \<open>The invariant of the server\<close>

definition loop_set :: "'k server \<Rightarrow> nat set" where
  "loop_set S = insert (s_loop S) (set (loops (threadPool S)))"

text \<open>\<open>h\<close> is the address of the first connection object; objects are never reused.\<close>

definition created :: "nat \<Rightarrow> 'k server \<Rightarrow> obj \<Rightarrow> bool" where
  "created h S o1 \<longleftrightarrow> h \<le> o1 \<and> o1 < next_obj S"

definition obj_name :: "nat \<Rightarrow> 'k server \<Rightarrow> obj \<Rightarrow> string" where
  "obj_name h S o1 = full_name S (int o1 - int h + 1)"

definition life_at :: "'k server \<Rightarrow> obj \<Rightarrow> life" where
  "life_at S o1 = life_in o1 (ios S (conn_loop S o1))"

definition base_chans :: "'k server \<Rightarrow> nat \<Rightarrow> ptr set" where
  "base_chans S l = insert (wakeupChannel (ios S l)) (if l = s_loop S then {acceptChannel (s_acceptor S)} else {})"

text \<open>
  \<open>R l\<close> are the functors that loop \<open>l\<close> has swapped out and not run yet; after them come those in its queue.
\<close>

definition todo :: "(nat \<Rightarrow> task list) \<Rightarrow> 'k server \<Rightarrow> nat \<Rightarrow> task list" where
  "todo R S l = R l @ pendingFunctors (ios S l)"

text \<open>
  What other threads queue for a connection binds its bare address and does not keep it alive: the
  functors of \<open>send(Buffer *)\<close> and \<open>shutdown\<close>.  These and the functors of its life are all that a queue may
  hold for an object but the notices.
\<close>

definition raw_task :: "obj \<Rightarrow> task \<Rightarrow> bool" where
  "raw_task o1 t \<longleftrightarrow> (\<exists>ds. t = SendInLoopStr o1 ds) \<or> t = ShutdownInLoop o1"

definition life_task :: "obj \<Rightarrow> task \<Rightarrow> bool" where
  "life_task o1 t \<longleftrightarrow> t = ConnectionEstablished o1 \<or> t = ConnectDestroyed o1 \<or> t = RemoveConnectionInLoop o1 \<or> raw_task o1 t"

lemmas task_kinds = life_task_def raw_task_def

definition life_tasks :: "(nat \<Rightarrow> task list) \<Rightarrow> 'k server \<Rightarrow> obj \<Rightarrow> nat \<Rightarrow> task list" where
  "life_tasks R S o1 l = filter (life_task o1) (todo R S l)"

text \<open>
  An object that still has a part to play: not gone, or a functor of its life is still to run.  Its
  socket is open and its channel in use.
\<close>

definition held :: "(nat \<Rightarrow> task list) \<Rightarrow> 'k server \<Rightarrow> obj \<Rightarrow> bool" where
  "held R S o1 \<longleftrightarrow> life_at S o1 \<noteq> Gone \<or> (\<exists>l\<in>loop_set S. life_tasks R S o1 l \<noteq> [])"

definition used_chans :: "nat \<Rightarrow> (nat \<Rightarrow> task list) \<Rightarrow> 'k server \<Rightarrow> nat \<Rightarrow> ptr set" where
  "used_chans h R S l = base_chans S l \<union> {o1. created h S o1 \<and> conn_loop S o1 = l \<and> held R S o1}"

definition closing_tasks :: "'k server \<Rightarrow> obj \<Rightarrow> nat \<Rightarrow> task set" where
  "closing_tasks S o1 l = (if l = conn_loop S o1 then {ConnectDestroyed o1} else {})
     \<union> (if l = s_loop S then {RemoveConnectionInLoop o1} else {})"

text \<open>
  The functors that wait in the loop \<open>l\<close> for an object past its establishment: first those with a bare
  address, in its own loop only and none once it is gone, then those of its closing.
\<close>

definition waiting_ok :: "'k server \<Rightarrow> obj \<Rightarrow> life \<Rightarrow> nat \<Rightarrow> task list \<Rightarrow> bool" where
  "waiting_ok S o1 e l ts \<longleftrightarrow> (\<exists>us vs. ts = us @ vs \<and> (\<forall>t\<in>set us. raw_task o1 t) \<and> set vs \<subseteq> closing_tasks S o1 l
     \<and> (us \<noteq> [] \<longrightarrow> l = conn_loop S o1 \<and> e \<noteq> Gone) \<and> (vs \<noteq> [] \<longrightarrow> e \<noteq> Live))"

text \<open>
  One connection object: a new one is in the map and its establishment is queued once; a live one is in
  the map and nothing of its closing is queued; a closing one has its removal or its destruction queued,
  and is in the map only while its removal is.
\<close>

definition obj_inv :: "nat \<Rightarrow> (nat \<Rightarrow> task list) \<Rightarrow> 'k server \<Rightarrow> obj \<Rightarrow> bool" where
  "obj_inv h R S o1 \<longleftrightarrow> conn_loop S o1 \<in> loop_set S
     \<and> c_name (conns (ios S (conn_loop S o1)) o1) = obj_name h S o1
     \<and> wf_in o1 (ios S (conn_loop S o1))
     \<and> (case life_at S o1 of
          Fresh \<Rightarrow> connections S (obj_name h S o1) = Some o1 \<and> (\<forall>l\<in>loop_set S.
            life_tasks R S o1 l = (if l = conn_loop S o1 then [ConnectionEstablished o1] else []))
        | Live \<Rightarrow> connections S (obj_name h S o1) = Some o1 \<and> (\<forall>l\<in>loop_set S. waiting_ok S o1 Live l (life_tasks R S o1 l))
        | e \<Rightarrow> (\<forall>l\<in>loop_set S. waiting_ok S o1 e l (life_tasks R S o1 l))
            \<and> (connections S (obj_name h S o1) = Some o1
                \<longrightarrow> RemoveConnectionInLoop o1 \<in> set (life_tasks R S o1 (s_loop S)))
            \<and> (e = Closing \<longrightarrow> ConnectDestroyed o1 \<in> set (life_tasks R S o1 (conn_loop S o1))
                \<or> RemoveConnectionInLoop o1 \<in> set (life_tasks R S o1 (s_loop S))))"

text \<open>The wakeup channel of each loop and the acceptor's channel, with their callbacks.\<close>

definition base_ok :: "nat \<Rightarrow> 'k server \<Rightarrow> nat \<Rightarrow> bool" where
  "base_ok h S l \<longleftrightarrow>
     (let w = wakeupChannel (ios S l); a = acceptChannel (s_acceptor S) in
      w < h \<and> readCallback (chans (ios S l) w) = Some LoopHandleRead
      \<and> writeCallback (chans (ios S l) w) = None \<and> closeCallback (chans (ios S l) w) = None
      \<and> (l = s_loop S \<longrightarrow> a < h \<and> a \<noteq> w \<and> readCallback (chans (ios S l) a) = Some AcceptorHandleRead
           \<and> writeCallback (chans (ios S l) a) = None \<and> closeCallback (chans (ios S l) a) = None))"

text \<open>The functors a queue may hold: those the library binds for objects that exist, and the user's.\<close>

fun task_fine :: "nat \<Rightarrow> 'k server \<Rightarrow> task \<Rightarrow> bool" where
  "task_fine h S (ConnectionEstablished o1) \<longleftrightarrow> created h S o1"
| "task_fine h S (ConnectDestroyed o1) \<longleftrightarrow> created h S o1"
| "task_fine h S (RemoveConnectionInLoop o1) \<longleftrightarrow> created h S o1"
| "task_fine h S (WriteCompleteTask o1) \<longleftrightarrow> created h S o1"
| "task_fine h S (HighWaterMarkTask o1 n) \<longleftrightarrow> created h S o1"
| "task_fine h S (UserTask k) \<longleftrightarrow> True"
| "task_fine h S (SendInLoopStr o1 ds) \<longleftrightarrow> created h S o1 \<and> length ds < 2 ^ 31"
| "task_fine h S (ShutdownInLoop o1) \<longleftrightarrow> created h S o1"
| "task_fine h S _ \<longleftrightarrow> False"

text \<open>The objects in \<open>X\<close> are in the middle of a step.\<close>

definition srv_inv :: "('k \<Rightarrow> int \<rightharpoonup> epoll_event) \<Rightarrow> nat \<Rightarrow> obj set \<Rightarrow> (nat \<Rightarrow> task list) \<Rightarrow> 'k server \<Rightarrow> bool" where
  "srv_inv view h X R S \<longleftrightarrow>
     length (s_ipPort S) \<le> 21 \<and> s_connectionCallback S \<and> s_messageCallback S \<and> newConnectionCallback (s_acceptor S)
     \<and> pool_inv (threadPool S) \<and> baseLoop (threadPool S) = s_loop S
     \<and> inj_on (\<lambda>l. threadId (ios S l)) (loop_set S)
     \<and> h \<le> next_obj S \<and> sint (nextConnId S) = int (next_obj S) - int h + 1
     \<and> (\<forall>l\<in>loop_set S. poller_inv view (used_chans h R S l) (ios S l) \<and> base_ok h S l
          \<and> (\<forall>t\<in>set (todo R S l). task_fine h S t))
     \<and> (\<forall>n o1. connections S n = Some o1 \<longrightarrow> created h S o1 \<and> n = obj_name h S o1)
     \<and> (\<forall>o1. created h S o1 \<and> o1 \<notin> X \<longrightarrow> obj_inv h R S o1)"

lemma raw_task_simps [simp]:
  "\<not> raw_task q (ConnectionEstablished o1)" "\<not> raw_task q (ConnectDestroyed o1)" "\<not> raw_task q (RemoveConnectionInLoop o1)"
  "\<not> raw_task q (WriteCompleteTask o1)" "\<not> raw_task q (HighWaterMarkTask o1 n)" "\<not> raw_task q (UserTask k)"
  "raw_task q (SendInLoopStr o1 ds) \<longleftrightarrow> q = o1" "raw_task q (ShutdownInLoop o1) \<longleftrightarrow> q = o1"
  by (auto simp: raw_task_def)

text \<open>How the queue of an object may change.\<close>

lemma waiting_nil [simp]: "waiting_ok S o1 e l []"
  by (simp add: waiting_ok_def)

lemma waiting_mem:
  assumes "waiting_ok S o1 e l ts" "t \<in> set ts"
  shows "t \<in> closing_tasks S o1 l \<and> e \<noteq> Live \<or> raw_task o1 t \<and> l = conn_loop S o1 \<and> e \<noteq> Gone"
  using assms unfolding waiting_ok_def by fastforce

lemma waiting_closing: "waiting_ok S o1 e l ts \<Longrightarrow> e \<in> {Live, Closing} \<Longrightarrow> waiting_ok S o1 Closing l ts"
  unfolding waiting_ok_def by auto

lemma waiting_close:
  assumes "waiting_ok S o1 e l ts" "e \<in> {Closing, Gone}" "t \<in> closing_tasks S o1 l"
  shows "waiting_ok S o1 e l (ts @ [t])"
proof -
  obtain us vs where "ts = us @ vs" "\<forall>t\<in>set us. raw_task o1 t" "set vs \<subseteq> closing_tasks S o1 l"
      "us \<noteq> [] \<longrightarrow> l = conn_loop S o1 \<and> e \<noteq> Gone"
    using assms(1) unfolding waiting_ok_def by blast
  then show ?thesis using assms(2,3) unfolding waiting_ok_def
    by (intro exI [of _ us] exI [of _ "vs @ [t]"]) auto
qed

lemma waiting_raw:
  assumes "waiting_ok S o1 Live l ts" "raw_task o1 t" "l = conn_loop S o1"
  shows "waiting_ok S o1 Live l (ts @ [t])"
proof -
  have "\<forall>t\<in>set ts. raw_task o1 t" using assms(1) unfolding waiting_ok_def by fastforce
  then show ?thesis using assms(2,3) unfolding waiting_ok_def
    by (intro exI [of _ "ts @ [t]"] exI [of _ "[]"]) auto
qed

lemma waiting_tl:
  assumes "waiting_ok S o1 e l (us1 @ ts)" "\<forall>t\<in>set us1. raw_task o1 t"
  shows "waiting_ok S o1 e l ts"
proof -
  obtain us vs where u: "us1 @ ts = us @ vs" "\<forall>t\<in>set us. raw_task o1 t" "set vs \<subseteq> closing_tasks S o1 l"
      "us \<noteq> [] \<longrightarrow> l = conn_loop S o1 \<and> e \<noteq> Gone" "vs \<noteq> [] \<longrightarrow> e \<noteq> Live"
    using assms(1) unfolding waiting_ok_def by blast
  then consider zs where "us = us1 @ zs" "ts = zs @ vs" | zs where "us1 = us @ zs" "vs = zs @ ts"
    by (auto simp: append_eq_append_conv2)
  then show ?thesis
  proof cases
    case 1
    then show ?thesis using u unfolding waiting_ok_def by (intro exI [of _ zs] exI [of _ vs]) auto
  next
    case 2
    then show ?thesis using u unfolding waiting_ok_def by (intro exI [of _ "[]"] exI [of _ ts]) auto
  qed
qed

text \<open>Behind the first functor of its closing none has a bare address.\<close>

lemma waiting_after:
  assumes "waiting_ok S o1 e l (t # ts)" "\<not> raw_task o1 t"
  shows "set ts \<subseteq> closing_tasks S o1 l"
proof -
  obtain us vs where "t # ts = us @ vs" "\<forall>t\<in>set us. raw_task o1 t" "set vs \<subseteq> closing_tasks S o1 l"
    using assms(1) unfolding waiting_ok_def by blast
  then show ?thesis using assms(2) by (cases us) auto
qed

lemma waiting_all_closing: "set ts \<subseteq> closing_tasks S o1 l \<Longrightarrow> e \<noteq> Live \<Longrightarrow> waiting_ok S o1 e l ts"
  unfolding waiting_ok_def by (intro exI [of _ "[]"] exI [of _ ts]) simp

lemma obj_name_inj: "obj_name h S p = obj_name h S q \<longleftrightarrow> p = q"
  by (auto simp: obj_name_def full_name_inj)

lemma srv_invD:
  assumes "srv_inv view h X R S"
  shows "l \<in> loop_set S \<Longrightarrow> poller_inv view (used_chans h R S l) (ios S l)"
    and "l \<in> loop_set S \<Longrightarrow> base_ok h S l"
    and "l \<in> loop_set S \<Longrightarrow> t \<in> set (todo R S l) \<Longrightarrow> task_fine h S t"
    and "created h S o1 \<Longrightarrow> o1 \<notin> X \<Longrightarrow> obj_inv h R S o1"
    and "connections S n = Some o1 \<Longrightarrow> created h S o1 \<and> n = obj_name h S o1"
    and "l \<in> loop_set S \<Longrightarrow> m \<in> loop_set S \<Longrightarrow> threadId (ios S l) = threadId (ios S m) \<Longrightarrow> l = m"
  using assms by (auto simp: srv_inv_def dest: inj_onD)

lemma srv_inv_done:
  "srv_inv view h (insert o1 X) R S \<Longrightarrow> obj_inv h R S o1 \<Longrightarrow> srv_inv view h X R S"
  unfolding srv_inv_def by blast

section \<open>Steps that concern one object\<close>

definition same_books :: "'k server \<Rightarrow> 'k server \<Rightarrow> bool" where
  "same_books S S' \<longleftrightarrow> s_loop S' = s_loop S \<and> s_ipPort S' = s_ipPort S \<and> s_name S' = s_name S
     \<and> s_acceptor S' = s_acceptor S \<and> threadPool S' = threadPool S
     \<and> s_connectionCallback S' = s_connectionCallback S \<and> s_messageCallback S' = s_messageCallback S
     \<and> nextConnId S' = nextConnId S \<and> next_obj S' = next_obj S \<and> conn_loop S' = conn_loop S"

definition others_same :: "obj \<Rightarrow> 'k server \<Rightarrow> 'k server \<Rightarrow> bool" where
  "others_same o1 S S' \<longleftrightarrow> (\<forall>l. threadId (ios S' l) = threadId (ios S l)
     \<and> wakeupChannel (ios S' l) = wakeupChannel (ios S l)
     \<and> (\<forall>q. q \<noteq> o1 \<longrightarrow> conns (ios S' l) q = conns (ios S l) q \<and> chans (ios S' l) q = chans (ios S l) q))"

lemma same_books_simps:
  assumes "same_books S S'"
  shows "loop_set S' = loop_set S" "created h S' = created h S" "obj_name h S' = obj_name h S"
    "closing_tasks S' = closing_tasks S" "waiting_ok S' = waiting_ok S" "task_fine h S' t = task_fine h S t"
proof -
  show c: "created h S' = created h S" using assms by (simp add: same_books_def created_def fun_eq_iff)
  show "loop_set S' = loop_set S" "obj_name h S' = obj_name h S" "closing_tasks S' = closing_tasks S"
    using assms by (simp_all add: same_books_def loop_set_def obj_name_def full_name_def closing_tasks_def fun_eq_iff)
  then show "waiting_ok S' = waiting_ok S" using assms by (simp add: same_books_def waiting_ok_def fun_eq_iff)
  show "task_fine h S' t = task_fine h S t" by (cases t) (simp_all add: c)
qed

lemma own_loop_in_set [simp]: "s_loop S \<in> loop_set S"
  by (simp add: loop_set_def)

lemma others_same_life:
  assumes "others_same o1 S S'" "conn_loop S' q = conn_loop S q" "q \<noteq> o1"
  shows "life_at S' q = life_at S q" "wf_in q (ios S' (conn_loop S q)) = wf_in q (ios S (conn_loop S q))"
    "conns (ios S' (conn_loop S q)) q = conns (ios S (conn_loop S q)) q"
  using assms by (simp_all add: others_same_def life_at_def in_defs)

text \<open>The invariant of an object depends on its own connection, channel, functors and map entry only.\<close>

lemma obj_inv_cong:
  assumes "conn_loop S' q = conn_loop S q" "s_loop S' = s_loop S" "loop_set S' = loop_set S"
    "obj_name h S' q = obj_name h S q"
    and "c_name (conns (ios S' (conn_loop S q)) q) = c_name (conns (ios S (conn_loop S q)) q)" "life_at S' q = life_at S q"
      "wf_in q (ios S' (conn_loop S q)) = wf_in q (ios S (conn_loop S q))"
    and m: "connections S' (obj_name h S q) = Some q \<longleftrightarrow> connections S (obj_name h S q) = Some q"
    and t: "\<And>l. l \<in> loop_set S \<Longrightarrow> life_tasks R' S' q l = life_tasks R S q l"
  shows "obj_inv h R' S' q \<longleftrightarrow> obj_inv h R S q"
proof (cases "conn_loop S q \<in> loop_set S")
  case True
  have "closing_tasks S' q = closing_tasks S q" using assms(1,2) by (simp add: closing_tasks_def fun_eq_iff)
  then have "waiting_ok S' q = waiting_ok S q" using assms(1) by (simp add: waiting_ok_def fun_eq_iff)
  then show ?thesis
    using assms(1-7) m t [OF own_loop_in_set] t [OF True] t
    by (simp add: obj_inv_def True cong: ball_cong split: life.split)
qed (use assms(1-3) in \<open>simp add: obj_inv_def\<close>)

lemma base_ok_other:
  assumes "same_books S S'" "others_same o1 S S'" "h \<le> o1" "base_ok h S l"
  shows "base_ok h S' l" "base_chans S' l = base_chans S l"
  using assms by (auto simp: base_ok_def base_chans_def same_books_def others_same_def Let_def)

lemma srv_inv_update:
  assumes inv: "srv_inv view h X R S" and o1: "created h S o1"
    and b: "same_books S S'" and s: "others_same o1 S S'"
    and m: "\<And>n. n \<noteq> obj_name h S o1 \<Longrightarrow> connections S' n = connections S n"
      "connections S' (obj_name h S o1) \<in> {None, Some o1}"
    and t: "\<And>l q. l \<in> loop_set S \<Longrightarrow> q \<noteq> o1 \<Longrightarrow> life_tasks R' S' q l = life_tasks R S q l"
      "\<And>l t. l \<in> loop_set S \<Longrightarrow> t \<in> set (todo R' S' l) \<Longrightarrow> task_fine h S t"
    and p: "\<And>l. l \<in> loop_set S \<Longrightarrow> poller_inv view (used_chans h R' S' l) (ios S' l)"
  shows "srv_inv view h (insert o1 X) R' S'"
proof -
  note B = same_books_simps [OF b]
  have cl: "conn_loop S' = conn_loop S" "s_loop S' = s_loop S" using b by (simp_all add: same_books_def)
  have h: "h \<le> o1" using o1 by (simp add: created_def)
  have "inj_on (\<lambda>l. threadId (ios S' l)) (loop_set S)"
    using inv s unfolding inj_on_def by (metis others_same_def srv_invD(6))
  moreover have "obj_inv h R' S' q" if q: "created h S q" "q \<noteq> o1" "q \<notin> X" for q
  proof -
    have "connections S' (obj_name h S q) = connections S (obj_name h S q)"
      by (rule m(1)) (simp add: obj_name_inj q)
    then have "obj_inv h R' S' q = obj_inv h R S q"
      by (intro obj_inv_cong) (simp_all add: B cl others_same_life [OF s] q t(1))
    then show ?thesis using srv_invD(4) [OF inv] q by simp
  qed
  moreover have "created h S q \<and> n = obj_name h S q" if "connections S' n = Some q" for n q
  proof (cases "n = obj_name h S o1")
    case True
    then show ?thesis using that m(2) o1 by auto
  next
    case False
    then show ?thesis using that m(1) srv_invD(5) [OF inv] by auto
  qed
  moreover have "base_ok h S' l" if "l \<in> loop_set S" for l
    by (rule base_ok_other [OF b s h]) (rule srv_invD(2) [OF inv that])
  ultimately show ?thesis
    using inv t(2) p b unfolding srv_inv_def B by (simp add: same_books_def)
qed

text \<open>The channels in use after a step on one object.\<close>

lemma used_chans_update:
  assumes inv: "srv_inv view h X R S" and o1: "created h S o1" and b: "same_books S S'" and s: "others_same o1 S S'"
    and l: "l \<in> loop_set S"
    and t: "\<And>l q. l \<in> loop_set S \<Longrightarrow> q \<noteq> o1 \<Longrightarrow> life_tasks R' S' q l = life_tasks R S q l"
  shows "used_chans h R' S' l = (if conn_loop S o1 \<noteq> l then used_chans h R S l
     else if held R' S' o1 then insert o1 (used_chans h R S l) else used_chans h R S l - {o1})"
proof -
  note B = same_books_simps [OF b]
  have h: "h \<le> o1" using o1 by (simp add: created_def)
  have bc: "base_chans S' l = base_chans S l" "o1 \<notin> base_chans S l"
    using base_ok_other(2) [OF b s h srv_invD(2) [OF inv l]] srv_invD(2) [OF inv l] h
    by (auto simp: base_chans_def base_ok_def Let_def)
  have cl: "conn_loop S' = conn_loop S" using b by (simp add: same_books_def)
  have "held R' S' q = held R S q" if "q \<noteq> o1" for q
    using others_same_life(1) [OF s _ that] t that by (simp add: held_def cl B cong: bex_cong)
  then have "x \<in> used_chans h R' S' l \<longleftrightarrow> x \<in> (if conn_loop S o1 \<noteq> l then used_chans h R S l
     else if held R' S' o1 then insert o1 (used_chans h R S l) else used_chans h R S l - {o1})" for x
    using bc o1 by (cases "x = o1") (auto simp: used_chans_def B cl)
  then show ?thesis by blast
qed

lemma poller_inv_drop:
  assumes "poller_inv view P s" "ch_index (chans s p) = kNew"
  shows "poller_inv view (P - {p}) s"
  using assms unfolding poller_inv_def by (auto simp: inj_on_def)

text \<open>A handler of \<open>o1\<close> ran in the object's loop.\<close>

lemma notice_not_life [simp]: "notice o1 t \<Longrightarrow> \<not> life_task q t"
  by (auto simp: notice_def task_kinds)

lemma notice_fine: "notice o1 t \<Longrightarrow> created h S o1 \<Longrightarrow> task_fine h S t"
  by (auto simp: notice_def)

lemma filter_notices: "\<forall>t\<in>set ts. notice o1 t \<Longrightarrow> filter (life_task q) ts = []"
  by (auto simp: filter_empty_conv)

lemma framed_others: "framed o1 (ios S l) W' \<Longrightarrow> others_same o1 S (S\<lparr>ios := (ios S)(l := W')\<rparr>)"
  by (simp add: others_same_def framed_def)

lemma same_books_ios [simp]: "same_books S (S\<lparr>ios := f\<rparr>)" "same_books S (S\<lparr>connections := c, ios := f\<rparr>)"
  "same_books S S"
  by (simp_all add: same_books_def)

lemma inv_own_step:
  assumes inv: "srv_inv view h X R S" and o1: "created h S o1" and l: "l = conn_loop S o1"
    and f: "framed o1 (ios S l) W'"
    and R: "\<And>q m. q \<noteq> o1 \<Longrightarrow> filter (life_task q) (R' m) = filter (life_task q) (R m)" "\<And>m. set (R' m) \<subseteq> set (R m)"
    and p: "poller_inv view (insert o1 (used_chans h R S l)) W'"
  shows "srv_inv view h (insert o1 X) R' (S\<lparr>ios := (ios S)(l := W')\<rparr>)"
proof -
  let ?S = "S\<lparr>ios := (ios S)(l := W')\<rparr>"
  obtain ts where ts: "pendingFunctors W' = pendingFunctors (ios S l) @ ts" "\<forall>t\<in>set ts. notice o1 t"
    using f by (auto simp: framed_def)
  note s = framed_others [OF f]
  have q: "life_tasks R' ?S q m = life_tasks R S q m" if "q \<noteq> o1" for q m
    using R(1) [OF that] ts by (simp add: life_tasks_def todo_def filter_notices)
  have drop: "poller_inv view (used_chans h R S l - {o1}) W'" if "\<not> held R' ?S o1"
  proof -
    have "life_in o1 W' = Gone" using that l by (simp add: held_def life_at_def)
    then have "ch_index (chans W' o1) = kNew" by (simp add: life_in_def life_of_def split: if_splits)
    from poller_inv_drop [OF p this] show ?thesis by simp
  qed
  show ?thesis
  proof (rule srv_inv_update [OF inv o1 _ s])
    show "connections ?S (obj_name h S o1) \<in> {None, Some o1}"
      using srv_invD(5) [OF inv, of "obj_name h S o1"]
      by (cases "connections S (obj_name h S o1)") (auto simp: obj_name_inj)
    show "task_fine h S t" if "m \<in> loop_set S" "t \<in> set (todo R' ?S m)" for t m
    proof (cases "t \<in> set (todo R S m)")
      case False
      then have "notice o1 t" using that(2) ts R(2) [of m] by (auto simp: todo_def split: if_splits)
      then show ?thesis using o1 by (rule notice_fine)
    qed (use srv_invD(3) [OF inv that(1)] in blast)
    show "poller_inv view (used_chans h R' ?S m) (ios ?S m)" if "m \<in> loop_set S" for m
    proof (cases "m = l")
      case True
      have "used_chans h R' ?S m = (if held R' ?S o1 then insert o1 (used_chans h R S m) else used_chans h R S m - {o1})"
        using used_chans_update [OF inv o1 _ s that q] True l by simp
      then show ?thesis using True p drop by simp
    next
      case False
      have "used_chans h R' ?S m = used_chans h R S m"
        using used_chans_update [OF inv o1 _ s that q] False l by simp
      then show ?thesis using False srv_invD(1) [OF inv that] by simp
    qed
  qed (use q in simp_all)
qed

text \<open>
  A functor for \<open>o1\<close> is queued in some loop, while the object may leave the map and another of its
  functors may have been taken out of the queue.
\<close>

lemma inv_queue_step:
  assumes inv: "srv_inv view h X R S" and o1: "created h S o1" and held: "held R S o1"
    and t: "life_task o1 t" "task_fine h S t" and m: "m \<in> loop_set S"
    and c: "c = connections S \<or> c = (connections S)(obj_name h S o1 := None)"
    and R: "\<And>q m. q \<noteq> o1 \<Longrightarrow> filter (life_task q) (R' m) = filter (life_task q) (R m)" "\<And>m. set (R' m) \<subseteq> set (R m)"
  shows "srv_inv view h (insert o1 X) R' (S\<lparr>connections := c, ios := (ios S)(m := queueInLoop tid t (ios S m))\<rparr>)"
proof -
  let ?S = "S\<lparr>connections := c, ios := (ios S)(m := queueInLoop tid t (ios S m))\<rparr>"
  have ch: "chans (queueInLoop tid t (ios S m)) = chans (ios S m)" by (simp add: queue_defs)
  have s: "others_same o1 S ?S" by (simp add: others_same_def ch)
  have nq: "\<not> life_task q t" if "q \<noteq> o1" for q using that t(1) by (auto simp: task_kinds)
  have q: "life_tasks R' ?S q m = life_tasks R S q m" if "q \<noteq> o1" for q m
    using nq [OF that] R(1) [OF that] by (simp add: life_tasks_def todo_def)
  have "t \<in> set (life_tasks R' ?S o1 m)" using t(1) by (simp add: life_tasks_def todo_def)
  then have h': "held R' ?S o1" using m by (force simp: held_def loop_set_def)
  have old: "connections S (obj_name h S o1) \<in> {None, Some o1}"
    using srv_invD(5) [OF inv, of "obj_name h S o1"]
    by (cases "connections S (obj_name h S o1)") (auto simp: obj_name_inj)
  show ?thesis
  proof (rule srv_inv_update [OF inv o1 _ s])
    show "connections ?S n = connections S n" if "n \<noteq> obj_name h S o1" for n using c that by auto
    show "connections ?S (obj_name h S o1) \<in> {None, Some o1}" using c old by auto
    show "task_fine h S u" if "k \<in> loop_set S" "u \<in> set (todo R' ?S k)" for u k
      using that srv_invD(3) [OF inv that(1), of u] R(2) [of k] t(2)
      by (auto simp: todo_def split: if_splits)
    show "poller_inv view (used_chans h R' ?S k) (ios ?S k)" if k: "k \<in> loop_set S" for k
    proof -
      have "used_chans h R' ?S k = (if conn_loop S o1 \<noteq> k then used_chans h R S k else insert o1 (used_chans h R S k))"
        using used_chans_update [OF inv o1 _ s k q] h' by simp
      also have "\<dots> = used_chans h R S k" using o1 held by (auto simp: used_chans_def)
      finally have "used_chans h R' ?S k = used_chans h R S k" .
      moreover have "poller_inv view P (queueInLoop tid t (ios S m)) = poller_inv view P (ios S m)" for P
        by (rule poller_inv_cong) (simp_all add: queue_defs)
      ultimately show ?thesis using srv_invD(1) [OF inv k] by (cases "k = m") simp_all
    qed
  qed (use q in simp_all)
qed

section \<open>Handlers of one connection\<close>

text \<open>A callback for \<open>o1\<close> leaves the books and the other objects alone, and does not release \<open>o1\<close>.\<close>

definition step_of :: "obj \<Rightarrow> 'k server \<Rightarrow> 'k server \<Rightarrow> bool" where
  "step_of o1 S S' \<longleftrightarrow> same_books S S' \<and> others_same o1 S S'
     \<and> (life_at S o1 \<in> {Live, Closing} \<longrightarrow> life_at S' o1 \<in> {Live, Closing})"

lemma step_of_refl [simp]: "step_of o1 S S"
  by (simp add: step_of_def others_same_def)

lemma step_of_trans: "step_of o1 S1 S2 \<Longrightarrow> step_of o1 S2 S3 \<Longrightarrow> step_of o1 S1 S3"
  by (auto simp: step_of_def same_books_def others_same_def)

lemma inv_runnable:
  assumes inv: "srv_inv view h X R S" and "o1 \<notin> X" and o1: "created h S o1" and l: "l = conn_loop S o1"
    and e: "life_at S o1 \<in> {Live, Closing}"
  shows "runnable view (used_chans h R S l) o1 (ios S l)" "l \<in> loop_set S"
    "c_name (conns (ios S l) o1) = obj_name h S o1"
proof -
  have "obj_inv h R S o1" using srv_invD(4) [OF inv o1] assms(2) .
  then show m: "l \<in> loop_set S" and "c_name (conns (ios S l) o1) = obj_name h S o1"
    using l by (simp_all add: obj_inv_def)
  have "wf_in o1 (ios S l)" using \<open>obj_inv h R S o1\<close> l by (simp add: obj_inv_def)
  then show "runnable view (used_chans h R S l) o1 (ios S l)"
    using srv_invD(1) [OF inv m] e o1 l by (auto simp: runnable_def used_chans_def life_at_def held_def)
qed

lemma used_own:
  assumes "created h S o1" "held R S o1"
  shows "insert o1 (used_chans h R S (conn_loop S o1)) = used_chans h R S (conn_loop S o1)"
  using assms by (auto simp: used_chans_def)

lemma life_held: "life_at S o1 \<noteq> Gone \<Longrightarrow> held R S o1"
  "life_at S o1 \<in> {Live, Closing} \<Longrightarrow> held R S o1"
  by (auto simp: held_def)

lemma obj_inv_waiting:
  assumes "obj_inv h R S o1" "life_at S o1 \<noteq> Fresh" "l \<in> loop_set S"
  shows "waiting_ok S o1 (life_at S o1) l (life_tasks R S o1 l)"
  using assms by (auto simp: obj_inv_def split: life.splits)

text \<open>A handler of \<open>o1\<close> that keeps its phase; \<open>us\<close> are functors with a bare address that it was run from.\<close>

lemma inv_same_life_task:
  assumes inv: "srv_inv view h {} R S" and o1: "created h S o1" and l: "l = conn_loop S o1"
    and r: "runnable view (used_chans h R S l) o1 W'" and f: "same_life o1 (ios S l) W'"
    and R: "\<And>q m. q \<noteq> o1 \<Longrightarrow> filter (life_task q) (R' m) = filter (life_task q) (R m)" "\<And>m. set (R' m) \<subseteq> set (R m)"
    and us: "\<And>m. filter (life_task o1) (R m) = (if m = l then us else []) @ filter (life_task o1) (R' m)" "\<forall>t\<in>set us. raw_task o1 t"
  shows "srv_inv view h {} R' (S\<lparr>ios := (ios S)(l := W')\<rparr>)" "step_of o1 S (S\<lparr>ios := (ios S)(l := W')\<rparr>)"
proof -
  let ?S = "S\<lparr>ios := (ios S)(l := W')\<rparr>"
  have f': "framed o1 (ios S l) W'" and e: "life_in o1 W' = life_at S o1" "life_at ?S o1 = life_at S o1"
    using f l by (simp_all add: same_life_def life_at_def)
  have e': "life_at S o1 \<in> {Live, Closing}" using r e by (auto simp: runnable_def)
  then have "insert o1 (used_chans h R S l) = used_chans h R S l"
    using used_own [OF o1 life_held(2) [OF e']] l by simp
  then have 1: "srv_inv view h {o1} R' ?S"
    using r by (intro inv_own_step [OF inv o1 l f' R]) (simp_all add: runnable_def)
  have o: "obj_inv h R S o1" using srv_invD(4) [OF inv o1] by simp
  obtain ts where "pendingFunctors W' = pendingFunctors (ios S l) @ ts" "\<forall>t\<in>set ts. notice o1 t"
    using f' by (auto simp: framed_def)
  then have lt: "life_tasks R S o1 m = (if m = l then us else []) @ life_tasks R' ?S o1 m" for m
    using us(1) by (simp add: life_tasks_def todo_def filter_notices)
  have w: "waiting_ok S o1 (life_at S o1) m (life_tasks R' ?S o1 m)" if "m \<in> loop_set S" for m
  proof (rule waiting_tl [of _ _ _ _ "if m = l then us else []"])
    show "waiting_ok S o1 (life_at S o1) m ((if m = l then us else []) @ life_tasks R' ?S o1 m)"
      using obj_inv_waiting [OF o _ that] e' by (auto simp flip: lt)
  qed (use us(2) in simp)
  have c: "ConnectDestroyed o1 \<in> set (life_tasks R' ?S o1 m) \<longleftrightarrow> ConnectDestroyed o1 \<in> set (life_tasks R S o1 m)"
    "RemoveConnectionInLoop o1 \<in> set (life_tasks R' ?S o1 m) \<longleftrightarrow> RemoveConnectionInLoop o1 \<in> set (life_tasks R S o1 m)" for m
    using us(2) raw_task_simps(2,3) by (auto simp: lt)
  have b: "same_books S ?S" by simp
  note B = same_books_simps [OF b]
  have "wf_in o1 W'" "c_name (conns W' o1) = c_name (conns (ios S l) o1)"
    using r f' by (simp_all add: runnable_def framed_def)
  then have "obj_inv h R' ?S o1"
    using o w e' unfolding obj_inv_def B e(2) by (auto simp: c simp flip: l)
  with 1 show "srv_inv view h {} R' ?S" by (rule srv_inv_done)
  show "step_of o1 S ?S" using framed_others [OF f'] e by (simp add: step_of_def)
qed

lemma inv_same_life:
  assumes "srv_inv view h {} R S" and "created h S o1" and "l = conn_loop S o1"
    and "runnable view (used_chans h R S l) o1 W'" and "same_life o1 (ios S l) W'"
    and "\<And>q m. filter (life_task q) (R' m) = filter (life_task q) (R m)" "\<And>m. set (R' m) \<subseteq> set (R m)"
  shows "srv_inv view h {} R' (S\<lparr>ios := (ios S)(l := W')\<rparr>)" "step_of o1 S (S\<lparr>ios := (ios S)(l := W')\<rparr>)"
  by (rule inv_same_life_task [OF assms(1-5), where us = "[]"]; use assms(6,7) in simp)+

text \<open>Another thread queues a functor with a bare address for a live connection.\<close>

lemma inv_foreign:
  assumes inv: "srv_inv view h {} R S" and o1: "created h S o1" and l: "l = conn_loop S o1"
    and e: "life_at S o1 = Live" and t: "raw_task o1 t" "task_fine h S t"
  shows "srv_inv view h {} R (S\<lparr>ios := (ios S)(l := queueInLoop tid t (ios S l))\<rparr>)"
    "step_of o1 S (S\<lparr>ios := (ios S)(l := queueInLoop tid t (ios S l))\<rparr>)"
proof -
  let ?S = "S\<lparr>ios := (ios S)(l := queueInLoop tid t (ios S l))\<rparr>"
  have o: "obj_inv h R S o1" using srv_invD(4) [OF inv o1] by simp
  then have ls: "l \<in> loop_set S" using l by (simp add: obj_inv_def)
  have ch: "chans (queueInLoop tid t (ios S l)) = chans (ios S l)" by (simp add: queue_defs)
  have 1: "srv_inv view h {o1} R ?S"
    using inv_queue_step [OF inv o1 life_held(1), of t l "connections S" R tid] e t ls by (simp add: life_task_def)
  have lt: "life_tasks R ?S o1 m = life_tasks R S o1 m @ (if m = l then [t] else [])" for m
    using t(1) by (simp add: life_tasks_def todo_def life_task_def)
  have b: "same_books S ?S" by simp
  note B = same_books_simps [OF b]
  have "waiting_ok S o1 Live m (life_tasks R ?S o1 m)" if "m \<in> loop_set S" for m
    using obj_inv_waiting [OF o _ that] waiting_raw [of S o1 m _ t] t(1) l unfolding lt e by (cases "m = l") simp_all
  moreover have "life_at ?S o1 = life_at S o1" by (simp add: life_at_def in_defs ch)
  then have "life_at ?S o1 = Live" using e by simp
  moreover have "wf_in o1 (ios ?S l) = wf_in o1 (ios S l)" by (simp add: in_defs ch)
  ultimately have "obj_inv h R ?S o1" using o e l unfolding obj_inv_def B by simp
  with 1 show "srv_inv view h {} R ?S" by (rule srv_inv_done)
  show "step_of o1 S ?S" using e \<open>life_at ?S o1 = Live\<close> by (simp add: step_of_def others_same_def ch)
qed

text \<open>The close callback, after the connection has been switched off.\<close>

lemma inv_removeConnection:
  assumes inv: "srv_inv view h {o1} R S" and o1: "created h S o1" and l: "l = conn_loop S o1" "l \<in> loop_set S"
    and tid: "tid = threadId (ios S l)"
    and o: "c_name (conns (ios S l) o1) = obj_name h S o1" "wf_in o1 (ios S l)" "life_at S o1 = Closing"
    and t: "\<And>m. m \<in> loop_set S \<Longrightarrow> waiting_ok S o1 Closing m (life_tasks R S o1 m)"
  shows "\<exists>S'. removeConnection tid o1 S = Inr S' \<and> srv_inv view h {} R S' \<and> step_of o1 S S'"
proof -
  have here: "isInLoopThread tid (ios S (s_loop S)) \<longleftrightarrow> l = s_loop S"
    using srv_invD(6) [OF inv l(2) own_loop_in_set] unfolding isInLoopThread_def tid by metis
  define t' where "t' = (if l = s_loop S then ConnectDestroyed o1 else RemoveConnectionInLoop o1)"
  define c where "c = (if l = s_loop S then (connections S)(obj_name h S o1 := None) else connections S)"
  define S' where "S' = S\<lparr>connections := c, ios := (ios S)(s_loop S := queueInLoop tid t' (ios S (s_loop S)))\<rparr>"
  have r: "removeConnection tid o1 S = Inr S'"
  proof (cases "l = s_loop S")
    case True
    then have "removeConnection tid o1 S = removeConnectionInLoop tid o1 S"
      using here by (simp add: removeConnection_def run_in_def)
    also have "\<dots> = Inr S'"
      using True l(1) o(1) by (simp add: removeConnectionInLoop_def upd_io_def Let_def S'_def c_def t'_def)
    finally show ?thesis .
  next
    case False
    then show ?thesis using here by (simp add: removeConnection_def run_in_def upd_io_def S'_def c_def t'_def)
  qed
  have i: "srv_inv view h {o1} R S'"
    unfolding S'_def using inv_queue_step [OF inv o1 life_held(1), of t' "s_loop S" c R tid] o(3)
o1 by (simp add: t'_def life_task_def c_def)
  have ch: "chans (queueInLoop tid u W) = chans W" for u and W :: "'a io" by (simp add: queue_defs)
  have io: "conns (ios S' m) = conns (ios S m)" "chans (ios S' m) = chans (ios S m)"
    "threadId (ios S' m) = threadId (ios S m)" "wakeupChannel (ios S' m) = wakeupChannel (ios S m)" for m
    by (simp_all add: S'_def ch)
  have b: "same_books S S'" by (simp add: S'_def same_books_def)
  note B = same_books_simps [OF b]
  have cl: "conn_loop S' = conn_loop S" "s_loop S' = s_loop S" using b by (simp_all add: same_books_def)
  have lt: "life_tasks R S' o1 m = life_tasks R S o1 m @ (if m = s_loop S then [t'] else [])" for m
    by (simp add: life_tasks_def todo_def S'_def t'_def life_task_def)
  have tc: "t' \<in> closing_tasks S o1 (s_loop S)" using l(1) by (simp add: t'_def closing_tasks_def)
  have e: "life_at S' o1 = Closing" using o(3) by (simp add: life_at_def in_defs cl io)
  have "wf_in o1 (ios S' l)" using o(2) by (simp add: in_defs io)
  moreover have "\<forall>m\<in>loop_set S. waiting_ok S o1 Closing m (life_tasks R S' o1 m)"
    using t tc waiting_close [of S o1 Closing "s_loop S" _ t'] by (simp add: lt)
  moreover have "connections S' (obj_name h S o1) = None" if "l = s_loop S" using that by (simp add: S'_def c_def)
  moreover have "t' \<in> set (life_tasks R S' o1 (s_loop S))" by (simp add: lt)
  ultimately have "obj_inv h R S' o1"
    unfolding obj_inv_def B cl io e using l o(1) by (cases "l = s_loop S") (simp_all add: t'_def)
  with i have "srv_inv view h {} R S'" by (rule srv_inv_done)
  moreover have "step_of o1 S S'" using b e io by (simp add: step_of_def others_same_def)
  ultimately show ?thesis using r by blast
qed

lemma inv_handleClose:
  assumes doc: "epoll_documented ctl view" and inv: "srv_inv view h {} R S" and o1: "created h S o1"
    and e: "life_at S o1 \<in> {Live, Closing}" and tid: "tid = threadId (ios S (conn_loop S o1))"
  shows "\<exists>S'. server_handleClose ctl tid o1 S = Inr S' \<and> srv_inv view h {} R S' \<and> step_of o1 S S'"
proof -
  let ?l = "conn_loop S o1"
  note r = inv_runnable [OF inv _ o1 refl e, simplified]
  obtain W where W: "handleClose ctl (\<lambda>_. Inr) o1 (ios S ?l) = Inr W" "runnable view (used_chans h R S ?l) o1 W"
      "life_in o1 W = Closing" "framed o1 (ios S ?l) W" "pendingFunctors W = pendingFunctors (ios S ?l)"
    using handleClose_closing [OF doc r(1)] by blast
  let ?S = "S\<lparr>ios := (ios S)(?l := W)\<rparr>"
  have "insert o1 (used_chans h R S ?l) = used_chans h R S ?l" using used_own [OF o1 life_held(2) [OF e]] by simp
  then have i: "srv_inv view h {o1} R ?S"
    using W(2) by (intro inv_own_step [OF inv o1 refl W(4)]) (simp_all add: runnable_def)
  have b: "same_books S ?S" by simp
  note B = same_books_simps [OF b]
  have s: "step_of o1 S ?S" using framed_others [OF W(4)] W(3) by (simp add: step_of_def life_at_def)
  have "life_tasks R ?S o1 m = life_tasks R S o1 m" for m using W(5) by (simp add: life_tasks_def todo_def)
  moreover have "waiting_ok S o1 Closing m (life_tasks R S o1 m)" if "m \<in> loop_set S" for m
    using waiting_closing [OF obj_inv_waiting [OF srv_invD(4) [OF inv o1] _ that] e] e by auto
  ultimately have "\<exists>S'. removeConnection tid o1 ?S = Inr S' \<and> srv_inv view h {} R S' \<and> step_of o1 ?S S'"
    using W r tid o1 by (intro inv_removeConnection [OF i, of ?l])
      (simp_all add: B runnable_def life_at_def framed_def)
  then show ?thesis using W(1) s by (auto simp: server_handleClose_def upd_io_def intro: step_of_trans)
qed

lemma inv_handleWrite:
  assumes doc: "epoll_documented ctl view" and inv: "srv_inv view h {} R S" and o1: "created h S o1"
    and e: "life_at S o1 \<in> {Live, Closing}" and w: "write_documented w"
  shows "\<exists>S'. upd_io (conn_loop S o1) (handleWrite ctl w o1) S = Inr S' \<and> srv_inv view h {} R S' \<and> step_of o1 S S'"
proof -
  note r = inv_runnable [OF inv _ o1 refl e, simplified]
  obtain W where W: "handleWrite ctl w o1 (ios S (conn_loop S o1)) = Inr W"
      "runnable view (used_chans h R S (conn_loop S o1)) o1 W" "same_life o1 (ios S (conn_loop S o1)) W"
    using handleWrite_runnable [OF doc r(1) w] by blast
  show ?thesis using W(1) inv_same_life [OF inv o1 refl W(2,3), of R] by (simp add: upd_io_def)
qed

lemma inv_user:
  assumes doc: "epoll_documented ctl view" and inv: "srv_inv view h {} R S" and o1: "created h S o1"
    and e: "life_at S o1 \<in> {Live, Closing}" and a: "\<forall>a\<in>set as. user_allowed a"
    and room: "length (store (outputBuffer (conns (ios S (conn_loop S o1)) o1))) + sum_list (map user_cost as) \<le> vec_max_size"
  shows "\<exists>S'. upd_io (conn_loop S o1) (run_all (user_step ctl o1) as) S = Inr S' \<and> srv_inv view h {} R S' \<and> step_of o1 S S'"
proof -
  note r = inv_runnable [OF inv _ o1 refl e, simplified]
  obtain W where W: "run_all (user_step ctl o1) as (ios S (conn_loop S o1)) = Inr W"
      "runnable view (used_chans h R S (conn_loop S o1)) o1 W" "same_life o1 (ios S (conn_loop S o1)) W"
    using usr.session_ok [OF conjI [OF doc r(1)] a room] by blast
  show ?thesis using W(1) inv_same_life [OF inv o1 refl W(2,3), of R] by (simp add: upd_io_def)
qed

lemma readFd_sint:
  assumes b: "buffer_inv b" and f: "readv_documented f" "f (iov_lens b) = ROk ds"
    and room: "length (store b) + kExtraSize \<le> vec_max_size"
  shows "\<exists>b'. readFd f b = Inr (of_nat (length ds), None, b') \<and> buffer_inv b'"
    "sint (of_nat (length ds) :: size_t) = int (length ds)"
proof -
  show "\<exists>b'. readFd f b = Inr (of_nat (length ds), None, b') \<and> buffer_inv b'"
    using readFd_ok [OF b f room] by blast
  have "length ds \<le> unat (writeableBytes b) + kExtraSize"
    using iov_lens_sum [OF b] f by (fastforce simp: readv_documented_def split: if_splits)
  then have "length ds < 2 ^ 63" using buffer_invD(3) [OF b] room by (simp add: vec_max_size_def)
  then show "sint (of_nat (length ds) :: size_t) = int (length ds)"
    by (simp add: signed_of_nat signed_take_bit_int_eq_self)
qed

lemma same_life_calls: "same_life o1 W W' \<Longrightarrow> same_life o1 W (W'\<lparr>calls := cs\<rparr>)"
  by (auto simp: same_life_def intro: framed_trans framed_calls)

lemma runnable_calls: "runnable view P o1 W \<Longrightarrow> runnable view P o1 (W\<lparr>calls := cs\<rparr>)"
  by (simp add: runnable_def)

lemma inv_handleRead:
  assumes doc: "epoll_documented ctl view" and inv: "srv_inv view h {} R S" and o1: "created h S o1"
    and e: "life_at S o1 \<in> {Live, Closing}" and tid: "tid = threadId (ios S (conn_loop S o1))"
    and f: "readv_documented f" "f (iov_lens (inputBuffer (conns (ios S (conn_loop S o1)) o1))) = ROk ds"
    and room: "length (store (inputBuffer (conns (ios S (conn_loop S o1)) o1))) + kExtraSize \<le> vec_max_size"
  shows "\<exists>S'. server_handleRead ctl tid f o1 S = Inr S' \<and> srv_inv view h {} R S' \<and> step_of o1 S S'"
proof -
  let ?l = "conn_loop S o1"
  let ?c = "conns (ios S ?l) o1"
  note r = inv_runnable [OF inv _ o1 refl e, simplified]
  have c: "buffer_inv (inputBuffer ?c)" "messageCallback ?c"
    using r(1) by (simp_all add: runnable_def in_defs conn_wf_def)
  obtain b where b: "readFd f (inputBuffer ?c) = Inr (of_nat (length ds), None, b)" "buffer_inv b"
    using readFd_sint(1) [OF c(1) f room] by blast
  note n = readFd_sint(2) [OF c(1) f room]
  let ?W = "set_conn o1 (\<lambda>c. c\<lparr>inputBuffer := b\<rparr>) (ios S ?l)"
  let ?S = "S\<lparr>ios := (ios S)(?l := ?W)\<rparr>"
  have W: "runnable view (used_chans h R S ?l) o1 ?W \<and> same_life o1 (ios S ?l) ?W"
    by (rule set_conn_runnable [OF r(1)]) (use b(2) in simp_all)
  show ?thesis
  proof (cases "ds = []")
    case True
    have i: "srv_inv view h {} R ?S" "step_of o1 S ?S"
      using inv_same_life [OF inv o1 refl, of ?W R] W by simp_all
    have "created h ?S o1" "life_at ?S o1 \<in> {Live, Closing}" "tid = threadId (ios ?S (conn_loop ?S o1))"
      using o1 e i(2) tid by (simp_all add: created_def step_of_def)
    from inv_handleClose [OF doc i(1) this] obtain S' where
      "server_handleClose ctl tid o1 ?S = Inr S'" "srv_inv view h {} R S'" "step_of o1 ?S S'" by blast
    moreover have "server_handleRead ctl tid f o1 S = server_handleClose ctl tid o1 ?S"
      using b(1) True by (simp add: server_handleRead_def Let_def upd_io_def)
    ultimately show ?thesis using i(2) by (auto intro: step_of_trans)
  next
    case False
    let ?W1 = "?W\<lparr>calls := calls ?W @ [MessageCall o1]\<rparr>"
    have "server_handleRead ctl tid f o1 S = Inr (S\<lparr>ios := (ios S)(?l := ?W1)\<rparr>)"
      using b(1) False n c(2) by (simp add: server_handleRead_def Let_def upd_io_def call_user_def)
    then show ?thesis
      using inv_same_life [OF inv o1 refl, of ?W1 R] W by (simp add: runnable_calls same_life_calls)
  qed
qed

section \<open>Steps of a loop that leave every connection alone\<close>

lemma poller_inv_revents:
  assumes "\<And>q. \<exists>r. chans W' q = (chans W q)\<lparr>ch_revents := r\<rparr>" "channels W' = channels W" "epollfd W' = epollfd W"
  shows "poller_inv view P W' \<longleftrightarrow> poller_inv view P W"
proof -
  have c: "ch_fd (chans W' q) = ch_fd (chans W q)" "ch_index (chans W' q) = ch_index (chans W q)"
    "ch_events (chans W' q) = ch_events (chans W q)" for q
    using assms(1) [of q] by auto
  then have "interest W' fd = interest W fd" for fd
    by (simp add: interest_def assms(2) cong: if_cong split: option.split)
  then have "interest W' = interest W" ..
  then show ?thesis by (simp add: poller_inv_def assms c)
qed

definition quiet :: "('k, 'z) io_scheme \<Rightarrow> ('k, 'z) io_scheme \<Rightarrow> bool" where
  "quiet W W' \<longleftrightarrow> conns W' = conns W \<and> (\<forall>q. \<exists>r. chans W' q = (chans W q)\<lparr>ch_revents := r\<rparr>)
     \<and> channels W' = channels W \<and> epollfd W' = epollfd W \<and> threadId W' = threadId W \<and> wakeupChannel W' = wakeupChannel W"

lemma quiet_same:
  assumes "\<And>m. ios S' m = ios S m \<or> quiet (ios S m) (ios S' m)" "conn_loop S' = conn_loop S"
  shows "life_at S' = life_at S" "conns (ios S' m) = conns (ios S m)" "wf_in q (ios S' m) = wf_in q (ios S m)"
    "poller_inv view P (ios S' m) = poller_inv view P (ios S m)" "threadId (ios S' m) = threadId (ios S m)"
    "wakeupChannel (ios S' m) = wakeupChannel (ios S m)" "\<exists>r. chans (ios S' m) q = (chans (ios S m) q)\<lparr>ch_revents := r\<rparr>"
proof -
  have c: "conns (ios S' m) = conns (ios S m)" for m using assms(1) [of m] by (auto simp: quiet_def)
  have r: "\<exists>r. chans (ios S' m) q = (chans (ios S m) q)\<lparr>ch_revents := r\<rparr>" for m q
    using assms(1) [of m] by (auto simp: quiet_def intro: exI [of _ "ch_revents (chans (ios S m) q)"])
  have l: "life_in q (ios S' m) = life_in q (ios S m)" "wf_in q (ios S' m) = wf_in q (ios S m)" for m q
    using r [of m q] by (auto simp: in_defs c)
  then show "life_at S' = life_at S" by (simp add: life_at_def fun_eq_iff assms(2))
  show "poller_inv view P (ios S' m) = poller_inv view P (ios S m)"
    using assms(1) [of m] poller_inv_revents [of "ios S' m" "ios S m"] by (auto simp: quiet_def)
  show "conns (ios S' m) = conns (ios S m)" "wf_in q (ios S' m) = wf_in q (ios S m)"
    "\<exists>r. chans (ios S' m) q = (chans (ios S m) q)\<lparr>ch_revents := r\<rparr>" using c l r by simp_all
  show "threadId (ios S' m) = threadId (ios S m)" "wakeupChannel (ios S' m) = wakeupChannel (ios S m)"
    using assms(1) [of m] by (auto simp: quiet_def)
qed

lemma inv_quiet:
  assumes inv: "srv_inv view h {} R S" and W: "quiet (ios S l) W'"
    and t: "\<And>q m. life_tasks R' (S\<lparr>ios := (ios S)(l := W')\<rparr>) q m = life_tasks R S q m"
      "\<And>m t. m \<in> loop_set S \<Longrightarrow> t \<in> set (todo R' (S\<lparr>ios := (ios S)(l := W')\<rparr>) m) \<Longrightarrow> task_fine h S t"
  shows "srv_inv view h {} R' (S\<lparr>ios := (ios S)(l := W')\<rparr>)"
proof -
  let ?S = "S\<lparr>ios := (ios S)(l := W')\<rparr>"
  have "ios ?S m = ios S m \<or> quiet (ios S m) (ios ?S m)" for m using W by simp
  note Q = quiet_same [of ?S S, OF this, simplified]
  have b: "same_books S ?S" by simp
  note B = same_books_simps [OF b]
  have "held R' ?S = held R S" using Q(1) t(1) by (simp add: held_def B fun_eq_iff)
  then have u: "base_chans ?S = base_chans S" "used_chans h R' ?S = used_chans h R S"
    using Q(6) by (simp_all add: base_chans_def used_chans_def created_def fun_eq_iff)
  have c: "readCallback (chans (ios ?S m) q) = readCallback (chans (ios S m) q)"
    "writeCallback (chans (ios ?S m) q) = writeCallback (chans (ios S m) q)"
    "closeCallback (chans (ios ?S m) q) = closeCallback (chans (ios S m) q)" for m q
    using Q(7) [of m q] by auto
  have "wakeupChannel (ios ?S m) = wakeupChannel (ios S m)" for m using Q(6) by simp
  then have "base_ok h ?S m = base_ok h S m" for m unfolding base_ok_def c by simp
  moreover have "obj_inv h R' ?S q \<longleftrightarrow> obj_inv h R S q" for q
    by (rule obj_inv_cong) (use Q t(1) in \<open>simp_all add: B\<close>)
  ultimately show ?thesis
    using inv t(2) Q(4,5) unfolding srv_inv_def B u by (simp add: same_books_def)
qed

section \<open>The functors\<close>

text \<open>Which object a life functor at the head of the queue finds.\<close>

lemma life_task_at:
  assumes inv: "srv_inv view h {} R S" and l: "l \<in> loop_set S" and t: "t \<in> set (todo R S l)" "life_task o1 t"
  shows "created h S o1"
    "t = ConnectionEstablished o1 \<Longrightarrow> l = conn_loop S o1 \<and> life_at S o1 = Fresh"
    "t = ConnectDestroyed o1 \<Longrightarrow> l = conn_loop S o1 \<and> life_at S o1 \<in> {Closing, Gone}"
    "t = RemoveConnectionInLoop o1 \<Longrightarrow> l = s_loop S \<and> life_at S o1 \<in> {Closing, Gone}"
    "raw_task o1 t \<Longrightarrow> l = conn_loop S o1 \<and> life_at S o1 \<in> {Live, Closing}"
proof -
  show o1: "created h S o1" using srv_invD(3) [OF inv l t(1)] t(2) by (auto simp: task_kinds)
  have o: "obj_inv h R S o1" using srv_invD(4) [OF inv o1] by simp
  have t': "t \<in> set (life_tasks R S o1 l)" using t by (simp add: life_tasks_def)
  have "t \<in> closing_tasks S o1 l \<and> life_at S o1 \<in> {Closing, Gone}
      \<or> raw_task o1 t \<and> l = conn_loop S o1 \<and> life_at S o1 \<in> {Live, Closing}
      \<or> t = ConnectionEstablished o1 \<and> l = conn_loop S o1 \<and> life_at S o1 = Fresh"
  proof (cases "life_at S o1 = Fresh")
    case True
    then show ?thesis using o l t' by (auto simp: obj_inv_def split: if_splits)
  next
    case False
    from waiting_mem [OF obj_inv_waiting [OF o False l] t'] show ?thesis using False by (cases "life_at S o1") auto
  qed
  then show "t = ConnectionEstablished o1 \<Longrightarrow> l = conn_loop S o1 \<and> life_at S o1 = Fresh"
    "t = ConnectDestroyed o1 \<Longrightarrow> l = conn_loop S o1 \<and> life_at S o1 \<in> {Closing, Gone}"
    "t = RemoveConnectionInLoop o1 \<Longrightarrow> l = s_loop S \<and> life_at S o1 \<in> {Closing, Gone}"
    "raw_task o1 t \<Longrightarrow> l = conn_loop S o1 \<and> life_at S o1 \<in> {Live, Closing}"
    by (auto simp: closing_tasks_def raw_task_def split: if_splits)
qed

text \<open>The functors that establish and destroy a connection find it in its own loop and phase, its channel in use.\<close>

lemma established_task:
  assumes inv: "srv_inv view h {} R S" and l: "l \<in> loop_set S" and t: "ConnectionEstablished o1 \<in> set (todo R S l)"
  shows "created h S o1" "l = conn_loop S o1" "life_at S o1 = Fresh" "wf_in o1 (ios S l)" "life_in o1 (ios S l) = Fresh"
    "o1 \<in> used_chans h R S l"
proof -
  have lt: "life_task o1 (ConnectionEstablished o1)" by (simp add: life_task_def)
  note a = life_task_at [OF inv l t lt]
  show c: "created h S o1" and e: "l = conn_loop S o1" "life_at S o1 = Fresh" using a(1,2) by simp_all
  show "wf_in o1 (ios S l)" using srv_invD(4) [OF inv a(1)] e(1) by (simp add: obj_inv_def)
  show "life_in o1 (ios S l) = Fresh" using e by (simp add: life_at_def)
  show "o1 \<in> used_chans h R S l" using a(1) e by (simp add: used_chans_def held_def)
qed

lemma destroyed_task:
  assumes inv: "srv_inv view h {} R S" and l: "l \<in> loop_set S" and t: "ConnectDestroyed o1 \<in> set (todo R S l)"
  shows "created h S o1" "l = conn_loop S o1" "life_at S o1 \<in> {Closing, Gone}" "wf_in o1 (ios S l)"
    "life_in o1 (ios S l) \<in> {Closing, Gone}" "o1 \<in> used_chans h R S l"
proof -
  have lt: "life_task o1 (ConnectDestroyed o1)" by (simp add: life_task_def)
  note a = life_task_at [OF inv l t lt]
  show c: "created h S o1" and e: "l = conn_loop S o1" "life_at S o1 \<in> {Closing, Gone}" using a(1,3) by simp_all
  show "wf_in o1 (ios S l)" using srv_invD(4) [OF inv a(1)] e(1) by (simp add: obj_inv_def)
  show "life_in o1 (ios S l) \<in> {Closing, Gone}" using e by (simp add: life_at_def)
  have "life_tasks R S o1 l \<noteq> []" using t lt by (auto simp: life_tasks_def filter_empty_conv)
  then show "o1 \<in> used_chans h R S l" using a(1) e(1) l by (auto simp: used_chans_def held_def)
qed

lemma drop_task:
  assumes "R l = t # ts" "R' = R(l := ts)"
  shows "set (R' m) \<subseteq> set (R m)" "\<not> life_task q t \<Longrightarrow> filter (life_task q) (R' m) = filter (life_task q) (R m)"
    "life_task q t \<Longrightarrow> filter (life_task q) (R m) = (if m = l then t # filter (life_task q) (R' m) else filter (life_task q) (R' m))"
  using assms by auto

lemma inv_established:
  assumes doc: "epoll_documented ctl view" and inv: "srv_inv view h {o1} R S" and o1: "created h S o1"
    and l: "l = conn_loop S o1" "l \<in> loop_set S" and wf: "wf_in o1 (ios S l)" "life_at S o1 = Fresh"
    and c: "c_name (conns (ios S l) o1) = obj_name h S o1" "connections S (obj_name h S o1) = Some o1"
    and R: "\<And>q m. q \<noteq> o1 \<Longrightarrow> filter (life_task q) (R' m) = filter (life_task q) (R m)" "\<And>m. set (R' m) \<subseteq> set (R m)"
    and t: "\<And>m. m \<in> loop_set S \<Longrightarrow> life_tasks R' S o1 m = []"
  shows "\<exists>S'. upd_io l (connectionEstablished ctl o1) S = Inr S' \<and> srv_inv view h {} R' S'
    \<and> same_books S S' \<and> others_same o1 S S' \<and> life_at S' o1 = Live"
proof -
  have "o1 \<in> used_chans h R S l" using o1 l wf(2) by (simp add: used_chans_def held_def)
  moreover have "life_in o1 (ios S l) = Fresh" using wf(2) l(1) by (simp add: life_at_def)
  ultimately obtain W where W: "connectionEstablished ctl o1 (ios S l) = Inr W" "poller_inv view (used_chans h R S l) W"
      "wf_in o1 W" "life_in o1 W = Live" "framed o1 (ios S l) W" "pendingFunctors W = pendingFunctors (ios S l)"
    using established_live [OF doc srv_invD(1) [OF inv l(2)] _ wf(1)] by blast
  let ?S = "S\<lparr>ios := (ios S)(l := W)\<rparr>"
  have "insert o1 (used_chans h R S l) = used_chans h R S l" using used_own [OF o1 life_held(1)] wf(2) l by auto
  then have i: "srv_inv view h {o1} R' ?S"
    using inv_own_step [OF inv o1 l(1) W(5) R] W(2) by simp
  have b: "same_books S ?S" by simp
  note B = same_books_simps [OF b]
  have "life_tasks R' ?S o1 m = life_tasks R' S o1 m" for m using W(6) by (simp add: life_tasks_def todo_def)
  moreover have "life_at ?S o1 = Live" "c_name (conns W o1) = obj_name h S o1"
    using W(4,5) c(1) l(1) by (simp_all add: life_at_def framed_def)
  ultimately have "obj_inv h R' ?S o1" unfolding obj_inv_def B using W(3) c(2) l t by (simp add: B)
  with i have "srv_inv view h {} R' ?S" by (rule srv_inv_done)
  then show ?thesis using W(1,4) framed_others [OF W(5)] l(1) by (simp add: upd_io_def life_at_def)
qed

lemma inv_task_established:
  assumes doc: "epoll_documented ctl view" and inv: "srv_inv view h {} R S" and l: "l \<in> loop_set S"
    and R: "R l = ConnectionEstablished o1 # ts" "R' = R(l := ts)"
  shows "\<exists>S'. upd_io l (connectionEstablished ctl o1) S = Inr S' \<and> srv_inv view h {} R' S'
    \<and> same_books S S' \<and> others_same o1 S S' \<and> l = conn_loop S o1 \<and> created h S o1"
proof -
  have "ConnectionEstablished o1 \<in> set (todo R S l)" using R(1) by (simp add: todo_def)
  note a = established_task [OF inv l this]
  note e = a(2,3)
  have o: "obj_inv h R S o1" using srv_invD(4) [OF inv a(1)] by simp
  have "\<exists>S'. upd_io l (connectionEstablished ctl o1) S = Inr S' \<and> srv_inv view h {} R' S'
    \<and> same_books S S' \<and> others_same o1 S S' \<and> life_at S' o1 = Live"
  proof (rule inv_established [OF doc _ a(1) e(1) l _ e(2)])
    show "srv_inv view h {o1} R S" using inv by (simp add: srv_inv_def)
    show "filter (life_task q) (R' m) = filter (life_task q) (R m)" if "q \<noteq> o1" for q m
      by (rule drop_task(2) [of R l "ConnectionEstablished o1" ts]) (use R that in \<open>auto simp: life_task_def\<close>)
    show "set (R' m) \<subseteq> set (R m)" for m by (rule drop_task(1) [OF R])
    show "life_tasks R' S o1 m = []" if "m \<in> loop_set S" for m
    proof -
      have "life_tasks R S o1 m = (if m = conn_loop S o1 then [ConnectionEstablished o1] else [])"
        using o e(2) that by (simp add: obj_inv_def)
      then show ?thesis using R e(1) by (auto simp: life_tasks_def todo_def life_task_def split: if_splits)
    qed
  qed (use o e in \<open>simp_all add: obj_inv_def\<close>)
  then show ?thesis using e a(1) by blast
qed

lemma inv_task_destroyed:
  assumes doc: "epoll_documented ctl view" and inv: "srv_inv view h {} R S" and l: "l \<in> loop_set S"
    and R: "R l = ConnectDestroyed o1 # ts" "R' = R(l := ts)"
  shows "\<exists>S'. upd_io l (connectDestroyed ctl o1) S = Inr S' \<and> srv_inv view h {} R' S'
    \<and> same_books S S' \<and> others_same o1 S S' \<and> l = conn_loop S o1 \<and> created h S o1"
proof -
  have "ConnectDestroyed o1 \<in> set (todo R S l)" using R(1) by (simp add: todo_def)
  note a = destroyed_task [OF inv l this]
  note e = a(2,3)
  have o: "obj_inv h R S o1" using srv_invD(4) [OF inv a(1)] by simp
  have u: "insert o1 (used_chans h R S l) = used_chans h R S l" using a(6) by blast
  obtain W where W: "connectDestroyed ctl o1 (ios S l) = Inr W" "poller_inv view (used_chans h R S l) W"
      "wf_in o1 W" "life_in o1 W = Gone" "framed o1 (ios S l) W" "pendingFunctors W = pendingFunctors (ios S l)"
    using connectDestroyed_gone [OF doc srv_invD(1) [OF inv l] a(6,4,5)] by blast
  let ?S = "S\<lparr>ios := (ios S)(l := W)\<rparr>"
  have i: "srv_inv view h {o1} R' ?S"
  proof (rule inv_own_step [OF inv a(1) e(1) W(5)])
    show "filter (life_task q) (R' m) = filter (life_task q) (R m)" if "q \<noteq> o1" for q m
      by (rule drop_task(2) [of R l "ConnectDestroyed o1" ts]) (use R that in \<open>auto simp: life_task_def\<close>)
    show "set (R' m) \<subseteq> set (R m)" for m by (rule drop_task(1) [OF R])
  qed (use W(2) u in simp)
  have b: "same_books S ?S" by simp
  note B = same_books_simps [OF b]
  have lt: "life_tasks R S o1 m = (if m = l then [ConnectDestroyed o1] else []) @ life_tasks R' ?S o1 m" for m
    using R W(6) by (simp add: life_tasks_def todo_def life_task_def)
  have w: "waiting_ok S o1 (life_at S o1) m (life_tasks R S o1 m)" if "m \<in> loop_set S" for m
    using obj_inv_waiting [OF o _ that] e(2) by auto
  have "connections S (obj_name h S o1) = Some o1
      \<longrightarrow> RemoveConnectionInLoop o1 \<in> set (life_tasks R S o1 (s_loop S))"
    using o e(2) by (auto simp: obj_inv_def)
  moreover have "waiting_ok S o1 Gone m (life_tasks R' ?S o1 m)" if "m \<in> loop_set S" for m
  proof (rule waiting_all_closing)
    show "set (life_tasks R' ?S o1 m) \<subseteq> closing_tasks S o1 m"
    proof (cases "m = l")
      case True
      have "waiting_ok S o1 (life_at S o1) l (ConnectDestroyed o1 # life_tasks R' ?S o1 l)" using w [OF l] lt [of l] by simp
      then show ?thesis unfolding True by (rule waiting_after) simp
    next
      case False
      then show ?thesis using waiting_mem [OF w [OF that]] e(1) by (auto simp: lt)
    qed
  qed simp
  moreover have "RemoveConnectionInLoop o1 \<in> set (life_tasks R' ?S o1 m)
      \<longleftrightarrow> RemoveConnectionInLoop o1 \<in> set (life_tasks R S o1 m)" for m
    by (simp add: lt)
  moreover have "life_at ?S o1 = Gone" "c_name (conns W o1) = c_name (conns (ios S l) o1)"
    using W(4,5) e(1) by (simp_all add: life_at_def framed_def)
  moreover have "conn_loop S o1 \<in> loop_set S" "c_name (conns (ios S l) o1) = obj_name h S o1"
    using o e(1) by (simp_all add: obj_inv_def)
  ultimately have "obj_inv h R' ?S o1" unfolding obj_inv_def B using W(3) e(1) by (simp add: B)
  with i have "srv_inv view h {} R' ?S" by (rule srv_inv_done)
  then show ?thesis using W(1) framed_others [OF W(5)] e(1) a(1) by (simp add: upd_io_def)
qed

lemma inv_task_remove:
  assumes inv: "srv_inv view h {} R S" and l: "l \<in> loop_set S"
    and R: "R l = RemoveConnectionInLoop o1 # ts" "R' = R(l := ts)"
  shows "\<exists>S'. removeConnectionInLoop (threadId (ios S l)) o1 S = Inr S' \<and> srv_inv view h {} R' S' \<and> step_of o1 S S'
    \<and> l = s_loop S \<and> created h S o1"
proof -
  let ?m = "conn_loop S o1" and ?t = "ConnectDestroyed o1"
  have t: "RemoveConnectionInLoop o1 \<in> set (todo R S l)" "life_task o1 (RemoveConnectionInLoop o1)"
    using R(1) by (simp_all add: todo_def life_task_def)
  note a = life_task_at [OF inv l t]
  have e: "l = s_loop S" "life_at S o1 \<in> {Closing, Gone}" using a(4) by simp_all
  have o: "obj_inv h R S o1" using srv_invD(4) [OF inv a(1)] by simp
  then have m: "?m \<in> loop_set S" "c_name (conns (ios S ?m) o1) = obj_name h S o1" "wf_in o1 (ios S ?m)"
    by (simp_all add: obj_inv_def)
  have "life_tasks R S o1 l \<noteq> []" using t by (auto simp: life_tasks_def filter_empty_conv)
  then have held: "held R S o1" using l by (auto simp: held_def)
  define W where "W = queueInLoop (threadId (ios S l)) ?t (ios S ?m)"
  define S' where "S' = S\<lparr>connections := (connections S)(obj_name h S o1 := None), ios := (ios S)(?m := W)\<rparr>"
  have r: "removeConnectionInLoop (threadId (ios S l)) o1 S = Inr S'"
    using m(2) by (simp add: removeConnectionInLoop_def upd_io_def Let_def S'_def W_def)
  have i: "srv_inv view h {o1} R' S'"
    unfolding S'_def W_def
  proof (rule inv_queue_step [OF inv a(1) held _ _ m(1)])
    show "filter (life_task q) (R' m) = filter (life_task q) (R m)" if "q \<noteq> o1" for q m
      by (rule drop_task(2) [of R l "RemoveConnectionInLoop o1" ts]) (use R that in \<open>auto simp: life_task_def\<close>)
    show "set (R' m) \<subseteq> set (R m)" for m by (rule drop_task(1) [OF R])
  qed (use a(1) in \<open>simp_all add: life_task_def\<close>)
  have ch: "chans W = chans (ios S ?m)" by (simp add: W_def queue_defs)
  have io: "conns (ios S' k) = conns (ios S k)" "chans (ios S' k) = chans (ios S k)"
    "threadId (ios S' k) = threadId (ios S k)" "wakeupChannel (ios S' k) = wakeupChannel (ios S k)" for k
    using ch by (simp_all add: S'_def W_def)
  have b: "same_books S S'" by (simp add: S'_def same_books_def)
  note B = same_books_simps [OF b]
  have cl: "conn_loop S' = conn_loop S" "s_loop S' = s_loop S" using b by (simp_all add: same_books_def)
  have lt0: "(if k = l then [RemoveConnectionInLoop o1] else []) @ life_tasks R' S' o1 k
      = life_tasks R S o1 k @ (if k = ?m then [?t] else [])" for k
    using R by (simp add: life_tasks_def todo_def S'_def W_def life_task_def)
  have lt: "set ((if k = l then [RemoveConnectionInLoop o1] else []) @ life_tasks R' S' o1 k)
      = set (life_tasks R S o1 k @ (if k = ?m then [?t] else []))" for k by (simp only: lt0)
  have "waiting_ok S o1 (life_at S o1) k (life_tasks R' S' o1 k)" if "k \<in> loop_set S" for k
  proof -
    have w: "waiting_ok S o1 (life_at S o1) k (life_tasks R S o1 k)" using obj_inv_waiting [OF o _ that] e(2) by auto
    have "waiting_ok S o1 (life_at S o1) k (life_tasks R S o1 k @ (if k = ?m then [?t] else []))"
      using w waiting_close [OF w e(2), of ?t] by (cases "k = ?m") (simp_all add: closing_tasks_def)
    then have w': "waiting_ok S o1 (life_at S o1) k ((if k = l then [RemoveConnectionInLoop o1] else []) @ life_tasks R' S' o1 k)"
      by (simp only: lt0)
    show ?thesis
    proof (cases "k = l")
      case True
      then show ?thesis using waiting_all_closing [OF waiting_after, of S o1 "life_at S o1" k] w' e(2) by auto
    next
      case False
      then show ?thesis using w' by simp
    qed
  qed
  moreover have "?t \<in> set (life_tasks R' S' o1 ?m)" using lt [of ?m] by (auto split: if_splits)
  moreover have "connections S' (obj_name h S o1) = None" by (simp add: S'_def)
  moreover have "life_at S' o1 = life_at S o1" "wf_in o1 (ios S' ?m)"
    using m(3) by (simp_all add: life_at_def in_defs cl io)
  ultimately have "obj_inv h R' S' o1" unfolding obj_inv_def B cl io using e(2) m by auto
  with i have "srv_inv view h {} R' S'" by (rule srv_inv_done)
  moreover have "step_of o1 S S'" using b io \<open>life_at S' o1 = life_at S o1\<close> by (simp add: step_of_def others_same_def)
  ultimately show ?thesis using r e(1) a(1) by blast
qed

text \<open>
  What a functor with a bare address may assume: \<open>write\<close> as documented, and room for what it may have to
  keep back.
\<close>

fun task_ok :: "io_env \<Rightarrow> task \<Rightarrow> 'k server \<Rightarrow> bool" where
  "task_ok E (SendInLoopStr o1 ds) S \<longleftrightarrow> write_documented (e_write E)
     \<and> length (store (outputBuffer (conns (ios S (conn_loop S o1)) o1))) + length ds \<le> vec_max_size"
| "task_ok E t S \<longleftrightarrow> True"

lemma raw_task_runnable:
  assumes doc: "epoll_documented ctl view" and r: "runnable view P o1 (ios S (conn_loop S o1))"
    and t: "raw_task o1 t" "task_fine h S t" "task_ok E t S"
  shows "\<exists>W. conn_task ctl (e_write E) mem other t (ios S (conn_loop S o1)) = Inr W \<and> runnable view P o1 W
    \<and> same_life o1 (ios S (conn_loop S o1)) W"
proof (cases t)
  case (SendInLoopStr q ds)
  then show ?thesis using t sendInLoop_runnable [OF doc r, of "e_write E" ds] by auto
next
  case (ShutdownInLoop q)
  then show ?thesis using t shutdownInLoop_runnable [OF r] by simp
qed (use t in simp_all)

lemma inv_task_raw:
  assumes doc: "epoll_documented ctl view" and inv: "srv_inv view h {} R S" and l: "l \<in> loop_set S"
    and R: "R l = t # ts" "R' = R(l := ts)" and t: "raw_task o1 t" "task_ok E t S"
  shows "\<exists>S'. upd_io l (conn_task ctl (e_write E) mem other t) S = Inr S' \<and> srv_inv view h {} R' S' \<and> step_of o1 S S'
    \<and> l = conn_loop S o1 \<and> created h S o1"
proof -
  have m: "t \<in> set (todo R S l)" "life_task o1 t" using R(1) t(1) by (simp_all add: todo_def life_task_def)
  note a = life_task_at [OF inv l m]
  have e: "l = conn_loop S o1" "life_at S o1 \<in> {Live, Closing}" using a(5) [OF t(1)] by simp_all
  have r: "runnable view (used_chans h R S l) o1 (ios S l)" using inv_runnable(1) [OF inv _ a(1) e] by simp
  obtain W where W: "conn_task ctl (e_write E) mem other t (ios S l) = Inr W" "runnable view (used_chans h R S l) o1 W"
      "same_life o1 (ios S l) W"
    using raw_task_runnable [OF doc r [unfolded e(1)] t(1) srv_invD(3) [OF inv l m(1)] t(2)] e(1) by blast
  have nq: "\<not> life_task q t" if "q \<noteq> o1" for q using that t(1) by (auto simp: task_kinds)
  have R1: "filter (life_task q) (R' m) = filter (life_task q) (R m)" if "q \<noteq> o1" for q m
    by (rule drop_task(2) [OF R nq [OF that]])
  have R2: "filter (life_task o1) (R m) = (if m = l then [t] else []) @ filter (life_task o1) (R' m)" for m
    using drop_task(3) [OF R m(2)] by simp
  have "\<forall>u\<in>set [t]. raw_task o1 u" using t(1) by simp
  from inv_same_life_task [OF inv a(1) e(1) W(2,3) R1 drop_task(1) [OF R] R2 this]
  show ?thesis using W(1) e(1) a(1) by (simp add: upd_io_def)
qed

text \<open>
  What \<open>send(Buffer *)\<close> and \<open>shutdown\<close>, called from another thread, do to a connection that is still open: they
  queue a functor and set the state.
\<close>

lemma foreign_live:
  assumes inv: "srv_inv view h {} R S" and n: "connections S n = Some o1"
    and c: "c_state (conns (ios S (conn_loop S o1)) o1) \<in> {kConnected, kDisconnecting}"
  shows "created h S o1" "life_at S o1 = Live"
  using srv_invD(5) [OF inv n] c by (auto simp: life_at_def in_defs life_of_def)

lemma inv_foreign_mark:
  assumes inv: "srv_inv view h {} R S" and n: "connections S n = Some o1" and l: "conn_loop S o1 = l"
    and c: "c_state (conns (ios S l) o1) \<in> {kConnected, kDisconnecting}"
  shows "srv_inv view h {} R (S\<lparr>ios := (ios S)(l := setState kDisconnecting o1 (ios S l))\<rparr>)"
    "step_of o1 S (S\<lparr>ios := (ios S)(l := setState kDisconnecting o1 (ios S l))\<rparr>)"
proof -
  note f = foreign_live [OF inv n c [folded l]]
  have r: "runnable view (used_chans h R S l) o1 (ios S l)" using inv_runnable(1) [OF inv _ f(1) l [symmetric]] f(2) by simp
  have "runnable view (used_chans h R S l) o1 (setState kDisconnecting o1 (ios S l))"
      "same_life o1 (ios S l) (setState kDisconnecting o1 (ios S l))"
    using setState_disconnecting_runnable [OF r c] by simp_all
  from inv_same_life [OF inv f(1) l [symmetric] this, of R]
  show "srv_inv view h {} R (S\<lparr>ios := (ios S)(l := setState kDisconnecting o1 (ios S l))\<rparr>)"
    "step_of o1 S (S\<lparr>ios := (ios S)(l := setState kDisconnecting o1 (ios S l))\<rparr>)" by simp_all
qed

section \<open>A new connection\<close>

text \<open>The server after a connection was made: the new object, and nothing else about the old ones.\<close>

definition grown :: "nat \<Rightarrow> 'k server \<Rightarrow> 'k server \<Rightarrow> bool" where
  "grown h S S' \<longleftrightarrow> s_loop S' = s_loop S \<and> loop_set S' = loop_set S \<and> s_acceptor S' = s_acceptor S
     \<and> next_obj S' = Suc (next_obj S) \<and> (\<forall>q. created h S q \<longrightarrow> conn_loop S' q = conn_loop S q)
     \<and> others_same (next_obj S) S S'"

lemma next_loop_in_set:
  assumes "pool_inv (threadPool S)" "baseLoop (threadPool S) = s_loop S"
  shows "\<exists>l pl. getNextLoop (threadPool S) = Inr (l, pl) \<and> l \<in> loop_set S \<and> pool_inv pl
    \<and> loops pl = loops (threadPool S) \<and> baseLoop pl = baseLoop (threadPool S)"
proof -
  have "getAllLoops (threadPool S) ! unat (next_idx (threadPool S)) \<in> loop_set S"
  proof (cases "loops (threadPool S) = []")
    case False
    then have "unat (next_idx (threadPool S)) < length (loops (threadPool S))"
      using assms by (cases "loops (threadPool S)") (auto simp: pool_inv_def)
    then show ?thesis using False by (simp add: getAllLoops_def loop_set_def)
  qed (use assms in \<open>simp add: pool_inv_def getAllLoops_def loop_set_def\<close>)
  then show ?thesis using getNextLoop_ok [OF assms(1)] by blast
qed

definition new_conn_of :: "'k server \<Rightarrow> buffer \<Rightarrow> buffer \<Rightarrow> conn" where
  "new_conn_of S ib ob = \<lparr>c_name = conn_name S, c_state = kConnecting, c_chan = next_obj S,
     connectionCallback = s_connectionCallback S, messageCallback = s_messageCallback S,
     writeCompleteCallback = s_writeCompleteCallback S, conn_closeCallback = True,
     highWaterMarkCallback = False, highWaterMark = 64 * 1024 * 1024, inputBuffer = ib,
     outputBuffer = ob, wire = [], wr_shut = False, keepAlive = True\<rparr>"

definition made :: "'k server \<Rightarrow> nat \<Rightarrow> nat pool \<Rightarrow> int \<Rightarrow> buffer \<Rightarrow> buffer \<Rightarrow> 'k server" where
  "made S l pl fd ib ob =
     (let o1 = next_obj S in
      S\<lparr>threadPool := pl, nextConnId := nextConnId S + 1, connections := (connections S)(conn_name S \<mapsto> o1),
        conn_loop := (conn_loop S)(o1 := l), next_obj := Suc o1,
        ios := (ios S)(l := set_conn o1 (\<lambda>_. new_conn_of S ib ob) (set_chan o1 (\<lambda>_. conn_channel_new o1 fd) (ios S l)))\<rparr>)"

lemma newConnection_made:
  assumes g: "getNextLoop (threadPool S) = Inr (l, pl)" and n: "sint (nextConnId S) < 2 ^ 31 - 1"
  shows "\<exists>ib ob. newConnection ctl tid fd S = run_in tid l (ConnectionEstablished (next_obj S))
      (upd_io l (connectionEstablished ctl (next_obj S))) (made S l pl fd ib ob)
    \<and> buffer_inv ib \<and> buffer_inv ob \<and> contents ob = [] \<and> length (store ob) = 1032"
proof -
  let ?o = "next_obj S"
  obtain ib ob where c: "conn_new (conn_name S) ?o = Inr \<lparr>c_name = conn_name S, c_state = kConnecting, c_chan = ?o,
         connectionCallback = False, messageCallback = False, writeCompleteCallback = False, conn_closeCallback = False,
         highWaterMarkCallback = False, highWaterMark = 64 * 1024 * 1024, inputBuffer = ib,
         outputBuffer = ob, wire = [], wr_shut = False, keepAlive = True\<rparr>"
      "buffer_inv ib" "buffer_inv ob" "contents ob = []" "length (store ob) = 1032"
    using conn_new_ok by blast
  let ?S2 = "S\<lparr>threadPool := pl, nextConnId := nextConnId S + 1\<rparr>"
  have cn: "conn_name (S\<lparr>threadPool := pl\<rparr>) = conn_name S" by (simp add: conn_name_def)
  have "make_connection (conn_name S) fd l ?S2 = Inr (made S l pl fd ib ob)"
    by (simp add: make_connection_def TcpConnection_new_def c(1) made_def new_conn_of_def upd_io_def Let_def
        set_conn_def set_chan_def)
  then have "newConnection ctl tid fd S = run_in tid l (ConnectionEstablished ?o)
      (upd_io l (connectionEstablished ctl ?o)) (made S l pl fd ib ob)"
    using g n by (simp add: newConnection_def Let_def cn bump_conn_id_def)
  then show ?thesis using c by blast
qed

lemma made_simps [simp]:
  "s_loop (made S l pl fd ib ob) = s_loop S" "s_ipPort (made S l pl fd ib ob) = s_ipPort S"
  "s_name (made S l pl fd ib ob) = s_name S" "s_acceptor (made S l pl fd ib ob) = s_acceptor S"
  "threadPool (made S l pl fd ib ob) = pl" "s_connectionCallback (made S l pl fd ib ob) = s_connectionCallback S"
  "s_messageCallback (made S l pl fd ib ob) = s_messageCallback S"
  "nextConnId (made S l pl fd ib ob) = nextConnId S + 1" "next_obj (made S l pl fd ib ob) = Suc (next_obj S)"
  "connections (made S l pl fd ib ob) = (connections S)(conn_name S \<mapsto> next_obj S)"
  "conn_loop (made S l pl fd ib ob) = (conn_loop S)(next_obj S := l)"
  "threadId (ios (made S l pl fd ib ob) m) = threadId (ios S m)"
  "wakeupChannel (ios (made S l pl fd ib ob) m) = wakeupChannel (ios S m)"
  "pendingFunctors (ios (made S l pl fd ib ob) m) = pendingFunctors (ios S m)"
  "conns (ios (made S l pl fd ib ob) m) = (if m = l then (conns (ios S m))(next_obj S := new_conn_of S ib ob) else conns (ios S m))"
  "chans (ios (made S l pl fd ib ob) m) =
     (if m = l then (chans (ios S m))(next_obj S := conn_channel_new (next_obj S) fd) else chans (ios S m))"
  by (simp_all add: made_def Let_def fun_eq_iff set_chan_def)

lemma inv_made:
  fixes ib ob :: buffer
  assumes inv: "srv_inv view h {} R S" and l: "l \<in> loop_set S" "loops pl = loops (threadPool S)"
      "baseLoop pl = baseLoop (threadPool S)" "pool_inv pl"
    and fresh: "\<forall>p\<in>used_chans h R S l. ch_fd (chans (ios S l) p) \<noteq> fd"
    and id: "sint (nextConnId S) < 2 ^ 31 - 1"
  defines "S' \<equiv> made S l pl fd ib ob"
  shows "srv_inv view h {next_obj S} R S'" "grown h S S'" "obj_name h S' (next_obj S) = conn_name S"
    "\<And>m. m \<in> loop_set S \<Longrightarrow> life_tasks R S' (next_obj S) m = []" "life_at S' (next_obj S) = Fresh"
proof -
  let ?o = "next_obj S"
  have h: "h \<le> ?o" using inv by (simp add: srv_inv_def)
  have sl: "s_loop S' = s_loop S" by (simp add: S'_def)
  have ls: "loop_set S' = loop_set S" using l(2) by (simp add: loop_set_def S'_def)
  have cr: "created h S' q \<longleftrightarrow> created h S q \<or> q = ?o" for q using h by (auto simp: created_def S'_def)
  have on: "obj_name h S' = obj_name h S" by (simp add: obj_name_def full_name_def fun_eq_iff S'_def)
  have nm: "conn_name S = obj_name h S ?o" using inv by (simp add: conn_name_full srv_inv_def obj_name_def)
  then show "obj_name h S' ?o = conn_name S" by (simp add: on)
  have lt: "life_tasks R S' = life_tasks R S" by (simp add: life_tasks_def todo_def fun_eq_iff S'_def)
  have no: "life_tasks R S ?o m = []" if "m \<in> loop_set S" for m
  proof -
    have "\<not> life_task ?o t" if "t \<in> set (todo R S m)" for t
      using srv_invD(3) [OF inv \<open>m \<in> loop_set S\<close> that] by (auto simp: task_kinds created_def)
    then show ?thesis by (simp add: life_tasks_def filter_empty_conv)
  qed
  then show "\<And>m. m \<in> loop_set S \<Longrightarrow> life_tasks R S' ?o m = []" by (simp add: lt)
  have os: "others_same ?o S S'" by (simp add: others_same_def S'_def)
  then show "grown h S S'" using ls by (simp add: grown_def S'_def created_def)
  show fr: "life_at S' ?o = Fresh" by (simp add: life_at_def in_defs life_of_def S'_def new_conn_of_def)
  have la: "life_at S' q = life_at S q" if "q \<noteq> ?o" for q
    by (rule others_same_life [OF os _ that]) (simp add: S'_def that)
  have bo: "base_chans S' m = base_chans S m" "base_ok h S m \<Longrightarrow> base_ok h S' m" for m
    using h by (auto simp: base_chans_def base_ok_def Let_def S'_def)
  have "held R S' q = held R S q" if "q \<noteq> ?o" for q
    using la [OF that] by (simp add: held_def ls lt)
  moreover have "held R S' ?o" using fr by (simp add: held_def)
  moreover have "conn_loop S' = (conn_loop S)(?o := l)" "\<not> created h S ?o" by (simp_all add: S'_def created_def)
  ultimately have "x \<in> used_chans h R S' m \<longleftrightarrow> x \<in> (if m = l then insert ?o (used_chans h R S m) else used_chans h R S m)"
    for x m by (cases "x = ?o") (auto simp: used_chans_def bo(1) cr)
  then have u: "used_chans h R S' m = (if m = l then insert ?o (used_chans h R S m) else used_chans h R S m)" for m
    by blast
  have ou: "?o \<notin> used_chans h R S m" if "m \<in> loop_set S" for m
    using srv_invD(2) [OF inv that] h by (auto simp: used_chans_def base_chans_def base_ok_def Let_def created_def split: if_splits)
  have "poller_inv view (used_chans h R S' m) (ios S' m)" if "m \<in> loop_set S" for m
  proof (cases "m = l")
    case True
    have "poller_inv view (insert ?o (used_chans h R S l)) (set_chan ?o (\<lambda>_. conn_channel_new ?o fd) (ios S l))"
      by (rule poller_inv_add [OF srv_invD(1) [OF inv l(1)] ou [OF l(1)]])
        (use fresh in \<open>simp_all add: conn_channel_new_def channel_new_def index_defs\<close>)
    then show ?thesis using True by (simp add: u) (simp add: S'_def made_def Let_def)
  next
    case False
    then show ?thesis using srv_invD(1) [OF inv that] by (simp add: u) (simp add: S'_def made_def Let_def)
  qed
  moreover have "task_fine h S' t" if "task_fine h S t" for t using that by (cases t) (simp_all add: cr)
  moreover have "todo R S' = todo R S" by (simp add: todo_def fun_eq_iff S'_def)
  moreover have "connections S' = (connections S)(conn_name S \<mapsto> ?o)" by (simp add: S'_def)
  then have "created h S' q \<and> n = obj_name h S q" if "connections S' n = Some q" for n q
    using that srv_invD(5) [OF inv] nm by (auto simp: cr split: if_splits)
  moreover have "obj_inv h R S' q" if "created h S' q" "q \<noteq> ?o" for q
  proof -
    have q: "created h S q" using that cr by blast
    have "obj_name h S q \<noteq> conn_name S" using that(2) by (simp add: nm obj_name_inj)
    then have "connections S' (obj_name h S q) = connections S (obj_name h S q)" by (simp add: S'_def)
    moreover have "conn_loop S' q = conn_loop S q" using that(2) by (simp add: S'_def)
    ultimately have "obj_inv h R S' q \<longleftrightarrow> obj_inv h R S q"
      using others_same_life [OF os _ that(2)] sl by (intro obj_inv_cong) (simp_all add: ls on lt)
    then show ?thesis using srv_invD(4) [OF inv q] by simp
  qed
  moreover have "sint (nextConnId S') = sint (nextConnId S) + 1"
    using bump_sint [of S "S\<lparr>nextConnId := nextConnId S + 1\<rparr>"] id by (simp add: bump_conn_id_def S'_def)
  moreover have "s_connectionCallback S'" "s_messageCallback S'" "length (s_ipPort S') \<le> 21" "pool_inv (threadPool S')"
    "newConnectionCallback (s_acceptor S')" "baseLoop (threadPool S') = s_loop S'" "h \<le> next_obj S'"
    "inj_on (\<lambda>l. threadId (ios S' l)) (loop_set S)" "int (next_obj S') = int (next_obj S) + 1"
    using inv l h by (simp_all add: srv_inv_def S'_def)
  ultimately show "srv_inv view h {?o} R S'"
    using srv_invD(2,3) [OF inv] inv bo(2) unfolding srv_inv_def ls on by auto
qed

lemma inv_newConnection:
  assumes doc: "epoll_documented ctl view" and inv: "srv_inv view h {} R S" and tid: "tid = threadId (ios S (s_loop S))"
    and fresh: "\<forall>l\<in>loop_set S. \<forall>p\<in>used_chans h R S l. ch_fd (chans (ios S l) p) \<noteq> fd"
    and id: "sint (nextConnId S) < 2 ^ 31 - 1"
  shows "\<exists>S'. newConnection ctl tid fd S = Inr S' \<and> srv_inv view h {} R S' \<and> grown h S S'"
proof -
  let ?o = "next_obj S"
  obtain l pl where l: "getNextLoop (threadPool S) = Inr (l, pl)" "l \<in> loop_set S" "pool_inv pl"
      "loops pl = loops (threadPool S)" "baseLoop pl = baseLoop (threadPool S)"
    using next_loop_in_set [of S] inv by (auto simp: srv_inv_def)
  obtain ib ob where n: "newConnection ctl tid fd S = run_in tid l (ConnectionEstablished ?o)
        (upd_io l (connectionEstablished ctl ?o)) (made S l pl fd ib ob)"
      "buffer_inv ib" "buffer_inv ob" "contents ob = []"
    using newConnection_made [OF l(1) id] by blast
  define S1 where "S1 = made S l pl fd ib ob"
  have f: "\<forall>p\<in>used_chans h R S l. ch_fd (chans (ios S l) p) \<noteq> fd" using fresh l(2) by blast
  note m = inv_made [where ib = ib and ob = ob, OF inv l(2,4,5,3) f id, folded S1_def]
  have h: "h \<le> ?o" using inv by (simp add: srv_inv_def)
  have cr: "created h S1 ?o" using h by (simp add: created_def S1_def)
  have cl: "l = conn_loop S1 ?o" "l \<in> loop_set S1" "s_loop S1 = s_loop S" "loop_set S1 = loop_set S"
    using l(2) m(2) by (simp_all add: S1_def grown_def)
  have wf: "wf_in ?o (ios S1 l)"
    using n(2-4) inv by (simp add: S1_def in_defs conn_wf_def conn_bound_def life_of_def new_conn_of_def
        conn_channel_new_def channel_new_def index_defs srv_inv_def)
  have nm: "c_name (conns (ios S1 l) ?o) = obj_name h S1 ?o" "connections S1 (obj_name h S1 ?o) = Some ?o"
    using m(3) by (simp_all add: S1_def new_conn_of_def)
  show ?thesis
  proof (cases "l = s_loop S")
    case True
    then have "isInLoopThread tid (ios S1 l)" using tid by (simp add: isInLoopThread_def S1_def)
    then have "newConnection ctl tid fd S = upd_io l (connectionEstablished ctl ?o) S1"
      using n(1) by (simp add: run_in_def S1_def)
    moreover have "\<exists>S'. upd_io l (connectionEstablished ctl ?o) S1 = Inr S' \<and> srv_inv view h {} R S'
        \<and> same_books S1 S' \<and> others_same ?o S1 S' \<and> life_at S' ?o = Live"
      by (rule inv_established [OF doc m(1) cr cl(1,2) wf m(5) nm]) (use m(4) cl in simp_all)
    moreover have "grown h S S'" if "same_books S1 S'" "others_same ?o S1 S'" for S'
      using that m(2) same_books_simps(1) [OF that(1)]
      by (auto simp: grown_def same_books_def others_same_def)
    ultimately show ?thesis by auto
  next
    case False
    then have "\<not> isInLoopThread tid (ios S1 l)"
      using srv_invD(6) [OF inv l(2) own_loop_in_set] tid by (auto simp: isInLoopThread_def S1_def)
    let ?S = "S1\<lparr>ios := (ios S1)(l := queueInLoop tid (ConnectionEstablished ?o) (ios S1 l))\<rparr>"
    have r: "newConnection ctl tid fd S = Inr ?S"
      using n(1) \<open>\<not> isInLoopThread tid (ios S1 l)\<close> by (simp add: run_in_def upd_io_def S1_def)
    have i: "srv_inv view h {?o} R ?S"
      using inv_queue_step [OF m(1) cr life_held(1), of "ConnectionEstablished ?o" l "connections S1" R tid] m(5) cl(2) cr
      by (simp add: life_task_def)
    have ch: "chans (queueInLoop tid t W) = chans W" for t and W :: "'a io" by (simp add: queue_defs)
    have b: "same_books S1 ?S" by simp
    note B = same_books_simps [OF b]
    have "life_tasks R ?S ?o k = (if k = l then [ConnectionEstablished ?o] else [])" if "k \<in> loop_set S" for k
      using m(4) [OF that] by (cases "k = l") (simp_all add: life_tasks_def todo_def life_task_def)
    moreover have "life_at ?S ?o = Fresh" "wf_in ?o (ios ?S l)"
      using m(5) wf cl(1) by (simp_all add: life_at_def in_defs ch)
    ultimately have "obj_inv h R ?S ?o"
      unfolding obj_inv_def B using nm cl by (simp add: B)
    with i have "srv_inv view h {} R ?S" by (rule srv_inv_done)
    moreover have "grown h S ?S" using m(2) B(1) by (simp add: grown_def others_same_def ch)
    ultimately show ?thesis using r by blast
  qed
qed

section \<open>Properties\<close>

lemma handleClose_then: "handleClose ctl cb o1 W = rbind (handleClose ctl (\<lambda>_. Inr) o1 W) (cb o1)"
proof (cases "disableAll ctl (c_chan (conns W o1)) (setState kDisconnected o1 W)")
  case (Inr V)
  then show ?thesis by (cases "call_connection o1 V") (simp_all add: handleClose_def)
qed (simp add: handleClose_def)

lemma runnable_queue_own [simp]: "runnable view P o1 (queue_own t W) = runnable view P o1 W"
  by (simp add: runnable_def in_defs)

text \<open>
  C27: a hang-up can close twice.  When a connection gets \<open>EPOLLHUP\<close> with urgent but no normal input, the
  dispatch calls the close callback and then the read callback; at end of file the read closes the
  connection again.  The user is told twice that the connection is down, and its destruction is queued
  twice.
\<close>

theorem conn_hangup_closes_twice:
  assumes "epoll_documented ctl view" and "runnable view P o1 W"
    and "ch_tied (chans W o1) \<longrightarrow> (\<exists>q. ch_tie (chans W o1) = Some q \<and> al q)"
    and "bit (ch_revents (chans W o1)) 4" and "bit (ch_revents (chans W o1)) 1"
    and "\<not> bit (ch_revents (chans W o1)) 0" and "\<not> bit (ch_revents (chans W o1)) 2"
  defines "cb \<equiv> \<lambda>q W. Inr (queue_own (ConnectDestroyed q) W)"
  shows "handleEvent al (chans W o1) = [ConnHandleClose o1, ConnHandleRead o1]
    \<and> (\<exists>W1 W2. handleClose ctl cb o1 W = Inr W1 \<and> conn_handleRead ctl (\<lambda>_. ROk []) cb o1 W1 = Inr W2
        \<and> calls W2 = calls W @ [ConnectionCall o1 kDisconnected, ConnectionCall o1 kDisconnected]
        \<and> pendingFunctors W2 = pendingFunctors W @ [ConnectDestroyed o1, ConnectDestroyed o1])"
proof
  have "conn_bound o1 (chans W o1)" using assms(2) by (simp add: runnable_def in_defs conn_wf_def)
  then have "handleEventWithGuard (chans W o1) = [ConnHandleClose o1, ConnHandleRead o1]"
    using assms(4-7) by (simp add: handleEventWithGuard_def conn_bound_def bit_of_masks and_or_eq_0 invoke_def)
  then show "handleEvent al (chans W o1) = [ConnHandleClose o1, ConnHandleRead o1]"
    using assms(3) by (auto simp: handleEvent_def)
  have close: "\<exists>V'. handleClose ctl cb o1 V = Inr V' \<and> runnable view P o1 V'
      \<and> calls V' = calls V @ [ConnectionCall o1 kDisconnected]
      \<and> pendingFunctors V' = pendingFunctors V @ [ConnectDestroyed o1]" if r: "runnable view P o1 V" for V :: "('a, 'b) io_scheme"
  proof -
    obtain V' where "handleClose ctl (\<lambda>_. Inr) o1 V = Inr V'" "runnable view P o1 V'"
        "pendingFunctors V' = pendingFunctors V" "calls V' = calls V @ [ConnectionCall o1 kDisconnected]"
      using handleClose_closing [OF assms(1) r] by blast
    then show ?thesis by (subst handleClose_then) (simp add: cb_def)
  qed
  obtain W1 where W1: "handleClose ctl cb o1 W = Inr W1" "runnable view P o1 W1"
      "calls W1 = calls W @ [ConnectionCall o1 kDisconnected]"
      "pendingFunctors W1 = pendingFunctors W @ [ConnectDestroyed o1]"
    using close [OF assms(2)] by blast
  have b: "buffer_inv (inputBuffer (conns W1 o1))" using W1(2) by (simp add: runnable_def in_defs conn_wf_def)
  obtain b' where b': "readFd (\<lambda>_. ROk []) (inputBuffer (conns W1 o1)) = Inr (0, None, b')" "buffer_inv b'"
    using readFd_fits [OF b, of "\<lambda>_. ROk []" "[]"] by (auto simp: readv_documented_def)
  let ?V = "set_conn o1 (\<lambda>c. c\<lparr>inputBuffer := b'\<rparr>) W1"
  have "runnable view P o1 ?V \<and> same_life o1 W1 ?V"
    by (rule set_conn_runnable [OF W1(2)]) (use b'(2) in simp_all)
  then obtain W2 where "handleClose ctl cb o1 ?V = Inr W2" "calls W2 = calls ?V @ [ConnectionCall o1 kDisconnected]"
      "pendingFunctors W2 = pendingFunctors ?V @ [ConnectDestroyed o1]" using close by blast
  then show "\<exists>W1 W2. handleClose ctl cb o1 W = Inr W1 \<and> conn_handleRead ctl (\<lambda>_. ROk []) cb o1 W1 = Inr W2
        \<and> calls W2 = calls W @ [ConnectionCall o1 kDisconnected, ConnectionCall o1 kDisconnected]
        \<and> pendingFunctors W2 = pendingFunctors W @ [ConnectDestroyed o1, ConnectDestroyed o1]"
    using W1 b'(1) by (intro exI [of _ W1] exI [of _ W2]) (simp add: conn_handleRead_def)
qed

definition hup_io :: "(int \<rightharpoonup> epoll_event) io" where
  "hup_io = set_chan 0 (\<lambda>_. (conn_channel_new 0 3)\<lparr>ch_events := 3, ch_index := kAdded, ch_revents := 18\<rparr>) (sample_io 3 [])"

lemma conn_hangup_closes_twice_witness:
  "\<exists>W1 W2. handleClose list_ctl (\<lambda>q W. Inr (queue_own (ConnectDestroyed q) W)) 0 hup_io = Inr W1
     \<and> conn_handleRead list_ctl (\<lambda>_. ROk []) (\<lambda>q W. Inr (queue_own (ConnectDestroyed q) W)) 0 W1 = Inr W2
     \<and> calls W2 = [ConnectionCall 0 kDisconnected, ConnectionCall 0 kDisconnected]"
proof -
  have i: "conn_inv (\<lambda>k. k) {0} 7 (sample_io 3 [])" by (rule sample_conn_inv) (simp_all add: bit_iff_odd)
  have ch: "chans hup_io 0 = (conn_channel_new 0 3)\<lparr>ch_events := 3, ch_index := kAdded, ch_revents := 18\<rparr>"
    "conns hup_io = conns (sample_io 3 [])" "calls hup_io = []" "pendingFunctors hup_io = []"
    by (simp_all add: hup_io_def set_chan_def sample_io_def)
  have "poller_inv (\<lambda>k. k) {0} hup_io"
    by (auto simp: poller_inv_def interest_def hup_io_def sample_io_def conn_channel_new_def channel_new_def fun_eq_iff)
  moreover have "wf_in 0 hup_io" "life_in 0 hup_io = Live"
    using i by (simp_all add: in_defs ch conn_wf_def life_of_def conn_bound_def conn_channel_new_def channel_new_def conn_inv_def bit_iff_odd)
  ultimately have r: "runnable (\<lambda>k. k) {0} 0 hup_io" by (simp add: runnable_def)
  have "\<not> ch_tied (chans hup_io 0)" "ch_revents (chans hup_io 0) = 18"
    by (simp_all add: ch conn_channel_new_def channel_new_def)
  with conn_hangup_closes_twice [OF list_ctl_documented r, of "\<lambda>_. True"] show ?thesis
    by (simp add: ch bit_iff_odd) blast
qed

end
