(* ===== verification/Server_Run.thy ===== *)
theory Server_Run
  imports Server_Steps
begin

text \<open>
  A running server: every loop of the pool in its own thread, waiting in \<open>poll\<close>, dispatching its active
  channels or running the functors it swapped out, with the threads interleaved between callbacks.
  The properties say that no thread touches an object that has been released, that no callback or
  functor fails, and what the map and the kernel hold when nothing is left to run.
\<close>

section \<open>What a thread is about to do\<close>

text \<open>
  Where the thread of a loop is: waiting in \<open>poll\<close>, dispatching (with the callbacks left of the channel
  at hand and the channels after it), or running functors (those left of the vector it swapped out).
\<close>

datatype loop_pc = Waiting | Dispatching "callback list" "ptr list" | Functors "task list" "task list"

definition rest_of :: "loop_pc \<Rightarrow> task list" where
  "rest_of pc = (case pc of Functors ts b \<Rightarrow> ts | _ \<Rightarrow> [])"

definition batch_of :: "loop_pc \<Rightarrow> task list" where
  "batch_of pc = (case pc of Functors ts b \<Rightarrow> b | _ \<Rightarrow> [])"

lemma pc_simps [simp]:
  "rest_of Waiting = []" "rest_of (Dispatching cs ps) = []" "rest_of (Functors ts b) = ts"
  "batch_of Waiting = []" "batch_of (Dispatching cs ps) = []" "batch_of (Functors ts b) = b"
  by (simp_all add: rest_of_def batch_of_def)

text \<open>A connection whose handlers the loop \<open>l\<close> may run, and the callbacks and channels that may be pending.\<close>

definition usable :: "nat \<Rightarrow> 'k server \<Rightarrow> nat \<Rightarrow> obj \<Rightarrow> bool" where
  "usable h S l q \<longleftrightarrow> created h S q \<and> conn_loop S q = l \<and> life_at S q \<in> {Live, Closing}"

fun cb_fine :: "nat \<Rightarrow> 'k server \<Rightarrow> nat \<Rightarrow> callback \<Rightarrow> bool" where
  "cb_fine h S l LoopHandleRead \<longleftrightarrow> True"
| "cb_fine h S l AcceptorHandleRead \<longleftrightarrow> l = s_loop S"
| "cb_fine h S l (ConnHandleRead q) \<longleftrightarrow> usable h S l q"
| "cb_fine h S l (ConnHandleWrite q) \<longleftrightarrow> usable h S l q"
| "cb_fine h S l (ConnHandleClose q) \<longleftrightarrow> usable h S l q"
| "cb_fine h S l (ConnHandleError q) \<longleftrightarrow> False"

definition chan_fine :: "nat \<Rightarrow> 'k server \<Rightarrow> nat \<Rightarrow> ptr \<Rightarrow> bool" where
  "chan_fine h S l p \<longleftrightarrow> p \<in> base_chans S l \<or> usable h S l p"

definition pc_inv :: "nat \<Rightarrow> 'k server \<Rightarrow> nat \<Rightarrow> loop_pc \<Rightarrow> bool" where
  "pc_inv h S l pc = (case pc of Waiting \<Rightarrow> True
     | Dispatching cs ps \<Rightarrow> (\<forall>c\<in>set cs. cb_fine h S l c) \<and> (\<forall>p\<in>set ps. chan_fine h S l p)
     | Functors ts b \<Rightarrow> set ts \<subseteq> set b)"

text \<open>What a step of one thread leaves to the others: everything they may use, but for the objects in \<open>Y\<close>.\<close>

definition carried :: "nat \<Rightarrow> obj set \<Rightarrow> 'k server \<Rightarrow> 'k server \<Rightarrow> bool" where
  "carried h Y S S' \<longleftrightarrow> s_loop S' = s_loop S \<and> loop_set S' = loop_set S
     \<and> (\<forall>l\<in>loop_set S. base_chans S' l = base_chans S l)
     \<and> (\<forall>l q. usable h S l q \<and> q \<notin> Y \<longrightarrow> usable h S' l q)"

lemma carried_pc:
  assumes "carried h Y S S'" "l \<in> loop_set S" "\<And>q. q \<in> Y \<Longrightarrow> \<not> usable h S l q" "pc_inv h S l pc"
  shows "pc_inv h S' l pc"
proof -
  have u: "usable h S' l q" if "usable h S l q" for q
    using assms(1,3) that unfolding carried_def by blast
  have "cb_fine h S' l c" if "cb_fine h S l c" for c
    using that assms(1) u by (cases c) (auto simp: carried_def)
  moreover have "chan_fine h S' l p" if "chan_fine h S l p" for p
    using that assms(1,2) u by (auto simp: carried_def chan_fine_def)
  ultimately show ?thesis using assms(4) by (auto simp: pc_inv_def split: loop_pc.splits)
qed

lemma same_carried:
  assumes "srv_inv view h X R S" "same_books S S'" "others_same o1 S S'" "created h S o1"
  shows "carried h {o1} S S'"
proof -
  note B = same_books_simps [OF assms(2)]
  have cl: "conn_loop S' = conn_loop S" "s_loop S' = s_loop S" using assms(2) by (simp_all add: same_books_def)
  have "base_chans S' l = base_chans S l" if "l \<in> loop_set S" for l
    using base_ok_other(2) [OF assms(2,3) _ srv_invD(2) [OF assms(1) that]] assms(4) by (simp add: created_def)
  moreover have "life_at S' q = life_at S q" if "q \<noteq> o1" for q
    by (rule others_same_life(1) [OF assms(3) _ that]) (simp add: cl)
  ultimately show ?thesis by (simp add: carried_def B cl usable_def)
qed

lemma step_of_carried:
  assumes "srv_inv view h X R S" "step_of o1 S S'" "created h S o1"
  shows "carried h {} S S'"
proof -
  have b: "same_books S S'" "others_same o1 S S'" using assms(2) by (simp_all add: step_of_def)
  have "usable h S' l o1" if "usable h S l o1" for l
    using that assms(2) same_books_simps(2) [OF b(1), of h] by (auto simp: usable_def step_of_def same_books_def)
  then show ?thesis using same_carried [OF assms(1) b assms(3)] unfolding carried_def by blast
qed

lemma grown_carried:
  assumes "srv_inv view h X R S" "grown h S S'"
  shows "carried h {} S S'"
proof -
  have g: "s_loop S' = s_loop S" "loop_set S' = loop_set S" "s_acceptor S' = s_acceptor S"
    "next_obj S' = Suc (next_obj S)" "\<And>q. created h S q \<Longrightarrow> conn_loop S' q = conn_loop S q"
    "others_same (next_obj S) S S'"
    using assms(2) by (auto simp: grown_def)
  have "usable h S' l q" if "usable h S l q" for l q
  proof -
    have q: "created h S q" "q \<noteq> next_obj S" using that by (auto simp: usable_def created_def)
    from others_same_life(1) [OF g(6) g(5) [OF q(1)] q(2)] show ?thesis
      using that g(5) [OF q(1)] g(4) by (auto simp: usable_def created_def)
  qed
  then show ?thesis using g(1-3,6) by (simp add: carried_def base_chans_def others_same_def)
qed

lemma carried_refl [simp]: "carried h Y S S"
  by (simp add: carried_def)

lemma quiet_carried:
  assumes "quiet (ios S l) W'"
  shows "carried h {} S (S\<lparr>ios := (ios S)(l := W')\<rparr>)"
proof -
  let ?S = "S\<lparr>ios := (ios S)(l := W')\<rparr>"
  have "ios ?S m = ios S m \<or> quiet (ios S m) (ios ?S m)" for m using assms by simp
  note Q = quiet_same [of ?S S, OF this, simplified]
  show ?thesis using Q(1,6) by (simp add: carried_def base_chans_def usable_def created_def loop_set_def)
qed

section \<open>One callback, one functor\<close>

text \<open>The descriptors of the channels that exist in the server's loops, for the objects told by \<open>alive\<close>.\<close>

definition open_fd :: "(obj \<Rightarrow> bool) \<Rightarrow> 'k server \<Rightarrow> int \<Rightarrow> bool" where
  "open_fd alive S fd \<longleftrightarrow> (\<exists>l\<in>loop_set S. \<exists>p. ch_fd (chans (ios S l) p) = fd
     \<and> (p \<in> base_chans S l \<or> p < next_obj S \<and> conn_loop S p = l \<and> alive p))"

text \<open>
  What is documented of the calls a callback makes, and that there is room: \<open>readv\<close> stays within the
  buffers it is given, \<open>write\<close> takes at most what it is given, \<open>accept\<close> returns a descriptor that is
  not open, vectors stay below their largest size and the counter of connections below its own.  Any of the
  calls may fail; \<open>reads_ok\<close> tells that the \<open>readv\<close> of a callback, if it makes one, does not.
\<close>

fun env_ok :: "(obj \<Rightarrow> bool) \<Rightarrow> io_env \<Rightarrow> callback \<Rightarrow> 'k server \<Rightarrow> bool" where
  "env_ok alive E (ConnHandleRead o1) S \<longleftrightarrow>
     (let b = inputBuffer (conns (ios S (conn_loop S o1)) o1) in
      readv_documented (e_readv E) \<and> length (store b) + kExtraSize \<le> vec_max_size)"
| "env_ok alive E (ConnHandleWrite o1) S \<longleftrightarrow> write_documented (e_write E)"
| "env_ok alive E AcceptorHandleRead S \<longleftrightarrow>
     (case acceptor_handleRead (e_accept E) (s_acceptor S) of
        NewConnection fd peer \<Rightarrow> \<not> open_fd alive S fd \<and> sint (nextConnId S) < 2 ^ 31 - 1
      | _ \<Rightarrow> True)"
| "env_ok alive E c S \<longleftrightarrow> True"

definition reads_ok :: "io_env \<Rightarrow> callback \<Rightarrow> 'k server \<Rightarrow> bool" where
  "reads_ok E c S \<longleftrightarrow> (\<forall>q. c = ConnHandleRead q
     \<longrightarrow> (\<exists>ds. e_readv E (iov_lens (inputBuffer (conns (ios S (conn_loop S q)) q))) = ROk ds))"

lemma quiet_refl_upd:
  "quiet W (W\<lparr>wakeups := n\<rparr>)" "quiet W (W\<lparr>calls := cs\<rparr>)" "quiet W (W\<lparr>callingPendingFunctors := b\<rparr>)"
  "quiet W (W\<lparr>pendingFunctors := fs\<rparr>)" "quiet W (W\<lparr>callingPendingFunctors := b, pendingFunctors := fs\<rparr>)"
  "quiet W (queueInLoop tid t W)" "quiet W (W\<lparr>evlist := evs\<rparr>)" "quiet W (W\<lparr>activateChannels := ps\<rparr>)" "quiet W W"
  for W :: "'k io"
proof -
  have "\<exists>r. chans W q = (chans W q)\<lparr>ch_revents := r\<rparr>" for q
    by (rule exI [of _ "ch_revents (chans W q)"]) simp
  then show "quiet W (W\<lparr>wakeups := n\<rparr>)" "quiet W (W\<lparr>calls := cs\<rparr>)" "quiet W (W\<lparr>callingPendingFunctors := b\<rparr>)"
    "quiet W (W\<lparr>pendingFunctors := fs\<rparr>)" "quiet W (W\<lparr>callingPendingFunctors := b, pendingFunctors := fs\<rparr>)"
    "quiet W (queueInLoop tid t W)" "quiet W (W\<lparr>evlist := evs\<rparr>)" "quiet W (W\<lparr>activateChannels := ps\<rparr>)" "quiet W W"
    by (simp_all add: quiet_def queue_defs)
qed

lemma accept_ok:
  assumes doc: "epoll_documented ctl view" and inv: "srv_inv view h {} R S" and env: "env_ok alive E AcceptorHandleRead S"
    and alive: "\<And>q. created h S q \<Longrightarrow> held R S q \<Longrightarrow> alive q"
    and new: "acceptor_handleRead (e_accept E) (s_acceptor S) = NewConnection fd peer"
  shows "\<exists>S'. newConnection ctl (threadId (ios S (s_loop S))) fd S = Inr S' \<and> srv_inv view h {} R S' \<and> grown h S S'"
proof -
  have e: "\<not> open_fd alive S fd" "sint (nextConnId S) < 2 ^ 31 - 1" using env new by simp_all
  have "ch_fd (chans (ios S m) p) \<noteq> fd" if "m \<in> loop_set S" "p \<in> used_chans h R S m" for m p
    using that e(1) alive by (auto simp: open_fd_def used_chans_def created_def)
  then show ?thesis using inv_newConnection [OF doc inv refl _ e(2), of fd] by blast
qed

lemma run_callback_ok:
  assumes doc: "epoll_documented ctl view" and inv: "srv_inv view h {} R S" and l: "l \<in> loop_set S"
    and c: "cb_fine h S l c" and env: "env_ok alive E c S" and reads: "reads_ok E c S"
    and alive: "\<And>q. created h S q \<Longrightarrow> held R S q \<Longrightarrow> alive q"
  shows "\<exists>S'. run_callback ctl l E c S = Inr S' \<and> srv_inv view h {} R S' \<and> carried h {} S S'"
proof (cases c)
  case LoopHandleRead
  let ?W = "(ios S l)\<lparr>wakeups := 0\<rparr>"
  have q: "quiet (ios S l) ?W" by (rule quiet_refl_upd)
  have "srv_inv view h {} R (S\<lparr>ios := (ios S)(l := ?W)\<rparr>)"
    by (rule inv_quiet [OF inv q]) (use srv_invD(3) [OF inv] in \<open>auto simp: life_tasks_def todo_def split: if_splits\<close>)
  then show ?thesis using quiet_carried [OF q] LoopHandleRead by (simp add: upd_io_def handleWakeup_def)
next
  case AcceptorHandleRead
  show ?thesis
  proof (cases "acceptor_handleRead (e_accept E) (s_acceptor S)")
    case (NewConnection fd peer)
    have "env_ok alive E AcceptorHandleRead S" using env AcceptorHandleRead by simp
    from accept_ok [where alive = alive and E = E, OF doc inv this alive NewConnection]
    obtain S' where "newConnection ctl (threadId (ios S (s_loop S))) fd S = Inr S'" "srv_inv view h {} R S'" "grown h S S'"
      by blast
    then show ?thesis using AcceptorHandleRead NewConnection c grown_carried [OF inv, of S'] by simp
  qed (use AcceptorHandleRead inv in simp_all)
next
  case (ConnHandleRead o1)
  then have o1: "created h S o1" "life_at S o1 \<in> {Live, Closing}" "threadId (ios S l) = threadId (ios S (conn_loop S o1))"
    using c by (simp_all add: usable_def)
  have e: "readv_documented (e_readv E)" "\<exists>ds. e_readv E (iov_lens (inputBuffer (conns (ios S (conn_loop S o1)) o1))) = ROk ds"
    "length (store (inputBuffer (conns (ios S (conn_loop S o1)) o1))) + kExtraSize \<le> vec_max_size"
    using env reads ConnHandleRead by (simp_all add: Let_def reads_ok_def)
  obtain ds where ds: "e_readv E (iov_lens (inputBuffer (conns (ios S (conn_loop S o1)) o1))) = ROk ds" using e(2) by blast
  from inv_handleRead [OF doc inv o1 e(1) ds e(3)] show ?thesis
    using ConnHandleRead step_of_carried [OF inv _ o1(1)] by auto
next
  case (ConnHandleWrite o1)
  then have o1: "created h S o1" "life_at S o1 \<in> {Live, Closing}" using c by (simp_all add: usable_def)
  have "write_documented (e_write E)" using env ConnHandleWrite by simp
  from inv_handleWrite [OF doc inv o1 this] show ?thesis
    using ConnHandleWrite step_of_carried [OF inv _ o1(1)] by auto
next
  case (ConnHandleClose o1)
  then have o1: "created h S o1" "life_at S o1 \<in> {Live, Closing}" "threadId (ios S l) = threadId (ios S (conn_loop S o1))"
    using c by (simp_all add: usable_def)
  from inv_handleClose [OF doc inv o1] show ?thesis
    using ConnHandleClose step_of_carried [OF inv _ o1(1)] by auto
qed (use c in simp)

text \<open>A callback that returns had its \<open>readv\<close> succeed.\<close>

lemma returned_reads:
  assumes inv: "srv_inv view h {} R S" and c: "cb_fine h S l c" and S': "run_callback ctl l E c S = Inr S'"
  shows "reads_ok E c S"
  unfolding reads_ok_def
proof (intro allI impI)
  fix q
  assume q: "c = ConnHandleRead q"
  let ?b = "inputBuffer (conns (ios S (conn_loop S q)) q)"
  have "obj_inv h R S q" using srv_invD(4) [OF inv] c q by (simp add: usable_def)
  then have "buffer_inv ?b" by (simp add: obj_inv_def wf_in_def conn_wf_def)
  moreover obtain r where "readFd (e_readv E) ?b = Inr r"
    using S' q by (auto simp: server_handleRead_def Let_def rbind_eq_Inr)
  ultimately have "e_readv E (iov_lens ?b) \<noteq> RErr e" for e using readFd_error [of ?b "e_readv E"] by blast
  then show "\<exists>ds. e_readv E (iov_lens ?b) = ROk ds" by (cases "e_readv E (iov_lens ?b)") auto
qed

text \<open>A notice or a functor of the user is taken out of the queue and called.\<close>

lemma inv_task_quiet:
  assumes inv: "srv_inv view h {} R S" and R: "R l = t # ts" "R' = R(l := ts)" and t: "\<And>q. \<not> life_task q t"
  shows "srv_inv view h {} R' (S\<lparr>ios := (ios S)(l := (ios S l)\<lparr>calls := cs\<rparr>)\<rparr>)"
    "carried h {} S (S\<lparr>ios := (ios S)(l := (ios S l)\<lparr>calls := cs\<rparr>)\<rparr>)"
proof -
  have q: "quiet (ios S l) ((ios S l)\<lparr>calls := cs\<rparr>)" by (rule quiet_refl_upd)
  have d: "set (R' m) \<subseteq> set (R m)" "filter (life_task q) (R' m) = filter (life_task q) (R m)" for m q
    using drop_task [OF R] t by simp_all
  have "task_fine h S u" if "m \<in> loop_set S" "u \<in> set (R' m) \<or> u \<in> set (pendingFunctors (ios S m))" for m u
    using that d(1) [of m] srv_invD(3) [OF inv that(1), of u] by (auto simp: todo_def)
  then show "srv_inv view h {} R' (S\<lparr>ios := (ios S)(l := (ios S l)\<lparr>calls := cs\<rparr>)\<rparr>)"
    by (intro inv_quiet [OF inv q]) (auto simp: life_tasks_def todo_def d split: if_splits)
  show "carried h {} S (S\<lparr>ios := (ios S)(l := (ios S l)\<lparr>calls := cs\<rparr>)\<rparr>)" by (rule quiet_carried [OF q])
qed

lemma conn_task_handler [simp]:
  "conn_task ctl w mem other (ConnectionEstablished o1) = connectionEstablished ctl o1"
  "conn_task ctl w mem other (ConnectDestroyed o1) = connectDestroyed ctl o1"
  by (simp_all add: fun_eq_iff)

lemma run_task_ok:
  assumes doc: "epoll_documented ctl view" and inv: "srv_inv view h {} R S" and l: "l \<in> loop_set S"
    and R: "R l = t # ts" "R' = R(l := ts)" and ok: "task_ok E t S"
  shows "\<exists>S' Y. run_task ctl l E t S = Inr S' \<and> srv_inv view h {} R' S' \<and> carried h Y S S' \<and> (\<forall>q\<in>Y. conn_loop S q = l)"
proof -
  have f: "task_fine h S t" using srv_invD(3) [OF inv l, of t] R(1) by (simp add: todo_def)
  have quiet: "\<exists>S' Y. upd_io l (\<lambda>W. Inr (W\<lparr>calls := calls W @ us\<rparr>)) S = Inr S' \<and> srv_inv view h {} R' S'
      \<and> carried h Y S S' \<and> (\<forall>q\<in>Y. conn_loop S q = l)" if "\<And>q. \<not> life_task q t" for us
    using inv_task_quiet [OF inv R that, of "calls (ios S l) @ us"] by (auto simp: upd_io_def)
  show ?thesis
  proof (cases t)
    case (ConnectionEstablished o1)
    from inv_task_established [OF doc inv l _ R(2)] R(1) ConnectionEstablished obtain S' where
      "upd_io l (connectionEstablished ctl o1) S = Inr S'" "srv_inv view h {} R' S'" "same_books S S'" "others_same o1 S S'"
      "l = conn_loop S o1" "created h S o1" by blast
    then show ?thesis using ConnectionEstablished same_carried [OF inv]
      by (intro exI [of _ S'] exI [of _ "{o1}"]) simp
  next
    case (ConnectDestroyed o1)
    from inv_task_destroyed [OF doc inv l _ R(2)] R(1) ConnectDestroyed obtain S' where
      "upd_io l (connectDestroyed ctl o1) S = Inr S'" "srv_inv view h {} R' S'" "same_books S S'" "others_same o1 S S'"
      "l = conn_loop S o1" "created h S o1" by blast
    then show ?thesis using ConnectDestroyed same_carried [OF inv]
      by (intro exI [of _ S'] exI [of _ "{o1}"]) simp
  next
    case (RemoveConnectionInLoop o1)
    from inv_task_remove [OF inv l _ R(2)] R(1) RemoveConnectionInLoop obtain S' where
      "removeConnectionInLoop (threadId (ios S l)) o1 S = Inr S'" "srv_inv view h {} R' S'" "step_of o1 S S'" "created h S o1"
      by blast
    then show ?thesis using RemoveConnectionInLoop step_of_carried [OF inv]
      by (intro exI [of _ S'] exI [of _ "{}"]) simp
  next
    case (WriteCompleteTask o1)
    then show ?thesis using quiet [of "[WriteCompleteCall o1]"] by (simp add: life_task_def call_user_def upd_io_def)
  next
    case (HighWaterMarkTask o1 n)
    then show ?thesis using quiet [of "[HighWaterMarkCall o1 n]"] by (simp add: life_task_def call_user_def upd_io_def)
  next
    case (UserTask k)
    have "run_task ctl l E t S = upd_io l (\<lambda>W. Inr (W\<lparr>calls := calls W @ []\<rparr>)) S"
      using UserTask by (simp add: upd_io_def)
    then show ?thesis using quiet [of "[]"] UserTask by (simp add: life_task_def)
  next
    case (SendInLoopStr o1 ds)
    from inv_task_raw [OF doc inv l R _ ok, of o1] SendInLoopStr step_of_carried [OF inv] show ?thesis
      by (fastforce intro: exI [of _ "{}"])
  next
    case (ShutdownInLoop o1)
    from inv_task_raw [OF doc inv l R _ ok, of o1] ShutdownInLoop step_of_carried [OF inv] show ?thesis
      by (fastforce intro: exI [of _ "{}"])
  qed (use f in simp_all)
qed

section \<open>The threads together\<close>

text \<open>
  A history is kept for the statements only: the chunks of bytes each connection was given to send, in the order
  \<open>sendInLoop\<close> was called with them while the connection was not closed, each with whether \<open>write\<close> was asked and
  answered that the peer is gone.
\<close>

type_synonym history = "obj \<Rightarrow> (char list \<times> bool) list"

definition note_send :: "obj \<Rightarrow> (char list \<Rightarrow> wr_result) \<Rightarrow> char list \<Rightarrow> ('k, 'z) io_scheme \<Rightarrow> history \<Rightarrow> history" where
  "note_send o1 w ds W H = H(o1 := H o1 @ [(ds, refused_send w ds o1 W)])"

text \<open>The calls of the user: \<open>send\<close> does nothing unless the connection is connected.\<close>

fun note_act :: "obj \<Rightarrow> user_act \<Rightarrow> ('k, 'z) io_scheme \<Rightarrow> history \<Rightarrow> history" where
  "note_act o1 (USend w ds) W H = (if c_state (conns W o1) = kConnected then note_send o1 w ds W H else H)"
| "note_act o1 a W H = H"

fun note_session :: "'k epoll_ctl \<Rightarrow> obj \<Rightarrow> user_act list \<Rightarrow> ('k, 'z) io_scheme \<Rightarrow> history \<Rightarrow> history" where
  "note_session ctl o1 [] W H = H"
| "note_session ctl o1 (a # as) W H =
     (case user_step ctl o1 a W of Inl e \<Rightarrow> H | Inr W' \<Rightarrow> note_session ctl o1 as W' (note_act o1 a W H))"

text \<open>A queued send does nothing on a connection that has closed.\<close>

fun note_task :: "io_env \<Rightarrow> task \<Rightarrow> 'k server \<Rightarrow> history \<Rightarrow> history" where
  "note_task E (SendInLoopStr o1 ds) S H = (let W = ios S (conn_loop S o1) in
     if c_state (conns W o1) = kDisconnected then H else note_send o1 (e_write E) ds W H)"
| "note_task E t S H = H"

record 'k world =
  srv :: "'k server"
  pcs :: "nat \<Rightarrow> loop_pc"
  hist :: history

definition rests :: "'k world \<Rightarrow> nat \<Rightarrow> task list" where
  "rests w l = rest_of (pcs w l)"

text \<open>
  An object is alive while the map holds a pointer to it or a functor does, waiting in a queue or in the
  vector a loop is running.
\<close>

definition holds_obj :: "obj \<Rightarrow> task \<Rightarrow> bool" where
  "holds_obj o1 t \<longleftrightarrow> life_task o1 t \<and> \<not> raw_task o1 t \<or> notice o1 t"

definition alive :: "'k world \<Rightarrow> obj \<Rightarrow> bool" where
  "alive w o1 \<longleftrightarrow> o1 \<in> ran (connections (srv w))
     \<or> (\<exists>l\<in>loop_set (srv w). \<exists>t\<in>set (batch_of (pcs w l)) \<union> set (pendingFunctors (ios (srv w) l)). holds_obj o1 t)"

text \<open>What \<open>epoll_wait\<close> may return: as many events as there is room for, of channels that are watched.\<close>

definition reports :: "('k \<Rightarrow> int \<rightharpoonup> epoll_event) \<Rightarrow> 'k io \<Rightarrow> wait_result \<Rightarrow> bool" where
  "reports view W ev \<longleftrightarrow> length (evlist W) < 2 ^ 31 \<and> (case ev of
       EvErr e \<Rightarrow> True
     | EvOk evs \<Rightarrow> length evs \<le> length (evlist W)
         \<and> (\<forall>(r, p)\<in>set evs. \<exists>fd e. view (epollfd W) fd = Some (e, p)))"

definition upd_loop :: "nat \<Rightarrow> 'k io \<Rightarrow> 'k server \<Rightarrow> 'k server" where
  "upd_loop l W S = S\<lparr>ios := (ios S)(l := W)\<rparr>"

text \<open>
  One step of one thread.  User code runs in the thread of a loop inside a callback, on a connection it
  was told of; any thread may queue a functor of its own.  A thread that calls \<open>send(Buffer *)\<close> or \<open>shutdown\<close> on
  a connection of another thread tests the state, and then acts: it queues the send; it sets the state to
  \<open>kDisconnecting\<close>, and after that queues the half-close.  Each act is a step of its own here, at any time
  the connection is still open: this is the server whose users see to it that no connection closes between the
  test and the acts of a call from another thread.  \<open>Server_Race\<close> has the calls with all their steps and without
  that condition, and shows what can happen then.
\<close>

inductive server_step :: "'k epoll_ctl \<Rightarrow> ('k \<Rightarrow> int \<rightharpoonup> epoll_event) \<Rightarrow> 'k world \<Rightarrow> 'k world \<Rightarrow> bool"
  for ctl view where
  poll_step: "l \<in> loop_set (srv w) \<Longrightarrow> pcs w l = Waiting \<Longrightarrow> reports view (ios (srv w) l) ev
    \<Longrightarrow> poll ev [] ((ios (srv w) l)\<lparr>activateChannels := []\<rparr>) = Inr (lg, ps, W)
    \<Longrightarrow> server_step ctl view w (w\<lparr>srv := upd_loop l (W\<lparr>activateChannels := ps\<rparr>) (srv w),
          pcs := (pcs w)(l := Dispatching [] ps)\<rparr>)"
| channel_step: "l \<in> loop_set (srv w) \<Longrightarrow> pcs w l = Dispatching [] (p # ps)
    \<Longrightarrow> server_step ctl view w
          (w\<lparr>pcs := (pcs w)(l := Dispatching (handleEvent (alive w) (chans (ios (srv w) l) p)) ps)\<rparr>)"
| callback_step: "l \<in> loop_set (srv w) \<Longrightarrow> pcs w l = Dispatching (c # cs) ps \<Longrightarrow> env_ok (alive w) E c (srv w)
    \<Longrightarrow> run_callback ctl l E c (srv w) = Inr S'
    \<Longrightarrow> server_step ctl view w (w\<lparr>srv := S', pcs := (pcs w)(l := Dispatching cs ps)\<rparr>)"
| user_code: "l \<in> loop_set (srv w) \<Longrightarrow> pcs w l \<noteq> Waiting \<Longrightarrow> connections (srv w) n = Some o1
    \<Longrightarrow> conn_loop (srv w) o1 = l \<Longrightarrow> c_state (conns (ios (srv w) l) o1) \<in> {kConnected, kDisconnecting}
    \<Longrightarrow> \<forall>a\<in>set as. user_allowed a
    \<Longrightarrow> length (store (outputBuffer (conns (ios (srv w) l) o1))) + sum_list (map user_cost as) \<le> vec_max_size
    \<Longrightarrow> upd_io l (run_all (user_step ctl o1) as) (srv w) = Inr S'
    \<Longrightarrow> server_step ctl view w (w\<lparr>srv := S', hist := note_session ctl o1 as (ios (srv w) l) (hist w)\<rparr>)"
| user_queue: "l \<in> loop_set (srv w)
    \<Longrightarrow> server_step ctl view w (w\<lparr>srv := upd_loop l (queueInLoop tid (UserTask k) (ios (srv w) l)) (srv w)\<rparr>)"
| foreign_send: "l \<in> loop_set (srv w) \<Longrightarrow> connections (srv w) n = Some o1 \<Longrightarrow> conn_loop (srv w) o1 = l
    \<Longrightarrow> c_state (conns (ios (srv w) l) o1) \<in> {kConnected, kDisconnecting}
    \<Longrightarrow> tid \<noteq> threadId (ios (srv w) l) \<Longrightarrow> length ds < 2 ^ 31
    \<Longrightarrow> server_step ctl view w (w\<lparr>srv := upd_loop l (queueInLoop tid (SendInLoopStr o1 ds) (ios (srv w) l)) (srv w)\<rparr>)"
| foreign_mark: "l \<in> loop_set (srv w) \<Longrightarrow> connections (srv w) n = Some o1 \<Longrightarrow> conn_loop (srv w) o1 = l
    \<Longrightarrow> c_state (conns (ios (srv w) l) o1) \<in> {kConnected, kDisconnecting}
    \<Longrightarrow> server_step ctl view w (w\<lparr>srv := upd_loop l (setState kDisconnecting o1 (ios (srv w) l)) (srv w)\<rparr>)"
| foreign_shutdown: "l \<in> loop_set (srv w) \<Longrightarrow> connections (srv w) n = Some o1 \<Longrightarrow> conn_loop (srv w) o1 = l
    \<Longrightarrow> c_state (conns (ios (srv w) l) o1) \<in> {kConnected, kDisconnecting} \<Longrightarrow> tid \<noteq> threadId (ios (srv w) l)
    \<Longrightarrow> server_step ctl view w (w\<lparr>srv := upd_loop l (queueInLoop tid (ShutdownInLoop o1) (ios (srv w) l)) (srv w)\<rparr>)"
| swap_step: "l \<in> loop_set (srv w) \<Longrightarrow> pcs w l = Dispatching [] []
    \<Longrightarrow> pending_swap (pending_begin (ios (srv w) l)) = (b, W)
    \<Longrightarrow> server_step ctl view w (w\<lparr>srv := upd_loop l W (srv w), pcs := (pcs w)(l := Functors b b)\<rparr>)"
| functor_step: "l \<in> loop_set (srv w) \<Longrightarrow> pcs w l = Functors (t # ts) b \<Longrightarrow> task_ok E t (srv w)
    \<Longrightarrow> run_task ctl l E t (srv w) = Inr S'
    \<Longrightarrow> server_step ctl view w (w\<lparr>srv := S', pcs := (pcs w)(l := Functors ts b), hist := note_task E t (srv w) (hist w)\<rparr>)"
| round_end: "l \<in> loop_set (srv w) \<Longrightarrow> pcs w l = Functors [] b
    \<Longrightarrow> server_step ctl view w (w\<lparr>srv := upd_loop l (pending_end (ios (srv w) l)) (srv w),
          pcs := (pcs w)(l := Waiting)\<rparr>)"

text \<open>
  Where it starts: a server with its callbacks set and no connection yet, its acceptor listening, and
  every loop about to wait for the first time.
\<close>

definition server_ready :: "('k \<Rightarrow> int \<rightharpoonup> epoll_event) \<Rightarrow> 'k server \<Rightarrow> bool" where
  "server_ready view S \<longleftrightarrow>
     length (s_ipPort S) \<le> 21 \<and> s_connectionCallback S \<and> s_messageCallback S \<and> newConnectionCallback (s_acceptor S)
     \<and> pool_inv (threadPool S) \<and> baseLoop (threadPool S) = s_loop S
     \<and> inj_on (\<lambda>l. threadId (ios S l)) (loop_set S) \<and> nextConnId S = 1 \<and> connections S = Map.empty
     \<and> (\<forall>l\<in>loop_set S. poller_inv view (base_chans S l) (ios S l) \<and> base_ok (next_obj S) S l
          \<and> pendingFunctors (ios S l) = [])"

definition world_start :: "'k server \<Rightarrow> 'k world" where
  "world_start S = \<lparr>srv = S, pcs = (\<lambda>_. Waiting), hist = (\<lambda>_. [])\<rparr>"

inductive server_reachable :: "'k epoll_ctl \<Rightarrow> ('k \<Rightarrow> int \<rightharpoonup> epoll_event) \<Rightarrow> 'k server \<Rightarrow> 'k world \<Rightarrow> bool"
  for ctl view S where
  start: "server_reachable ctl view S (world_start S)"
| step: "server_reachable ctl view S w \<Longrightarrow> server_step ctl view w w' \<Longrightarrow> server_reachable ctl view S w'"

section \<open>The invariant of the threads\<close>

definition world_inv :: "('k \<Rightarrow> int \<rightharpoonup> epoll_event) \<Rightarrow> nat \<Rightarrow> 'k world \<Rightarrow> bool" where
  "world_inv view h w \<longleftrightarrow> srv_inv view h {} (rests w) (srv w) \<and> (\<forall>l\<in>loop_set (srv w). pc_inv h (srv w) l (pcs w l))"

lemma world_invD:
  assumes "world_inv view h w"
  shows "srv_inv view h {} (rests w) (srv w)" "l \<in> loop_set (srv w) \<Longrightarrow> pc_inv h (srv w) l (pcs w l)"
  using assms by (simp_all add: world_inv_def)

lemma hist_irrelevant [simp]:
  "rests (w\<lparr>hist := H\<rparr>) = rests w" "alive (w\<lparr>hist := H\<rparr>) = alive w" "world_inv view h (w\<lparr>hist := H\<rparr>) = world_inv view h w"
proof -
  show r: "rests (w\<lparr>hist := H\<rparr>) = rests w" by (simp add: rests_def fun_eq_iff)
  show "alive (w\<lparr>hist := H\<rparr>) = alive w" by (simp add: alive_def fun_eq_iff)
  show "world_inv view h (w\<lparr>hist := H\<rparr>) = world_inv view h w" by (simp add: world_inv_def r)
qed

lemma start_inv:
  assumes "server_ready view S"
  shows "world_inv view (next_obj S) (world_start S)"
proof -
  have r: "rests (world_start S) l = []" for l by (simp add: rests_def world_start_def)
  have c: "\<not> created (next_obj S) S q" for q by (simp add: created_def)
  have u: "used_chans (next_obj S) (rests (world_start S)) S l = base_chans S l" for l
    by (simp add: used_chans_def c)
  have "srv_inv view (next_obj S) {} (rests (world_start S)) S"
    using assms by (simp add: srv_inv_def server_ready_def u c todo_def r)
  then show ?thesis by (simp add: world_inv_def world_start_def pc_inv_def)
qed

text \<open>Objects that still have a part to play are alive.\<close>

lemma held_alive:
  assumes "world_inv view h w" "created h (srv w) q" "held (rests w) (srv w) q"
  shows "alive w q"
proof -
  let ?S = "srv w"
  note inv = world_invD [OF assms(1)]
  have task: "alive w q" if t: "t \<in> set (life_tasks (rests w) ?S q l)" "l \<in> loop_set ?S" "\<not> raw_task q t" for t l
  proof -
    have "t \<in> set (batch_of (pcs w l)) \<union> set (pendingFunctors (ios ?S l))"
      using t inv(2) [OF t(2)] by (cases "pcs w l") (auto simp: life_tasks_def todo_def rests_def pc_inv_def)
    moreover have "holds_obj q t" using t(1,3) by (simp add: holds_obj_def life_tasks_def)
    ultimately show ?thesis using t(2) by (auto simp: alive_def)
  qed
  have o: "obj_inv h (rests w) ?S q" using srv_invD(4) [OF inv(1) assms(2)] by simp
  then have cl: "conn_loop ?S q \<in> loop_set ?S" by (simp add: obj_inv_def)
  show ?thesis
  proof (cases "life_at ?S q")
    case Gone
    then obtain l where l: "l \<in> loop_set ?S" "life_tasks (rests w) ?S q l \<noteq> []"
      using assms(3) by (auto simp: held_def)
    then obtain t where t: "t \<in> set (life_tasks (rests w) ?S q l)" by (cases "life_tasks (rests w) ?S q l") auto
    from waiting_mem [OF obj_inv_waiting [OF o _ l(1)] t] Gone have "t \<in> closing_tasks ?S q l" by auto
    then have "\<not> raw_task q t" by (auto simp: closing_tasks_def split: if_splits)
    from task [OF t l(1) this] show ?thesis .
  next
    case Closing
    then show ?thesis using o task [OF _ cl] task [OF _ own_loop_in_set] by (auto simp: obj_inv_def)
  qed (use o in \<open>auto simp: obj_inv_def alive_def ran_def\<close>)
qed

text \<open>What the kernel watches in a loop, and so what it can report, is in use there.\<close>

lemma watched_fine:
  assumes inv: "srv_inv view h {} R S" and l: "l \<in> loop_set S" and v: "view (epollfd (ios S l)) fd = Some (e, p)"
  shows "chan_fine h S l p"
proof -
  note P = srv_invD(1) [OF inv l]
  have "interest (ios S l) fd = Some (e, p)" using P v by (simp add: poller_inv_def)
  then have c: "channels (ios S l) fd = Some p" "ch_index (chans (ios S l) p) = kAdded"
    by (auto simp: interest_def split: option.splits if_splits)
  from poller_inv_reg(2) [OF P c(1)] have "p \<in> used_chans h R S l" by blast
  then consider "p \<in> base_chans S l" | "created h S p" "conn_loop S p = l" by (auto simp: used_chans_def)
  then show ?thesis
  proof cases
    case 2
    have "wf_in p (ios S l)" using srv_invD(4) [OF inv 2(1)] 2(2) by (simp add: obj_inv_def)
    then have "life_at S p \<in> {Live, Closing}"
      using c(2) 2(2) by (auto simp: life_at_def in_defs conn_wf_def life_of_def split: if_splits)
    then show ?thesis using 2 by (simp add: chan_fine_def usable_def)
  qed (simp add: chan_fine_def)
qed

lemma fill_loop_revents:
  "fill_loop evs (active, s) = (active', s') \<Longrightarrow> active' = active @ map snd evs \<and> channels s' = channels s
     \<and> epollfd s' = epollfd s \<and> poller.more s' = poller.more s \<and> (\<forall>q. \<exists>r. chans s' q = (chans s q)\<lparr>ch_revents := r\<rparr>)"
proof (induction evs arbitrary: active s)
  case Nil
  then have "s' = s" "active' = active" by simp_all
  moreover have "\<exists>r. chans s q = (chans s q)\<lparr>ch_revents := r\<rparr>" for q
    by (rule exI [of _ "ch_revents (chans s q)"]) simp
  ultimately show ?case by simp
next
  case (Cons a evs)
  obtain r p where a: "a = (r, p)" by (cases a)
  let ?s = "set_chan p (set_revents r) s"
  have "fill_loop evs (active @ [p], ?s) = (active', s')" using Cons.prems a by simp
  note ih = Cons.IH [OF this]
  have "\<exists>r. chans s' q = (chans s q)\<lparr>ch_revents := r\<rparr>" for q
  proof -
    obtain r1 where "chans s' q = (chans ?s q)\<lparr>ch_revents := r1\<rparr>" using ih by blast
    then show ?thesis by (auto split: if_splits)
  qed
  moreover have "poller.more ?s = poller.more s" by (simp add: set_chan_def)
  ultimately show ?case using ih a by simp
qed

lemma poll_quiet:
  fixes W W' :: "'k io"
  assumes "poll ev [] W = Inr (lg, ps, W')" "reports view W ev"
  shows "quiet W W'" "pendingFunctors W' = pendingFunctors W"
    "\<And>p. p \<in> set ps \<Longrightarrow> \<exists>fd e. view (epollfd W) fd = Some (e, p)"
proof -
  have "quiet W W' \<and> pendingFunctors W' = pendingFunctors W \<and> (\<forall>p\<in>set ps. \<exists>fd e. view (epollfd W) fd = Some (e, p))"
  proof (cases ev)
    case (EvErr e)
    have "poll ev [] W = Inr (PollQuiet, [], W)"
      unfolding EvErr by (rule poll_error) (use assms(2) in \<open>simp add: reports_def\<close>)
    then show ?thesis using assms(1) quiet_refl_upd(9) by simp
  next
    case (EvOk evs)
    let ?W1 = "W\<lparr>evlist := evs @ drop (length evs) (evlist W)\<rparr>" and ?n = "of_nat (length evs) :: size_t"
    have r: "length evs \<le> length (evlist W)" "length (evlist W) < 2 ^ 31"
      "\<forall>(r, p)\<in>set evs. \<exists>fd e. view (epollfd W) fd = Some (e, p)" using assms(2) EvOk by (simp_all add: reports_def)
    have n: "unat ?n = length evs" using r by (intro unat_of_nat_fits) simp
    have "sint (int_of_size ?n) = int (length evs)" using r by (intro sint_int_of_size) simp
    moreover have "length (evlist ?W1) = length (evlist W)" using r(1) by simp
    ultimately have f: "fillActiveChannels (int_of_size ?n) [] ?W1 = Inr (fill_loop evs ([], ?W1))"
      using r by (simp add: fillActiveChannels_def vec_read_def)
    show ?thesis
    proof (cases "0 < ?n")
      case True
      obtain a s2 where fl: "fill_loop evs ([], ?W1) = (a, s2)" by fastforce
      note fr = fill_loop_revents [OF fl]
      have "\<exists>l. W' = s2\<lparr>evlist := l\<rparr> \<and> ps = a"
        using assms(1) True f fl unfolding EvOk poll_def
        by (auto simp: rbind_eq_Inr split: if_splits intro: exI [of _ "evlist s2"])
      then obtain l where l: "W' = s2\<lparr>evlist := l\<rparr>" "ps = a" by blast
      have m: "poller.more s2 = poller.more W" using fr by simp
      then have "conns s2 = conns W" "threadId s2 = threadId W" "wakeupChannel s2 = wakeupChannel W"
        "pendingFunctors s2 = pendingFunctors W" by (cases W; cases s2; simp)+
      then show ?thesis using l fr r(3) by (auto simp: quiet_def)
    next
      case False
      then have "evs = []" using n by (simp add: word_less_nat_alt)
      then have "W' = W" "ps = []" using assms(1) EvOk by (simp_all add: poll_def)
      then show ?thesis using quiet_refl_upd(9) by simp
    qed
  qed
  then show "quiet W W'" "pendingFunctors W' = pendingFunctors W"
    "\<And>p. p \<in> set ps \<Longrightarrow> \<exists>fd e. view (epollfd W) fd = Some (e, p)" by blast+
qed

lemma handleEvent_fine:
  assumes inv: "srv_inv view h {} R S" and l: "l \<in> loop_set S" and p: "chan_fine h S l p"
    and c: "c \<in> set (handleEvent al (chans (ios S l) p))"
  shows "cb_fine h S l c"
proof -
  let ?ch = "chans (ios S l) p"
  have c': "closeCallback ?ch = Some c \<or> readCallback ?ch = Some c \<or> writeCallback ?ch = Some c"
    using c by (auto simp: mem_handleEvent mem_handleEventWithGuard)
  show ?thesis
  proof (cases "p \<in> base_chans S l")
    case True
    then show ?thesis using c' srv_invD(2) [OF inv l]
      by (auto simp: base_chans_def base_ok_def Let_def split: if_splits)
  next
    case False
    then have u: "usable h S l p" using p by (simp add: chan_fine_def)
    then have "obj_inv h R S p" using srv_invD(4) [OF inv] by (simp add: usable_def)
    then have "conn_bound p ?ch" using u by (simp add: obj_inv_def usable_def wf_in_def conn_wf_def)
    then show ?thesis using c' u by (auto simp: conn_bound_def)
  qed
qed

section \<open>Every step keeps the invariant\<close>

lemma rests_upd: "rests (w\<lparr>srv := S', pcs := (pcs w)(l := pc)\<rparr>) = (rests w)(l := rest_of pc)"
  "rests (w\<lparr>srv := S'\<rparr>) = rests w"
  by (simp_all add: rests_def fun_eq_iff)

lemma world_invI:
  assumes inv: "world_inv view h w" and i: "srv_inv view h {} ((rests w)(l := rest_of pc)) S'"
    and c: "carried h Y (srv w) S'" "\<And>q. q \<in> Y \<Longrightarrow> conn_loop (srv w) q = l" and pc: "pc_inv h S' l pc"
  shows "world_inv view h (w\<lparr>srv := S', pcs := (pcs w)(l := pc)\<rparr>)"
proof -
  have ls: "loop_set S' = loop_set (srv w)" using c(1) by (simp add: carried_def)
  have "pc_inv h S' m (pcs w m)" if "m \<in> loop_set (srv w)" "m \<noteq> l" for m
    by (rule carried_pc [OF c(1) that(1)]) (use c(2) that world_invD(2) [OF inv that(1)] in \<open>auto simp: usable_def\<close>)
  then show ?thesis using i pc unfolding world_inv_def rests_upd by (simp add: ls)
qed

lemma world_invI_quiet:
  assumes inv: "world_inv view h w" and l: "l \<in> loop_set (srv w)" and q: "quiet (ios (srv w) l) W'"
    and t: "filter P (rest_of pc) @ filter P (pendingFunctors W') = filter P (rest_of (pcs w l)) @ filter P (pendingFunctors (ios (srv w) l))"
    and P: "P = (\<lambda>t. \<forall>k. t \<noteq> UserTask k)"
    and pc: "pc_inv h (upd_loop l W' (srv w)) l pc"
  shows "world_inv view h (w\<lparr>srv := upd_loop l W' (srv w), pcs := (pcs w)(l := pc)\<rparr>)"
proof (rule world_invI [OF inv, where Y = "{}"])
  let ?S = "srv w" and ?R = "(rests w)(l := rest_of pc)"
  note i = world_invD(1) [OF inv]
  have f: "filter (life_task q) ts = filter (life_task q) (filter P ts)" for q ts
    by (induction ts) (auto simp: P life_task_def)
  have m: "u \<in> set ts \<Longrightarrow> u \<in> set (filter P ts) \<or> (\<exists>k. u = UserTask k)" for u ts by (auto simp: P)
  let ?a = "rest_of pc @ pendingFunctors W'" and ?b = "rest_of (pcs w l) @ pendingFunctors (ios ?S l)"
  have ab: "filter P ?a = filter P ?b" using t by simp
  then have fa: "filter (life_task q) ?a = filter (life_task q) ?b" for q by (simp only: f [of q ?a] f [of q ?b])
  have tb: "task_fine h ?S u" if "u \<in> set ?b" for u
    using srv_invD(3) [OF i l, of u] that by (simp add: todo_def rests_def)
  have ta: "task_fine h ?S u" if "u \<in> set ?a" for u
  proof (cases "u \<in> set (filter P ?a)")
    case True
    then have "u \<in> set (filter P ?b)" by (simp only: ab)
    then show ?thesis by (intro tb) auto
  qed (use m [OF that] in auto)
  show "srv_inv view h {} ?R (upd_loop l W' ?S)"
    unfolding upd_loop_def
  proof (rule inv_quiet [OF i q])
    show "life_tasks ?R (?S\<lparr>ios := (ios ?S)(l := W')\<rparr>) q m = life_tasks (rests w) ?S q m" for q m
      using fa [of q] by (cases "m = l") (simp_all add: life_tasks_def todo_def rests_def)
    show "task_fine h ?S u" if "m \<in> loop_set ?S" "u \<in> set (todo ?R (?S\<lparr>ios := (ios ?S)(l := W')\<rparr>) m)" for m u
      using that ta srv_invD(3) [OF i that(1), of u] by (cases "m = l") (simp_all add: todo_def)
  qed
  show "carried h {} ?S (upd_loop l W' ?S)" unfolding upd_loop_def by (rule quiet_carried [OF q])
qed (use pc in simp_all)

lemma carried_quiet_pc:
  assumes "quiet (ios S l) W'" "l \<in> loop_set S" "pc_inv h S l pc"
  shows "pc_inv h (upd_loop l W' S) l pc"
  unfolding upd_loop_def by (rule carried_pc [OF quiet_carried [OF assms(1)] assms(2)]) (use assms(3) in simp_all)

lemma world_invI_own:
  assumes inv: "world_inv view h w" and l: "l \<in> loop_set (srv w)" and o1: "created h (srv w) o1"
    and S': "srv_inv view h {} (rests w) S'" "step_of o1 (srv w) S'"
  shows "world_inv view h (w\<lparr>srv := S'\<rparr>)"
proof -
  note c = step_of_carried [OF world_invD(1) [OF inv] S'(2) o1]
  have "(rests w)(l := rest_of (pcs w l)) = rests w" by (simp add: rests_def fun_upd_idem)
  then have "world_inv view h (w\<lparr>srv := S', pcs := (pcs w)(l := pcs w l)\<rparr>)"
    by (intro world_invI [OF inv _ c]) (use S'(1) carried_pc [OF c l _ world_invD(2) [OF inv l]] in simp_all)
  then show ?thesis by simp
qed

lemma alive_ok:
  assumes "world_inv view h w" "created h (srv w) q" "held (rests w) (srv w) q"
  shows "alive w q"
  using assms by (rule held_alive)

lemma server_step_inv:
  assumes doc: "epoll_documented ctl view" and st: "server_step ctl view w w'" and inv: "world_inv view h w"
  shows "world_inv view h w'"
  using st
proof cases
  case (poll_step l ev lg ps W)
  let ?W0 = "(ios (srv w) l)\<lparr>activateChannels := []\<rparr>"
  have r: "reports view ?W0 ev" using poll_step(4) by (simp add: reports_def split: wait_result.splits)
  note p = poll_quiet [OF poll_step(5) r]
  have q: "quiet (ios (srv w) l) (W\<lparr>activateChannels := ps\<rparr>)" using p(1) by (simp add: quiet_def)
  have "chan_fine h (srv w) l p" if "p \<in> set ps" for p
    using p(3) [OF that] watched_fine [OF world_invD(1) [OF inv] poll_step(2)] by auto
  then have "pc_inv h (srv w) l (Dispatching [] ps)" by (simp add: pc_inv_def)
  from world_invI_quiet [OF inv poll_step(2) q _ refl carried_quiet_pc [OF q poll_step(2) this]] show ?thesis
    using poll_step p(2) by simp
next
  case (channel_step l p ps)
  have fine: "chan_fine h (srv w) l p" "\<forall>p\<in>set ps. chan_fine h (srv w) l p"
    using world_invD(2) [OF inv channel_step(2)] channel_step(3) by (simp_all add: pc_inv_def)
  have "pc_inv h (srv w) l (Dispatching (handleEvent (alive w) (chans (ios (srv w) l) p)) ps)"
    using handleEvent_fine [OF world_invD(1) [OF inv] channel_step(2) fine(1)] fine(2) by (auto simp: pc_inv_def)
  moreover have "(rests w)(l := []) = rests w" using channel_step(3) by (auto simp: rests_def fun_eq_iff)
  ultimately have "world_inv view h (w\<lparr>srv := srv w, pcs := (pcs w)(l := Dispatching (handleEvent (alive w) (chans (ios (srv w) l) p)) ps)\<rparr>)"
    by (intro world_invI [OF inv, where Y = "{}"]) (use world_invD(1) [OF inv] in simp_all)
  then show ?thesis using channel_step(1) by simp
next
  case (callback_step l c cs ps E S')
  have fine: "cb_fine h (srv w) l c" "pc_inv h (srv w) l (Dispatching cs ps)"
    using world_invD(2) [OF inv callback_step(2)] callback_step(3) by (simp_all add: pc_inv_def)
  have S': "srv_inv view h {} (rests w) S'" "carried h {} (srv w) S'"
    using run_callback_ok [OF doc world_invD(1) [OF inv] callback_step(2) fine(1) callback_step(4)
        returned_reads [OF world_invD(1) [OF inv] fine(1) callback_step(5)] alive_ok [OF inv]]
      callback_step(5) by auto
  have "(rests w)(l := []) = rests w" using callback_step(3) by (auto simp: rests_def fun_eq_iff)
  then show ?thesis unfolding callback_step(1)
    by (intro world_invI [OF inv, where Y = "{}"])
      (use S' carried_pc [OF S'(2) callback_step(2) _ fine(2)] in simp_all)
next
  case (user_code l n o1 as S')
  note i = world_invD(1) [OF inv]
  have o1: "created h (srv w) o1" using srv_invD(5) [OF i user_code(4)] by simp
  have "life_at (srv w) o1 \<in> {Live, Closing}"
    using user_code(5,6) by (auto simp: life_at_def in_defs life_of_def)
  from inv_user [OF doc i o1 this user_code(7)] have S': "srv_inv view h {} (rests w) S'" "step_of o1 (srv w) S'"
    using user_code(5,8,9) by auto
  have "world_inv view h (w\<lparr>srv := S'\<rparr>)" by (rule world_invI_own [OF inv user_code(2) o1 S'])
  then show ?thesis using user_code(1) by simp
next
  case (user_queue l tid k)
  let ?W = "queueInLoop tid (UserTask k) (ios (srv w) l)"
  have q: "quiet (ios (srv w) l) ?W" by (rule quiet_refl_upd)
  have "world_inv view h (w\<lparr>srv := upd_loop l ?W (srv w), pcs := (pcs w)(l := pcs w l)\<rparr>)"
    by (rule world_invI_quiet [OF inv user_queue(2) q _ refl carried_quiet_pc [OF q user_queue(2) world_invD(2) [OF inv user_queue(2)]]])
      simp
  then show ?thesis using user_queue(1) by simp
next
  case (foreign_send l n o1 tid ds)
  note i = world_invD(1) [OF inv]
  note f = foreign_live [OF i foreign_send(3) foreign_send(5) [folded foreign_send(4)]]
  have "srv_inv view h {} (rests w) (srv w')" "step_of o1 (srv w) (srv w')"
    using inv_foreign [OF i f(1) foreign_send(4) [symmetric] f(2), of "SendInLoopStr o1 ds" tid] f(1) foreign_send(1,7)
    by (simp_all add: upd_loop_def)
  from world_invI_own [OF inv foreign_send(2) f(1) this] show ?thesis using foreign_send(1) by simp
next
  case (foreign_mark l n o1)
  note i = world_invD(1) [OF inv]
  note f = foreign_live [OF i foreign_mark(3) foreign_mark(5) [folded foreign_mark(4)]]
  have "srv_inv view h {} (rests w) (srv w')" "step_of o1 (srv w) (srv w')"
    using inv_foreign_mark [OF i foreign_mark(3-5)] foreign_mark(1) by (simp_all add: upd_loop_def)
  from world_invI_own [OF inv foreign_mark(2) f(1) this] show ?thesis using foreign_mark(1) by simp
next
  case (foreign_shutdown l n o1 tid)
  note i = world_invD(1) [OF inv]
  note f = foreign_live [OF i foreign_shutdown(3) foreign_shutdown(5) [folded foreign_shutdown(4)]]
  have "srv_inv view h {} (rests w) (srv w')" "step_of o1 (srv w) (srv w')"
    using inv_foreign [OF i f(1) foreign_shutdown(4) [symmetric] f(2), of "ShutdownInLoop o1" tid] f(1) foreign_shutdown(1)
    by (simp_all add: upd_loop_def)
  from world_invI_own [OF inv foreign_shutdown(2) f(1) this] show ?thesis using foreign_shutdown(1) by simp
next
  case (swap_step l b W)
  have W: "b = pendingFunctors (ios (srv w) l)" "W = (ios (srv w) l)\<lparr>callingPendingFunctors := True, pendingFunctors := []\<rparr>"
    using swap_step(4) by (simp_all add: pending_defs)
  have q: "quiet (ios (srv w) l) W" unfolding W by (rule quiet_refl_upd)
  have "pc_inv h (srv w) l (Functors b b)" by (simp add: pc_inv_def)
  from world_invI_quiet [OF inv swap_step(2) q _ refl carried_quiet_pc [OF q swap_step(2) this]] show ?thesis
    using swap_step W by simp
next
  case (functor_step l t ts b E S')
  have R: "rests w l = t # ts" using functor_step(3) by (simp add: rests_def)
  from run_task_ok [OF doc world_invD(1) [OF inv] functor_step(2) R refl functor_step(4)] functor_step(5)
  obtain Y where Y: "srv_inv view h {} ((rests w)(l := ts)) S'" "carried h Y (srv w) S'" "\<forall>q\<in>Y. conn_loop (srv w) q = l"
    by auto
  have "pc_inv h S' l (Functors ts b)"
    using world_invD(2) [OF inv functor_step(2)] functor_step(3) by (simp add: pc_inv_def)
  then have "world_inv view h (w\<lparr>srv := S', pcs := (pcs w)(l := Functors ts b)\<rparr>)"
    by (intro world_invI [OF inv _ Y(2)]) (use Y in simp_all)
  then show ?thesis unfolding functor_step(1) by simp
next
  case (round_end l b)
  let ?W = "pending_end (ios (srv w) l)"
  have q: "quiet (ios (srv w) l) ?W" unfolding pending_end_def by (rule quiet_refl_upd)
  show ?thesis unfolding round_end(1)
    by (rule world_invI_quiet [OF inv round_end(2) q _ refl])
      (use round_end(3) in \<open>simp_all add: pc_inv_def pending_end_def\<close>)
qed

lemma reachable_inv:
  assumes doc: "epoll_documented ctl view" and ready: "server_ready view S" and r: "server_reachable ctl view S w"
  shows "world_inv view (next_obj S) w"
  using r
proof induction
  case start
  show ?case by (rule start_inv [OF ready])
next
  case (step w w')
  then show ?case by (blast intro: server_step_inv [OF doc])
qed

section \<open>The kinds of steps\<close>

text \<open>What the user's callbacks are told is not changed by a poll.\<close>

lemma fill_loop_more: "fill_loop evs (active, s) = (ps, s') \<Longrightarrow> poller.more s' = poller.more s"
  using fill_loop_revents [of evs active s ps s'] by simp

lemma poll_calls:
  fixes W W' :: "'k io"
  assumes "poll ev ps W = Inr (lg, qs, W')"
  shows "calls W' = calls W"
proof -
  have "poller.more W' = poller.more W"
    using assms by (auto simp: poll_def fillActiveChannels_def Let_def rbind_eq_Inr dest!: fill_loop_more split: wait_result.splits if_splits)
  then show ?thesis by (cases W; cases W'; simp)
qed

text \<open>The sends to a connection that are still queued in its loop, oldest first.\<close>

fun chunk_of :: "obj \<Rightarrow> task \<Rightarrow> char list list" where
  "chunk_of q (SendInLoopStr p ds) = (if p = q then [ds] else [])"
| "chunk_of q t = []"

definition chunks :: "obj \<Rightarrow> task list \<Rightarrow> char list list" where
  "chunks q ts = concat (map (chunk_of q) ts)"

definition flight :: "'k world \<Rightarrow> obj \<Rightarrow> char list list" where
  "flight w q = chunks q (todo (rests w) (srv w) (conn_loop (srv w) q))"

lemma chunks_simps [simp]:
  "chunks q [] = []" "chunks q (t # ts) = chunk_of q t @ chunks q ts" "chunks q (ts @ us) = chunks q ts @ chunks q us"
  by (simp_all add: chunks_def)

text \<open>
  Every step is one of six: nothing but the bookkeeping of a loop changes, a send is queued by another thread,
  a callback, a functor, a session of user calls, or another thread sets the state to \<open>kDisconnecting\<close>.  No
  notice appears in the first two.
\<close>

definition quiet_step :: "'k world \<Rightarrow> 'k world \<Rightarrow> bool" where
  "quiet_step w w' \<longleftrightarrow> hist w' = hist w
     \<and> (\<exists>l W. srv w' = upd_loop l W (srv w) \<and> quiet (ios (srv w) l) W \<and> calls W = calls (ios (srv w) l)
     \<and> (\<forall>m. \<forall>t\<in>set (todo (rests w') (srv w') m). t \<in> set (todo (rests w) (srv w) m) \<or> (\<forall>q. \<not> notice q t)))"

definition sent_from_outside :: "nat \<Rightarrow> 'k world \<Rightarrow> 'k world \<Rightarrow> bool" where
  "sent_from_outside h w w' \<longleftrightarrow> (\<exists>o1 ds. created h (srv w) o1 \<and> life_at (srv w) o1 = Live
     \<and> flight w' = (flight w)(o1 := flight w o1 @ [ds]))"

definition user_session :: "'k epoll_ctl \<Rightarrow> ('k \<Rightarrow> int \<rightharpoonup> epoll_event) \<Rightarrow> nat \<Rightarrow> 'k world \<Rightarrow> 'k world \<Rightarrow> bool" where
  "user_session ctl view h w w' \<longleftrightarrow> (\<exists>o1 as W. let l = conn_loop (srv w) o1 in
     created h (srv w) o1 \<and> l \<in> loop_set (srv w) \<and> life_at (srv w) o1 = Live
     \<and> runnable view (used_chans h (rests w) (srv w) l) o1 (ios (srv w) l) \<and> (\<forall>a\<in>set as. user_allowed a)
     \<and> length (store (outputBuffer (conns (ios (srv w) l) o1))) + sum_list (map user_cost as) \<le> vec_max_size
     \<and> run_all (user_step ctl o1) as (ios (srv w) l) = Inr W \<and> same_life o1 (ios (srv w) l) W
     \<and> srv w' = (srv w)\<lparr>ios := (ios (srv w))(l := W)\<rparr> \<and> rests w' = rests w
     \<and> hist w' = note_session ctl o1 as (ios (srv w) l) (hist w))"

definition marked_from_outside :: "nat \<Rightarrow> 'k world \<Rightarrow> 'k world \<Rightarrow> bool" where
  "marked_from_outside h w w' \<longleftrightarrow> hist w' = hist w \<and> (\<exists>o1. let l = conn_loop (srv w) o1 in
     created h (srv w) o1 \<and> life_at (srv w) o1 = Live \<and> rests w' = rests w
     \<and> srv w' = upd_loop l (setState kDisconnecting o1 (ios (srv w) l)) (srv w))"

lemma upd_loop_simps [simp]:
  "loop_set (upd_loop l W S) = loop_set S" "connections (upd_loop l W S) = connections S"
  "conn_loop (upd_loop l W S) = conn_loop S" "s_loop (upd_loop l W S) = s_loop S" "next_obj (upd_loop l W S) = next_obj S"
  "ios (upd_loop l W S) m = (if m = l then W else ios S m)"
  by (simp_all add: upd_loop_def loop_set_def)

lemma quiet_stepI:
  assumes "hist w' = hist w" "srv w' = upd_loop l W (srv w)" "quiet (ios (srv w) l) W" "calls W = calls (ios (srv w) l)"
    and "\<And>t q. t \<in> set (rests w' l) \<union> set (pendingFunctors W) \<Longrightarrow> notice q t \<Longrightarrow> t \<in> set (todo (rests w) (srv w) l)"
    and "\<And>m. m \<noteq> l \<Longrightarrow> rests w' m = rests w m"
  shows "quiet_step w w'"
proof -
  have "t \<in> set (todo (rests w) (srv w) m) \<or> (\<forall>q. \<not> notice q t)" if t: "t \<in> set (todo (rests w') (srv w') m)" for m t
  proof (cases "m = l")
    case True
    then show ?thesis using t assms(2,5) by (auto simp: todo_def)
  next
    case False
    then show ?thesis using t assms(2,6) by (simp add: todo_def)
  qed
  then show ?thesis using assms(1-4) unfolding quiet_step_def by blast
qed

lemma flightI:
  assumes "srv w' = upd_loop l W (srv w)" "\<And>m. m \<noteq> l \<Longrightarrow> rests w' m = rests w m"
    and "\<And>q. chunks q (rests w' l) @ chunks q (pendingFunctors W)
      = chunks q (rests w l) @ chunks q (pendingFunctors (ios (srv w) l)) @ new q"
    and "\<And>q. conn_loop (srv w) q \<noteq> l \<Longrightarrow> new q = []"
  shows "flight w' = (\<lambda>q. flight w q @ new q)"
proof
  fix q
  show "flight w' q = flight w q @ new q"
    using assms(2,4) assms(3) [of q] by (cases "conn_loop (srv w) q = l") (auto simp: flight_def assms(1) todo_def)
qed

lemma user_code_session:
  assumes doc: "epoll_documented ctl view" and inv: "world_inv view h w" and n: "connections (srv w) n = Some o1"
    and c: "c_state (conns (ios (srv w) (conn_loop (srv w) o1)) o1) \<in> {kConnected, kDisconnecting}"
    and a: "\<forall>a\<in>set as. user_allowed a"
    and room: "length (store (outputBuffer (conns (ios (srv w) (conn_loop (srv w) o1)) o1))) + sum_list (map user_cost as) \<le> vec_max_size"
    and S': "upd_io (conn_loop (srv w) o1) (run_all (user_step ctl o1) as) (srv w) = Inr S'"
  shows "user_session ctl view h w
    (w\<lparr>srv := S', hist := note_session ctl o1 as (ios (srv w) (conn_loop (srv w) o1)) (hist w)\<rparr>)"
proof -
  note i = world_invD(1) [OF inv]
  have o1: "created h (srv w) o1" using srv_invD(5) [OF i n] by simp
  have lf: "life_at (srv w) o1 \<in> {Live, Closing}" "life_at (srv w) o1 = Live"
    using c by (auto simp: life_at_def in_defs life_of_def)
  note r = inv_runnable [OF i _ o1 refl lf(1), simplified]
  obtain W where W: "run_all (user_step ctl o1) as (ios (srv w) (conn_loop (srv w) o1)) = Inr W"
      "S' = (srv w)\<lparr>ios := (ios (srv w))(conn_loop (srv w) o1 := W)\<rparr>"
    using S' by (auto simp: upd_io_def rbind_eq_Inr)
  have "same_life o1 (ios (srv w) (conn_loop (srv w) o1)) W"
    using usr.session_ok [OF conjI [OF doc r(1)] a room] W(1) by auto
  then show ?thesis unfolding user_session_def Let_def
    using o1 r(1,2) lf(2) a room W by (intro exI [of _ o1] exI [of _ as] exI [of _ W]) (simp add: rests_upd)
qed

text \<open>A functor put at the end of the queue of a loop.\<close>

lemma queued_step:
  fixes w :: "'k world" and tid t l
  defines "w' \<equiv> w\<lparr>srv := upd_loop l (queueInLoop tid t (ios (srv w) l)) (srv w)\<rparr>"
  assumes t: "\<And>q. \<not> notice q t"
  shows "quiet_step w w'" "(\<And>q. conn_loop (srv w) q \<noteq> l \<Longrightarrow> chunk_of q t = []) \<Longrightarrow> flight w' = (\<lambda>q. flight w q @ chunk_of q t)"
proof -
  let ?W = "queueInLoop tid t (ios (srv w) l)"
  have r: "rests w' = rests w" "srv w' = upd_loop l ?W (srv w)" by (simp_all add: w'_def rests_upd)
  show "quiet_step w w'"
    by (rule quiet_stepI [OF _ r(2) quiet_refl_upd(6)]) (use t in \<open>auto simp: w'_def todo_def rests_upd\<close>)
  show "flight w' = (\<lambda>q. flight w q @ chunk_of q t)" if "\<And>q. conn_loop (srv w) q \<noteq> l \<Longrightarrow> chunk_of q t = []"
    by (rule flightI [OF r(2)]) (use that r in simp_all)
qed

lemma step_kinds:
  assumes doc: "epoll_documented ctl view" and inv: "world_inv view h w" and st: "server_step ctl view w w'"
  obtains (quiet) "quiet_step w w'" "flight w' = flight w"
  | (sent) "quiet_step w w'" "sent_from_outside h w w'"
  | (callback) l c E where "l \<in> loop_set (srv w)" "cb_fine h (srv w) l c" "env_ok (alive w) E c (srv w)"
      "run_callback ctl l E c (srv w) = Inr (srv w')" "rests w' = rests w" "hist w' = hist w"
  | (task) l t ts E where "l \<in> loop_set (srv w)" "rests w l = t # ts" "task_ok E t (srv w)"
      "run_task ctl l E t (srv w) = Inr (srv w')" "rests w' = (rests w)(l := ts)" "hist w' = note_task E t (srv w) (hist w)"
  | (user) "user_session ctl view h w w'"
  | (mark) "marked_from_outside h w w'"
  using st
proof cases
  case (poll_step l ev lg ps W)
  have "reports view ((ios (srv w) l)\<lparr>activateChannels := []\<rparr>) ev" using poll_step(4) by (simp add: reports_def split: wait_result.splits)
  note q = poll_quiet [OF poll_step(5) this]
  have r: "rests w' = rests w" using poll_step(1,3) by (auto simp: rests_def fun_eq_iff)
  have "quiet_step w w'"
    by (rule quiet_stepI [of _ _ l "W\<lparr>activateChannels := ps\<rparr>"])
      (use q poll_calls [OF poll_step(5)] poll_step r in \<open>auto simp: quiet_def todo_def\<close>)
  moreover have "flight w' = (\<lambda>q. flight w q @ [])"
    by (rule flightI [of _ l "W\<lparr>activateChannels := ps\<rparr>"]) (use q poll_step r in auto)
  ultimately show ?thesis using quiet by simp
next
  case (channel_step l p ps)
  have r: "rests w' = rests w" using channel_step(1,3) by (auto simp: rests_def fun_eq_iff)
  have "quiet_step w w'"
    by (rule quiet_stepI [of _ _ l "ios (srv w) l"])
      (use channel_step quiet_refl_upd(9) r in \<open>auto simp: todo_def upd_loop_def\<close>)
  moreover have "srv w' = srv w" using channel_step(1) by simp
  then have "flight w' = flight w" by (simp add: flight_def fun_eq_iff r)
  ultimately show ?thesis by (rule quiet)
next
  case (callback_step l c cs ps E S')
  have "cb_fine h (srv w) l c" using world_invD(2) [OF inv callback_step(2)] callback_step(3) by (simp add: pc_inv_def)
  moreover have "rests w' = rests w" using callback_step(1,3) by (auto simp: rests_def fun_eq_iff)
  ultimately show ?thesis using callback [of l c E] callback_step by simp
next
  case (user_code l n o1 as S')
  have "user_session ctl view h w w'" unfolding user_code(1) user_code(5) [symmetric]
    by (rule user_code_session [OF doc inv user_code(4)]) (use user_code in simp_all)
  then show ?thesis by (rule user)
next
  case (user_queue l tid k)
  have "\<not> notice q (UserTask k)" for q by (simp add: notice_def)
  note Q = queued_step [where t = "UserTask k", OF this, of w l tid, folded user_queue(1)]
  show ?thesis by (rule quiet [OF Q(1)]) (use Q(2) in simp)
next
  case (foreign_send l n o1 tid ds)
  note f = foreign_live [OF world_invD(1) [OF inv] foreign_send(3) foreign_send(5) [folded foreign_send(4)]]
  have "\<not> notice q (SendInLoopStr o1 ds)" for q by (simp add: notice_def)
  note Q = queued_step [where t = "SendInLoopStr o1 ds", OF this, of w l tid, folded foreign_send(1)]
  have "flight w' = (\<lambda>q. flight w q @ chunk_of q (SendInLoopStr o1 ds))" by (rule Q(2)) (use foreign_send(4) in auto)
  then have "flight w' = (flight w)(o1 := flight w o1 @ [ds])" by (auto simp: fun_eq_iff)
  then have "sent_from_outside h w w'" using f unfolding sent_from_outside_def by blast
  with Q(1) show ?thesis by (rule sent)
next
  case (foreign_mark l n o1)
  note f = foreign_live [OF world_invD(1) [OF inv] foreign_mark(3) foreign_mark(5) [folded foreign_mark(4)]]
  have "marked_from_outside h w w'" unfolding marked_from_outside_def Let_def
    using foreign_mark(1,4) f by (intro conjI exI [of _ o1]) (simp_all add: rests_upd)
  then show ?thesis by (rule mark)
next
  case (foreign_shutdown l n o1 tid)
  have "\<not> notice q (ShutdownInLoop o1)" for q by (simp add: notice_def)
  note Q = queued_step [where t = "ShutdownInLoop o1", OF this, of w l tid, folded foreign_shutdown(1)]
  show ?thesis by (rule quiet [OF Q(1)]) (use Q(2) in simp)
next
  case (swap_step l b W)
  have W: "W = (ios (srv w) l)\<lparr>callingPendingFunctors := True, pendingFunctors := []\<rparr>" "b = pendingFunctors (ios (srv w) l)"
    using swap_step(4) by (simp_all add: pending_defs)
  have r: "rests w l = []" "rests w' = (rests w)(l := b)" using swap_step(1,3) by (auto simp: rests_def fun_eq_iff)
  have "quiet (ios (srv w) l) W" unfolding W(1) by (rule quiet_refl_upd)
  then have "quiet_step w w'"
    by (intro quiet_stepI [of _ _ l W]) (use swap_step(1) W r in \<open>auto simp: todo_def\<close>)
  moreover have "flight w' = (\<lambda>q. flight w q @ [])" by (rule flightI [of _ l W]) (use swap_step(1) W r in auto)
  ultimately show ?thesis using quiet by simp
next
  case (functor_step l t ts b E S')
  have "rests w l = t # ts" "rests w' = (rests w)(l := ts)" using functor_step(1,3) by (auto simp: rests_def fun_eq_iff)
  then show ?thesis using task [of l t ts E] functor_step by simp
next
  case (round_end l b)
  have r: "rests w' = rests w" using round_end(1,3) by (auto simp: rests_def fun_eq_iff)
  have "quiet (ios (srv w) l) (pending_end (ios (srv w) l))" unfolding pending_end_def by (rule quiet_refl_upd)
  then have "quiet_step w w'"
    by (intro quiet_stepI [of _ _ l "pending_end (ios (srv w) l)"])
      (use round_end(1) r in \<open>auto simp: todo_def pending_end_def\<close>)
  moreover have "flight w' = (\<lambda>q. flight w q @ [])"
    by (rule flightI [of _ l "pending_end (ios (srv w) l)"]) (use round_end(1) r in \<open>auto simp: pending_end_def\<close>)
  ultimately show ?thesis using quiet by simp
qed

section \<open>At rest\<close>

text \<open>At rest no connection is on its way.\<close>

lemma rest_life:
  assumes inv: "world_inv view h w" and rest: "\<forall>l\<in>loop_set (srv w). pcs w l = Waiting \<and> pendingFunctors (ios (srv w) l) = []"
    and q: "created h (srv w) q"
  shows "life_at (srv w) q \<in> {Live, Gone}" "life_at (srv w) q = Live \<longleftrightarrow> q \<in> ran (connections (srv w))"
proof -
  note i = world_invD(1) [OF inv]
  have none: "life_tasks (rests w) (srv w) p l = []" if "l \<in> loop_set (srv w)" for p l
    using rest that by (simp add: life_tasks_def todo_def rests_def)
  have o: "obj_inv h (rests w) (srv w) q" using srv_invD(4) [OF i q] by simp
  then have cl: "conn_loop (srv w) q \<in> loop_set (srv w)" by (simp add: obj_inv_def)
  have m: "q \<in> ran (connections (srv w)) \<longleftrightarrow> connections (srv w) (obj_name h (srv w) q) = Some q"
    using srv_invD(5) [OF i] by (auto simp: ran_def)
  show l: "life_at (srv w) q \<in> {Live, Gone}"
    using o none [OF cl] none [OF own_loop_in_set] cl by (cases "life_at (srv w) q") (auto simp: obj_inv_def)
  show "life_at (srv w) q = Live \<longleftrightarrow> q \<in> ran (connections (srv w))"
    using o l none [OF own_loop_in_set] unfolding m by (auto simp: obj_inv_def)
qed

text \<open>A connection in the map is then open.\<close>

lemma at_rest_open:
  assumes inv: "world_inv view h w" and rest: "\<forall>l\<in>loop_set (srv w). pcs w l = Waiting \<and> pendingFunctors (ios (srv w) l) = []"
    and n: "connections (srv w) n = Some q"
  shows "n = obj_name h (srv w) q" "conn_loop (srv w) q \<in> loop_set (srv w)"
    "q \<in> used_chans h (rests w) (srv w) (conn_loop (srv w) q)" "wf_in q (ios (srv w) (conn_loop (srv w) q))"
    "life_in q (ios (srv w) (conn_loop (srv w) q)) = Live"
proof -
  note i = world_invD(1) [OF inv]
  have q: "created h (srv w) q" "n = obj_name h (srv w) q" using srv_invD(5) [OF i n] by simp_all
  show "n = obj_name h (srv w) q" by (rule q(2))
  have o: "obj_inv h (rests w) (srv w) q" using srv_invD(4) [OF i q(1)] by simp
  then show "conn_loop (srv w) q \<in> loop_set (srv w)" "wf_in q (ios (srv w) (conn_loop (srv w) q))"
    by (simp_all add: obj_inv_def)
  have "q \<in> ran (connections (srv w))" using n by (auto simp: ran_def)
  then have l: "life_at (srv w) q = Live" using rest_life(2) [OF inv rest q(1)] by simp
  then show "life_in q (ios (srv w) (conn_loop (srv w) q)) = Live" by (simp add: life_at_def)
  show "q \<in> used_chans h (rests w) (srv w) (conn_loop (srv w) q)" using q(1) l by (simp add: used_chans_def held_def)
qed

text \<open>The kernel reports the events \<open>r\<close> of an open connection: its loop is about to invoke what the mask asks for.\<close>

lemma event_dispatch:
  fixes w :: "'k world"
  assumes inv: "world_inv view h w" and rest: "\<forall>l\<in>loop_set (srv w). pcs w l = Waiting \<and> pendingFunctors (ios (srv w) l) = []"
    and n: "connections (srv w) n = Some q" and l: "conn_loop (srv w) q = l"
    and sz: "0 < length (evlist (ios (srv w) l))" "length (evlist (ios (srv w) l)) < 2 ^ 31"
  shows "\<exists>W. quiet (ios (srv w) l) W \<and> pendingFunctors W = []
    \<and> length (evlist W) = (if length (evlist (ios (srv w) l)) = 1 then 2 else length (evlist (ios (srv w) l)))
    \<and> (server_step ctl view)\<^sup>*\<^sup>* w (w\<lparr>srv := upd_loop l W (srv w),
        pcs := (pcs w)(l := Dispatching (handleEventWithGuard ((chans (ios (srv w) l) q)\<lparr>ch_revents := r\<rparr>)) [])\<rparr>)"
proof -
  let ?L = "ios (srv w) l" and ?ev = "EvOk [(r, q)]" and ?step = "server_step ctl view"
  note o = at_rest_open [OF inv rest n, unfolded l]
  have pc: "pcs w l = Waiting" "pendingFunctors ?L = []" using rest o(2) by simp_all
  have b: "ch_tied (chans ?L q) \<longrightarrow> ch_tie (chans ?L q) = Some q" "ch_index (chans ?L q) = kAdded"
    using o(4,5) by (auto simp: in_defs conn_wf_def conn_bound_def split: life.splits)
  have e: "view (epollfd ?L) (ch_fd (chans ?L q)) = Some (ch_events (chans ?L q), q)"
    using poller_invD(2) [OF srv_invD(1) [OF world_invD(1) [OF inv] o(2)] o(3)] b(2) by simp
  then have rep: "reports view ?L ?ev" "reports view (?L\<lparr>activateChannels := []\<rparr>) ?ev"
    using sz by (auto simp: reports_def Suc_le_eq)
  have "[(r, q)] \<noteq> ([] :: epoll_event list)" "length [(r :: c_int, q :: nat)] \<le> length (evlist (?L\<lparr>activateChannels := []\<rparr>))"
    "length (evlist (?L\<lparr>activateChannels := []\<rparr>)) < 2 ^ 31" "distinct (map snd [(r :: c_int, q :: nat)])" using sz by (simp_all add: Suc_le_eq)
  from poll_ok [OF this, of "[]"] obtain W where W: "poll ?ev [] (?L\<lparr>activateChannels := []\<rparr>) = Inr (PollQuiet, [q], W)"
      "chans W q = (chans ?L q)\<lparr>ch_revents := r\<rparr>" "length (evlist W) = (if length (evlist ?L) = 1 then 2 else length (evlist ?L))"
    by auto
  note Q = poll_quiet [OF W(1) rep(2)]
  let ?W1 = "W\<lparr>activateChannels := [q]\<rparr>"
  define w1 where "w1 = w\<lparr>srv := upd_loop l ?W1 (srv w), pcs := (pcs w)(l := Dispatching [] [q])\<rparr>"
  have 1: "?step w w1" unfolding w1_def by (rule poll_step [OF o(2) pc(1) rep(1) W(1)])
  have "alive w1 q" using n by (auto simp: w1_def alive_def ran_def)
  then have "handleEvent (alive w1) (chans (ios (srv w1) l) q) = handleEventWithGuard ((chans ?L q)\<lparr>ch_revents := r\<rparr>)"
    using W(2) b(1) by (auto simp: w1_def handleEvent_def)
  moreover have "l \<in> loop_set (srv w1)" "pcs w1 l = Dispatching [] [q]" using o(2) by (simp_all add: w1_def)
  ultimately have 2: "?step w1 (w1\<lparr>pcs := (pcs w1)(l := Dispatching (handleEventWithGuard ((chans ?L q)\<lparr>ch_revents := r\<rparr>)) [])\<rparr>)"
    using channel_step [of l w1 q "[]" ctl view] by simp
  have "?step\<^sup>*\<^sup>* w (w1\<lparr>pcs := (pcs w1)(l := Dispatching (handleEventWithGuard ((chans ?L q)\<lparr>ch_revents := r\<rparr>)) [])\<rparr>)"
    using 1 2 by (rule converse_rtranclp_into_rtranclp [OF _ r_into_rtranclp])
  moreover have "quiet ?L ?W1" "pendingFunctors ?W1 = []"
    using Q(1,2) pc(2) by (simp_all add: quiet_def)
  ultimately show ?thesis using W(3)
    by (intro exI [of _ ?W1]) (simp add: w1_def)
qed

section \<open>A server to run the properties on\<close>

text \<open>
  The server's loop at 0 with its wakeup channel and the acceptor's, one I/O loop at 1 with its wakeup
  channel, each in a thread of its own.
\<close>

definition base_channel :: "callback \<Rightarrow> int \<Rightarrow> channel" where
  "base_channel cb fd = (channel_new fd)\<lparr>readCallback := Some cb, ch_events := 3, ch_index := kAdded\<rparr>"

definition ready_io :: "nat \<Rightarrow> (int \<rightharpoonup> epoll_event) io" where
  "ready_io l = (sample_io 3 [])\<lparr>threadId := int l,
     chans := (\<lambda>p. if p = 0 then base_channel LoopHandleRead 4 else if p = 1 then base_channel AcceptorHandleRead 5
                   else base_channel LoopHandleRead 6),
     channels := if l = 0 then [4 \<mapsto> 0, 5 \<mapsto> 1] else [6 \<mapsto> 2],
     epollfd := if l = 0 then [4 \<mapsto> (3, 0), 5 \<mapsto> (3, 1)] else [6 \<mapsto> (3, 2)],
     evlist := replicate kInitEventListSize (0, 0), wakeupChannel := if l = 0 then 0 else 2\<rparr>"

definition ready_server :: "(int \<rightharpoonup> epoll_event) server" where
  "ready_server = (sample_server True)\<lparr>threadPool := (pool_new 0 ''web'')\<lparr>loops := [1]\<rparr>, ios := ready_io, next_obj := 3\<rparr>"

lemma ready_io_simps [simp]:
  "threadId (ready_io l) = int l" "wakeupChannel (ready_io l) = (if l = 0 then 0 else 2)"
  "pendingFunctors (ready_io l) = []" "evlist (ready_io l) = replicate 16 (0, 0)"
  "epollfd (ready_io l) = (if l = 0 then [4 \<mapsto> (3, 0), 5 \<mapsto> (3, 1)] else [6 \<mapsto> (3, 2)])"
  "channels (ready_io l) = (if l = 0 then [4 \<mapsto> 0, 5 \<mapsto> 1] else [6 \<mapsto> 2])"
  "chans (ready_io l) p = (if p = 0 then base_channel LoopHandleRead 4 else if p = 1 then base_channel AcceptorHandleRead 5
                   else base_channel LoopHandleRead 6)"
  by (simp_all add: ready_io_def sample_io_def kInitEventListSize_def)

lemma ready_server_simps [simp]:
  "s_loop ready_server = 0" "loop_set ready_server = {0, 1}" "ios ready_server = ready_io"
  "acceptChannel (s_acceptor ready_server) = 1" "next_obj ready_server = 3" "connections ready_server = Map.empty"
  "nextConnId ready_server = 1" "threadPool ready_server = (pool_new 0 ''web'')\<lparr>loops := [1]\<rparr>"
  "base_chans ready_server l = (if l = 0 then {0, 1} else {2})"
  by (auto simp: ready_server_def sample_server_def loop_set_def pool_new_def base_chans_def)

lemma ready_poller: "poller_inv (\<lambda>k. k) (base_chans ready_server l) (ready_io l)"
  by (auto simp: poller_inv_def base_channel_def channel_new_def interest_def fun_eq_iff inj_on_def split: if_splits)

lemma ready_server_ready: "server_ready (\<lambda>k. k) ready_server"
proof -
  have "pool_inv (threadPool ready_server)" "baseLoop (threadPool ready_server) = s_loop ready_server"
    by (simp_all add: pool_inv_def pool_new_def vec_max_size_def)
  moreover have "base_ok (next_obj ready_server) ready_server l" for l
    by (simp add: base_ok_def base_channel_def channel_new_def Let_def)
  moreover have "s_connectionCallback ready_server" "s_messageCallback ready_server" "length (s_ipPort ready_server) \<le> 21"
    "newConnectionCallback (s_acceptor ready_server)" by (simp_all add: ready_server_def sample_server_def)
  moreover have "inj_on (\<lambda>l. threadId (ios ready_server l)) (loop_set ready_server)" by (simp add: inj_on_def)
  ultimately show ?thesis using ready_poller unfolding server_ready_def by simp
qed

text \<open>One step of the poll with no events, and the swap after it.\<close>

lemma run_swap:
  assumes l: "l \<in> loop_set (srv w)" "pcs w l = Waiting" "length (evlist (ios (srv w) l)) < 2 ^ 31"
  shows "\<exists>W. quiet (ios (srv w) l) W \<and> pendingFunctors W = [] \<and> calls W = calls (ios (srv w) l)
    \<and> evlist W = evlist (ios (srv w) l) \<and> chans W = chans (ios (srv w) l)
    \<and> (server_step ctl view)\<^sup>*\<^sup>* w (w\<lparr>srv := upd_loop l W (srv w),
          pcs := (pcs w)(l := Functors (pendingFunctors (ios (srv w) l)) (pendingFunctors (ios (srv w) l)))\<rparr>)"
proof -
  let ?W = "ios (srv w) l" and ?W1 = "(ios (srv w) l)\<lparr>activateChannels := []\<rparr>"
  let ?w1 = "w\<lparr>srv := upd_loop l (?W1\<lparr>activateChannels := []\<rparr>) (srv w), pcs := (pcs w)(l := Dispatching [] [])\<rparr>"
  let ?W2 = "?W1\<lparr>callingPendingFunctors := True, pendingFunctors := []\<rparr>"
  have "poll (EvOk []) [] ?W1 = Inr (PollTimeout, [], ?W1)" by (simp add: poll_def)
  moreover have "reports view ?W (EvOk [])" using l(3) by (simp add: reports_def)
  ultimately have s1: "server_step ctl view w ?w1" using poll_step [OF l(1,2), of view "EvOk []" PollTimeout "[]" ?W1 ctl] by simp
  have "server_step ctl view ?w1 (?w1\<lparr>srv := upd_loop l ?W2 (srv ?w1),
      pcs := (pcs ?w1)(l := Functors (pendingFunctors ?W) (pendingFunctors ?W))\<rparr>)"
    by (rule swap_step) (use l(1) in \<open>simp_all add: upd_loop_def loop_set_def pending_defs\<close>)
  with s1 have "(server_step ctl view)\<^sup>*\<^sup>* w (?w1\<lparr>srv := upd_loop l ?W2 (srv ?w1),
      pcs := (pcs ?w1)(l := Functors (pendingFunctors ?W) (pendingFunctors ?W))\<rparr>)"
    by (rule converse_rtranclp_into_rtranclp [OF _ r_into_rtranclp])
  moreover have "?w1\<lparr>srv := upd_loop l ?W2 (srv ?w1),
      pcs := (pcs ?w1)(l := Functors (pendingFunctors ?W) (pendingFunctors ?W))\<rparr>
    = w\<lparr>srv := upd_loop l ?W2 (srv w), pcs := (pcs w)(l := Functors (pendingFunctors ?W) (pendingFunctors ?W))\<rparr>"
    by (simp add: upd_loop_def)
  moreover have "quiet ?W ?W2" using quiet_refl_upd(9) [of ?W] by (simp add: quiet_def)
  ultimately show ?thesis by (intro exI [of _ ?W2]) simp
qed

lemma steps_reachable:
  assumes "server_reachable ctl view S w" "(server_step ctl view)\<^sup>*\<^sup>* w w'"
  shows "server_reachable ctl view S w'"
  using assms(2,1) by (induction rule: rtranclp_induct) (auto intro: server_reachable.step)

text \<open>A connection nothing was written to yet.\<close>

definition untouched :: "conn \<Rightarrow> bool" where
  "untouched c \<longleftrightarrow> contents (outputBuffer c) = [] \<and> length (store (outputBuffer c)) = 1032 \<and> wire c = [] \<and> \<not> wr_shut c
     \<and> \<not> highWaterMarkCallback c"

text \<open>The first connection is accepted in the server's loop and given to the I/O loop.\<close>

definition accepted :: "(int \<rightharpoonup> epoll_event) world \<Rightarrow> bool" where
  "accepted w \<longleftrightarrow> server_reachable list_ctl (\<lambda>k. k) ready_server w \<and> pcs w 0 = Dispatching [] [] \<and> pcs w 1 = Waiting
     \<and> connections (srv w) = [''web-0.0.0.0:80#1'' \<mapsto> 3] \<and> conn_loop (srv w) 3 = 1 \<and> loop_set (srv w) = {0, 1} \<and> s_loop (srv w) = 0
     \<and> pendingFunctors (ios (srv w) 0) = [] \<and> pendingFunctors (ios (srv w) 1) = [ConnectionEstablished 3]
     \<and> length (evlist (ios (srv w) 0)) = 16 \<and> length (evlist (ios (srv w) 1)) = 16
     \<and> untouched (conns (ios (srv w) 1) 3)"

lemma accept_reachable: "\<exists>w. accepted w"
proof -
  note One_nat_def [simp del]
  define peer where "peer = InetAddress_new 5000 ''10.0.0.2''"
  let ?S = ready_server and ?ev = "EvOk [(1, 1)]"
  let ?W0 = "(ready_io 0)\<lparr>activateChannels := []\<rparr>"
  obtain W where W: "poll ?ev [] ?W0 = Inr (PollQuiet, [1], W)"
      "\<forall>q. chans W q = (case map_of (map prod.swap [(1, 1)]) q of Some r \<Rightarrow> (chans ?W0 q)\<lparr>ch_revents := r\<rparr> | None \<Rightarrow> chans ?W0 q)"
      "length (evlist W) = 16"
  proof -
    have "[(1, 1)] \<noteq> ([] :: epoll_event list)" "length [(1, 1)] \<le> length (evlist ?W0)" "length (evlist ?W0) < 2 ^ 31"
      "distinct (map snd [(1, 1)])" by simp_all
    from poll_ok [OF this, of "[]"] show ?thesis using that by auto
  qed
  have rep: "reports (\<lambda>k. k) (ready_io 0) ?ev" "reports (\<lambda>k. k) ?W0 ?ev"
  proof -
    have "\<exists>fd e. epollfd (ready_io 0) fd = Some (e, 1)" by (rule exI [of _ 5]) simp
    then show "reports (\<lambda>k. k) (ready_io 0) ?ev" "reports (\<lambda>k. k) ?W0 ?ev" by (simp_all add: reports_def)
  qed
  let ?W1 = "W\<lparr>activateChannels := [1]\<rparr>"
  define w1 where "w1 = (world_start ?S)\<lparr>srv := upd_loop 0 ?W1 ?S, pcs := (\<lambda>_. Waiting)(0 := Dispatching [] [1])\<rparr>"
  have "server_step list_ctl (\<lambda>k. k) (world_start ?S) w1"
    using poll_step [of 0 "world_start ?S" "\<lambda>k. k" ?ev PollQuiet "[1]" W list_ctl] rep(1) W(1)
    by (simp add: world_start_def w1_def)
  then have r1: "server_reachable list_ctl (\<lambda>k. k) ?S w1" by (rule server_reachable.step [OF server_reachable.start])
  note q = poll_quiet [OF W(1) rep(2)]
  have tid: "threadId ?W1 = 0" "pendingFunctors ?W1 = []" using q by (simp_all add: quiet_def)
  have ls: "loop_set (upd_loop 0 ?W1 ?S) = {0, 1}" by (auto simp: upd_loop_def loop_set_def pool_new_def)
  let ?w2 = "w1\<lparr>pcs := (pcs w1)(0 := Dispatching [AcceptorHandleRead] [])\<rparr>"
  have "handleEvent (alive w1) (chans (ios (srv w1) 0) 1) = [AcceptorHandleRead]"
    using W(2) by (simp add: w1_def upd_loop_def base_channel_def channel_new_def handleEvent_def handleEventWithGuard_def
        invoke_def epoll_bits)
  then have "server_step list_ctl (\<lambda>k. k) w1 ?w2"
    using channel_step [of 0 w1 1 "[]" list_ctl "\<lambda>k. k"] by (simp add: w1_def ls)
  then have r2: "server_reachable list_ctl (\<lambda>k. k) ?S ?w2" by (rule server_reachable.step [OF r1])
  let ?S1 = "upd_loop 0 ?W1 ?S" and ?E = "\<lparr>e_readv = \<lambda>_. ROk [], e_write = \<lambda>_. WErr 0, e_accept = AcOk 9 peer\<rparr>"
  have acc: "acceptor_handleRead (AcOk 9 peer) (s_acceptor ?S1) = NewConnection 9 peer"
    by (simp add: acceptor_handleRead_def sock_accept_def upd_loop_def ready_server_def sample_server_def Let_def)
  have "ch_fd (chans (ios ?S1 l) p) \<noteq> 9" if "l \<in> {0, 1}" for l p
    using that W(2) by (auto simp: upd_loop_def base_channel_def channel_new_def split: option.split)
  then have "\<not> open_fd al ?S1 9" for al by (auto simp: open_fd_def ls)
  then have env: "env_ok (alive ?w2) ?E AcceptorHandleRead (srv ?w2)"
    using acc by (simp add: w1_def) (simp add: upd_loop_def)
  let ?pl = "(pool_new 0 ''web'')\<lparr>loops := [1], next_idx := 0\<rparr>"
  have "getNextLoop (threadPool ?S1) = Inr (1, ?pl)"
    by (simp add: upd_loop_def getNextLoop_def pool_new_def vec_read_def Let_def)
  then obtain ib ob where n: "newConnection list_ctl 0 9 ?S1 = run_in 0 1 (ConnectionEstablished 3)
        (upd_io 1 (connectionEstablished list_ctl 3)) (made ?S1 1 ?pl 9 ib ob)"
      and ob: "contents ob = []" "length (store ob) = 1032"
    using newConnection_made [of ?S1 1 ?pl list_ctl 0 9] by (auto simp: upd_loop_def)
  let ?M = "made ?S1 1 ?pl 9 ib ob"
  let ?S3 = "?M\<lparr>ios := (ios ?M)(1 := queueInLoop 0 (ConnectionEstablished 3) (ios ?M 1))\<rparr>"
  have "run_callback list_ctl 0 ?E AcceptorHandleRead ?S1 = Inr ?S3"
    using acc n tid by (simp add: run_in_def isInLoopThread_def upd_io_def)
  then have "server_step list_ctl (\<lambda>k. k) ?w2 (?w2\<lparr>srv := ?S3, pcs := (pcs ?w2)(0 := Dispatching [] [])\<rparr>)"
    by (intro callback_step [where c = AcceptorHandleRead and E = ?E]) (use env ls in \<open>simp_all add: w1_def\<close>)
  then have r3: "server_reachable list_ctl (\<lambda>k. k) ?S (?w2\<lparr>srv := ?S3, pcs := (pcs ?w2)(0 := Dispatching [] [])\<rparr>)"
    by (rule server_reachable.step [OF r2])
  have "conn_name ?S1 = ''web-0.0.0.0:80#1''"
    by (simp add: conn_name_def upd_loop_def ready_server_def sample_server_def) code_simp
  then show ?thesis
    using r3 tid W(3) ob by (intro exI [of _ "?w2\<lparr>srv := ?S3, pcs := (pcs ?w2)(0 := Dispatching [] [])\<rparr>"])
      (auto simp: accepted_def w1_def upd_loop_def loop_set_def queue_defs made_def Let_def set_conn_def set_chan_def
        untouched_def new_conn_of_def)
qed

text \<open>The I/O loop swaps out the functor that establishes the connection, and runs it.\<close>

definition establishing :: "(int \<rightharpoonup> epoll_event) world \<Rightarrow> bool" where
  "establishing w \<longleftrightarrow> server_reachable list_ctl (\<lambda>k. k) ready_server w \<and> pcs w 0 = Dispatching [] []
     \<and> pcs w 1 = Functors [ConnectionEstablished 3] [ConnectionEstablished 3]
     \<and> connections (srv w) = [''web-0.0.0.0:80#1'' \<mapsto> 3] \<and> conn_loop (srv w) 3 = 1 \<and> loop_set (srv w) = {0, 1}
     \<and> s_loop (srv w) = 0 \<and> pendingFunctors (ios (srv w) 0) = [] \<and> pendingFunctors (ios (srv w) 1) = []
     \<and> length (evlist (ios (srv w) 0)) = 16 \<and> length (evlist (ios (srv w) 1)) = 16
     \<and> untouched (conns (ios (srv w) 1) 3)"

lemma establishing_reachable: "\<exists>w. establishing w"
proof -
  obtain w where "accepted w" using accept_reachable by blast
  then have w: "server_reachable list_ctl (\<lambda>k. k) ready_server w" "pcs w 0 = Dispatching [] []" "pcs w 1 = Waiting"
    "connections (srv w) = [''web-0.0.0.0:80#1'' \<mapsto> 3]" "conn_loop (srv w) 3 = 1" "loop_set (srv w) = {0, 1}" "s_loop (srv w) = 0"
    "pendingFunctors (ios (srv w) 0) = []" "pendingFunctors (ios (srv w) 1) = [ConnectionEstablished 3]"
    "length (evlist (ios (srv w) 0)) = 16" "length (evlist (ios (srv w) 1)) = 16" "untouched (conns (ios (srv w) 1) 3)"
    by (simp_all only: accepted_def)
  have l: "1 \<in> loop_set (srv w)" "length (evlist (ios (srv w) 1)) < 2 ^ 31" using w(6,11) by simp_all
  obtain W where W: "pendingFunctors W = []" "evlist W = evlist (ios (srv w) 1)"
      "(server_step list_ctl (\<lambda>k. k))\<^sup>*\<^sup>* w (w\<lparr>srv := upd_loop 1 W (srv w),
        pcs := (pcs w)(1 := Functors [ConnectionEstablished 3] [ConnectionEstablished 3])\<rparr>)" "quiet (ios (srv w) 1) W"
    using run_swap [OF l(1) w(3) l(2)] unfolding w(9) by blast
  from steps_reachable [OF w(1) W(3)] have "establishing (w\<lparr>srv := upd_loop 1 W (srv w),
        pcs := (pcs w)(1 := Functors [ConnectionEstablished 3] [ConnectionEstablished 3])\<rparr>)"
    using W(1,2,4) w unfolding establishing_def by (simp add: quiet_def)
  then show ?thesis by blast
qed

lemma task_ok_established: "task_ok E (ConnectionEstablished o1) S"
  by simp

lemma established_pending:
  assumes "connectionEstablished ctl o1 W = Inr W'"
  shows "pendingFunctors W' = pendingFunctors W"
proof -
  obtain W1 where W1: "enableReading ctl (c_chan (conns W o1)) (set_chan (c_chan (conns W o1)) (channel_tie o1)
        (setState kConnected o1 W)) = Inr W1" "call_connection o1 W1 = Inr W'"
    using assms by (auto simp: connectionEstablished_def Let_def rbind_eq_Inr)
  have "poller.more W1 = poller.more (set_chan (c_chan (conns W o1)) (channel_tie o1) (setState kConnected o1 W))"
    using W1(1) unfolding enableReading_def by (rule change_events_more)
  then have "pendingFunctors W1 = pendingFunctors W"
    by (cases W; cases W1) (simp add: set_chan_def setState_def set_conn_def)
  then show ?thesis using W1(2) by (auto simp: call_connection_def call_user_def split: if_splits)
qed

lemma epoll_update_keeps: "epoll_update ctl op p s = Inr s' \<Longrightarrow> evlist s' = evlist s \<and> chans s' = chans s"
  by (auto simp: epoll_update_def Let_def split: prod.splits if_splits)

lemma change_events_keeps:
  assumes "change_events ctl f p W = Inr W'"
  shows "evlist W' = evlist W" "ch_tied (chans W' q) = ch_tied (chans W q)" "ch_tie (chans W' q) = ch_tie (chans W q)"
    "ch_fd (chans W' q) = ch_fd (chans W q)"
proof -
  have "evlist W' = evlist W \<and> ch_tied (chans W' q) = ch_tied (chans W q) \<and> ch_tie (chans W' q) = ch_tie (chans W q)
      \<and> ch_fd (chans W' q) = ch_fd (chans W q)"
    using assms by (auto simp: change_events_def updateChannel_def Let_def rbind_eq_Inr set_index_def set_chan_def
        dest!: epoll_update_keeps split: if_splits)
  then show "evlist W' = evlist W" "ch_tied (chans W' q) = ch_tied (chans W q)" "ch_tie (chans W' q) = ch_tie (chans W q)"
    "ch_fd (chans W' q) = ch_fd (chans W q)" by simp_all
qed

lemma established_keeps:
  assumes "connectionEstablished ctl o1 W = Inr W'" "c_chan (conns W o1) = o1"
  shows "evlist W' = evlist W" "ch_tied (chans W' o1)" "ch_tie (chans W' o1) = Some o1" "c_state (conns W' o1) = kConnected"
    "untouched (conns W' o1) = untouched (conns W o1)"
proof -
  let ?V = "set_chan o1 (channel_tie o1) (setState kConnected o1 W)"
  obtain W1 where W1: "change_events ctl ev_enableReading o1 ?V = Inr W1" "call_connection o1 W1 = Inr W'"
    using assms by (auto simp: connectionEstablished_def Let_def rbind_eq_Inr enableReading_def)
  note k = change_events_keeps [OF W1(1)]
  have c: "conns W1 = conns ?V" by (rule change_events_conns [OF W1(1)])
  have "\<exists>cs. W' = W1\<lparr>calls := cs\<rparr>" using W1(2) by (auto simp: call_connection_def call_user_def split: if_splits)
  then show "evlist W' = evlist W" "ch_tied (chans W' o1)" "ch_tie (chans W' o1) = Some o1" "c_state (conns W' o1) = kConnected"
    "untouched (conns W' o1) = untouched (conns W o1)"
    using k(1) k(2-4) [where q = o1] c by (auto simp: channel_tie_def setState_def set_conn_def set_chan_def untouched_def)
qed

text \<open>Both loops run what they have to run and wait again.\<close>

definition settled :: "(int \<rightharpoonup> epoll_event) world \<Rightarrow> bool" where
  "settled w \<longleftrightarrow> server_reachable list_ctl (\<lambda>k. k) ready_server w \<and> connections (srv w) = [''web-0.0.0.0:80#1'' \<mapsto> 3]
     \<and> conn_loop (srv w) 3 = 1 \<and> loop_set (srv w) = {0, 1} \<and> s_loop (srv w) = 0
     \<and> (\<forall>l\<in>loop_set (srv w). pcs w l = Waiting \<and> pendingFunctors (ios (srv w) l) = [] \<and> length (evlist (ios (srv w) l)) = 16)
     \<and> c_state (conns (ios (srv w) 1) 3) = kConnected \<and> ch_tied (chans (ios (srv w) 1) 3) \<and> ch_tie (chans (ios (srv w) 1) 3) = Some 3
     \<and> untouched (conns (ios (srv w) 1) 3)"

lemma settled_reachable: "\<exists>w. settled w"
proof -
  let ?reach = "server_reachable list_ctl (\<lambda>k. k) ready_server"
  obtain w where "establishing w" using establishing_reachable by blast
  then have w: "?reach w" "pcs w 0 = Dispatching [] []" "pcs w 1 = Functors [ConnectionEstablished 3] [ConnectionEstablished 3]"
    "connections (srv w) = [''web-0.0.0.0:80#1'' \<mapsto> 3]" "conn_loop (srv w) 3 = 1" "loop_set (srv w) = {0, 1}" "s_loop (srv w) = 0"
    "pendingFunctors (ios (srv w) 0) = []" "pendingFunctors (ios (srv w) 1) = []"
    "length (evlist (ios (srv w) 0)) = 16" "length (evlist (ios (srv w) 1)) = 16" "untouched (conns (ios (srv w) 1) 3)"
    by (simp_all only: establishing_def)
  note inv = reachable_inv [OF list_ctl_documented ready_server_ready w(1)]
  have R: "rests w 1 = [ConnectionEstablished 3]" using w(3) by (simp add: rests_def)
  have l: "1 \<in> loop_set (srv w)" "0 \<in> loop_set (srv w)" using w(6) by simp_all
  obtain S' E where S': "run_task list_ctl 1 E (ConnectionEstablished 3) (srv w) = Inr S'"
    using run_task_ok [OF list_ctl_documented world_invD(1) [OF inv] l(1) R refl] by fastforce
  then obtain W' where W': "connectionEstablished list_ctl 3 (ios (srv w) 1) = Inr W'" "S' = upd_loop 1 W' (srv w)"
    by (auto simp: upd_io_def upd_loop_def rbind_eq_Inr)
  have p: "pendingFunctors W' = []" using established_pending [OF W'(1)] w(9) by simp
  have t: "ConnectionEstablished 3 \<in> set (todo (rests w) (srv w) 1)" "life_task 3 (ConnectionEstablished 3)"
    using R by (simp_all add: todo_def life_task_def)
  have "obj_inv (next_obj ready_server) (rests w) (srv w) 3"
    using srv_invD(4) [OF world_invD(1) [OF inv] life_task_at(1) [OF world_invD(1) [OF inv] l(1) t]] by simp
  then have "c_chan (conns (ios (srv w) 1) 3) = 3" using w(5) by (simp add: obj_inv_def wf_in_def conn_wf_def)
  note k = established_keeps [OF W'(1) this]
  let ?w1 = "w\<lparr>srv := S', pcs := (pcs w)(1 := Functors [] [ConnectionEstablished 3]),
    hist := note_task E (ConnectionEstablished 3) (srv w) (hist w)\<rparr>"
  have r1: "?reach ?w1" by (rule server_reachable.step [OF w(1) functor_step [OF l(1) w(3) task_ok_established S']])
  let ?w2 = "?w1\<lparr>srv := upd_loop 1 (pending_end W') (srv ?w1), pcs := (pcs ?w1)(1 := Waiting)\<rparr>"
  have r2: "?reach ?w2" by (rule server_reachable.step [OF r1]) (use round_end [of 1 ?w1] W'(2) l in simp)
  let ?W = "(ios (srv w) 0)\<lparr>callingPendingFunctors := True, pendingFunctors := []\<rparr>"
  let ?w3 = "?w2\<lparr>srv := upd_loop 0 ?W (srv ?w2), pcs := (pcs ?w2)(0 := Functors [] [])\<rparr>"
  have r3: "?reach ?w3"
    by (rule server_reachable.step [OF r2], rule swap_step) (use W'(2) l w in \<open>simp_all add: pending_defs\<close>)
  let ?w4 = "?w3\<lparr>srv := upd_loop 0 (pending_end ?W) (srv ?w3), pcs := (pcs ?w3)(0 := Waiting)\<rparr>"
  have r4: "?reach ?w4" by (rule server_reachable.step [OF r3]) (use round_end [of 0 ?w3] W'(2) l in simp)
  have "settled ?w4" using r4 w W'(2) p k unfolding settled_def by (simp add: pending_end_def)
  then show ?thesis by blast
qed

section \<open>What one thread leaves alone\<close>

text \<open>A callback or functor run by the thread of one loop changes no connection of another loop.\<close>

lemma upd_io_elsewhere: "upd_io l f S = Inr S' \<Longrightarrow> m \<noteq> l \<Longrightarrow> ios S' m = ios S m"
  by (auto simp: upd_io_def rbind_eq_Inr)

lemma removeConnection_conns:
  assumes "removeConnection tid o1 S = Inr S'"
  shows "conns (ios S' m) = conns (ios S m)"
  using assms by (auto simp: removeConnection_def removeConnectionInLoop_def run_in_def upd_io_def Let_def split: if_splits)

lemma server_handleClose_elsewhere:
  assumes "server_handleClose ctl tid o1 S = Inr S'" "m \<noteq> conn_loop S o1"
  shows "conns (ios S' m) = conns (ios S m)"
proof -
  obtain S1 where S1: "upd_io (conn_loop S o1) (handleClose ctl (\<lambda>_. Inr) o1) S = Inr S1" "removeConnection tid o1 S1 = Inr S'"
    using assms(1) by (auto simp: server_handleClose_def rbind_eq_Inr)
  show ?thesis using removeConnection_conns [OF S1(2)] upd_io_elsewhere [OF S1(1) assms(2)] by simp
qed

lemma server_handleRead_elsewhere:
  assumes "server_handleRead ctl tid f o1 S = Inr S'" "m \<noteq> conn_loop S o1"
  shows "conns (ios S' m) = conns (ios S m)"
proof -
  let ?l = "conn_loop S o1"
  obtain n b S1 where S1: "upd_io ?l (\<lambda>W. Inr (set_conn o1 (\<lambda>c. c\<lparr>inputBuffer := b\<rparr>) W)) S = Inr S1"
      "(if 0 < sint (n :: size_t) then upd_io ?l (\<lambda>W. call_user (messageCallback (conns W o1)) (MessageCall o1) W) S1
        else if sint n = 0 then server_handleClose ctl tid o1 S1 else Inr S1) = Inr S'"
    using assms(1) by (auto simp: server_handleRead_def Let_def rbind_eq_Inr)
  have "conn_loop S1 o1 = ?l" using S1(1) by (auto simp: upd_io_def)
  then have "conns (ios S' m) = conns (ios S1 m)"
    using S1(2) upd_io_elsewhere [of ?l _ S1 S' m] server_handleClose_elsewhere [of ctl tid o1 S1 S' m] assms(2)
    by (auto split: if_splits)
  then show ?thesis using upd_io_elsewhere [OF S1(1) assms(2)] by simp
qed

lemma callback_elsewhere:
  assumes doc: "epoll_documented ctl view" and inv: "world_inv view h w" and c: "cb_fine h (srv w) l c"
    and env: "env_ok (alive w) E c (srv w)" and S': "run_callback ctl l E c (srv w) = Inr S'"
    and q: "created h (srv w) q" and m: "m \<noteq> l"
  shows "conns (ios S' m) q = conns (ios (srv w) m) q"
proof (cases c)
  case AcceptorHandleRead
  show ?thesis
  proof (cases "acceptor_handleRead (e_accept E) (s_acceptor (srv w))")
    case (NewConnection fd peer)
    have "env_ok (alive w) E AcceptorHandleRead (srv w)" using env AcceptorHandleRead by simp
    from accept_ok [where alive = "alive w" and E = E, OF doc world_invD(1) [OF inv] this alive_ok [OF inv] NewConnection]
    have "grown h (srv w) S'" using S' c AcceptorHandleRead NewConnection by auto
    then show ?thesis using q by (simp add: grown_def others_same_def created_def)
  qed (use S' AcceptorHandleRead in simp_all)
next
  case (ConnHandleRead o1)
  then have "server_handleRead ctl (threadId (ios (srv w) l)) (e_readv E) o1 (srv w) = Inr S'" "m \<noteq> conn_loop (srv w) o1"
    using S' c m by (simp_all add: usable_def)
  from server_handleRead_elsewhere [OF this] show ?thesis by simp
next
  case (ConnHandleClose o1)
  then have "server_handleClose ctl (threadId (ios (srv w) l)) o1 (srv w) = Inr S'" "m \<noteq> conn_loop (srv w) o1"
    using S' c m by (simp_all add: usable_def)
  from server_handleClose_elsewhere [OF this] show ?thesis by simp
qed (use S' c m upd_io_elsewhere in \<open>fastforce simp: usable_def\<close>)+

lemma task_elsewhere:
  assumes f: "task_fine h S t" and S': "run_task ctl l E t S = Inr S'" and m: "m \<noteq> l"
  shows "conns (ios S' m) = conns (ios S m)"
proof (cases t)
  case (RemoveConnectionInLoop o1)
  then show ?thesis using S' by (auto simp: removeConnectionInLoop_def upd_io_def Let_def)
qed (use f S' m upd_io_elsewhere in fastforce)+

text \<open>While a loop waits in \<open>poll\<close>, the other threads change nothing of its connections but their state, to \<open>kDisconnecting\<close>.\<close>

lemma waiting_untouched:
  assumes doc: "epoll_documented ctl view" and inv: "world_inv view h w" and st: "server_step ctl view w w'"
    and q: "created h (srv w) q" and l: "pcs w m = Waiting"
  shows "conns (ios (srv w') m) q \<in> {conns (ios (srv w) m) q, (conns (ios (srv w) m) q)\<lparr>c_state := kDisconnecting\<rparr>}"
  using st
proof cases
  case (poll_step k ev lg ps W)
  have "reports view ((ios (srv w) k)\<lparr>activateChannels := []\<rparr>) ev" using poll_step(4) by (simp add: reports_def split: wait_result.splits)
  from poll_quiet(1) [OF poll_step(5) this] have "conns W = conns (ios (srv w) k)" by (simp add: quiet_def)
  then show ?thesis using poll_step(1) by (simp add: upd_loop_def)
next
  case (callback_step k c cs ps E S')
  have c: "cb_fine h (srv w) k c" using world_invD(2) [OF inv callback_step(2)] callback_step(3) by (simp add: pc_inv_def)
  have "m \<noteq> k" using l callback_step(3) by auto
  from callback_elsewhere [OF doc inv c callback_step(4,5) q this] show ?thesis using callback_step(1) by simp
next
  case (user_code k n o1 as S')
  then have "m \<noteq> k" using l by auto
  from upd_io_elsewhere [OF user_code(9) this] show ?thesis using user_code(1) by simp
next
  case (foreign_mark k n o1)
  then show ?thesis by (simp add: upd_loop_def setState_def)
next
  case (swap_step k b W)
  then show ?thesis by (auto simp: upd_loop_def pending_defs)
next
  case (functor_step k t ts b E S')
  have R: "rests w k = t # ts" using functor_step(3) by (simp add: rests_def)
  have "task_fine h (srv w) t" using srv_invD(3) [OF world_invD(1) [OF inv] functor_step(2), of t] R by (simp add: todo_def)
  moreover have "m \<noteq> k" using l functor_step(3) by auto
  ultimately show ?thesis using task_elsewhere [OF _ functor_step(5)] functor_step(1) by simp
qed (simp_all add: upd_loop_def pending_end_def)

section \<open>Properties\<close>

text \<open>
  C4: no use after free, as long as no connection closes between the test and the acts of a call from another
  thread on it.  In every interleaving of the threads of a server of that kind, with user code and the
  acts of such calls among them, whatever the kernel can report to a loop, every channel on the loop's active
  list, every callback it is about to invoke and every functor with a bare pointer it is about to run belongs
  to the loop itself or to a connection of that loop that the map or another queued functor still keeps alive.
\<close>

theorem server_no_use_after_free:
  assumes "epoll_documented ctl view" and "server_ready view S" and "server_reachable ctl view S w"
    and "l \<in> loop_set (srv w)"
  shows "(\<forall>fd e p. view (epollfd (ios (srv w) l)) fd = Some (e, p)
      \<longrightarrow> p \<in> base_chans (srv w) l \<or> alive w p \<and> conn_loop (srv w) p = l)
    \<and> (\<forall>cs ps. pcs w l = Dispatching cs ps
      \<longrightarrow> (\<forall>p\<in>set ps. p \<in> base_chans (srv w) l \<or> alive w p \<and> conn_loop (srv w) p = l)
        \<and> (\<forall>c\<in>set cs. \<forall>o1. c \<in> {ConnHandleRead o1, ConnHandleWrite o1, ConnHandleClose o1, ConnHandleError o1}
             \<longrightarrow> alive w o1 \<and> conn_loop (srv w) o1 = l))
    \<and> (\<forall>t ts b o1. pcs w l = Functors (t # ts) b \<and> raw_task o1 t \<longrightarrow> alive w o1 \<and> conn_loop (srv w) o1 = l)"
proof -
  note inv = reachable_inv [OF assms(1-3)]
  have u: "alive w q \<and> conn_loop (srv w) q = l" if "usable (next_obj S) (srv w) l q" for q
    using held_alive [OF inv, of q] life_held(2) that by (auto simp: usable_def)
  have p: "p \<in> base_chans (srv w) l \<or> alive w p \<and> conn_loop (srv w) p = l" if "chan_fine (next_obj S) (srv w) l p" for p
    using that u by (auto simp: chan_fine_def)
  have c: "alive w q \<and> conn_loop (srv w) q = l"
    if "cb_fine (next_obj S) (srv w) l c" "c \<in> {ConnHandleRead q, ConnHandleWrite q, ConnHandleClose q, ConnHandleError q}" for c q
    using that u by auto
  note pc = world_invD(2) [OF inv assms(4)]
  have "\<forall>fd e p. view (epollfd (ios (srv w) l)) fd = Some (e, p)
      \<longrightarrow> p \<in> base_chans (srv w) l \<or> alive w p \<and> conn_loop (srv w) p = l"
    using p watched_fine [OF world_invD(1) [OF inv] assms(4)] by blast
  moreover have "\<forall>cs ps. pcs w l = Dispatching cs ps
      \<longrightarrow> (\<forall>p\<in>set ps. p \<in> base_chans (srv w) l \<or> alive w p \<and> conn_loop (srv w) p = l)
        \<and> (\<forall>c\<in>set cs. \<forall>o1. c \<in> {ConnHandleRead o1, ConnHandleWrite o1, ConnHandleClose o1, ConnHandleError o1}
             \<longrightarrow> alive w o1 \<and> conn_loop (srv w) o1 = l)"
  proof (intro allI impI)
    fix cs ps
    assume "pcs w l = Dispatching cs ps"
    then have d: "\<forall>c\<in>set cs. cb_fine (next_obj S) (srv w) l c" "\<forall>p\<in>set ps. chan_fine (next_obj S) (srv w) l p"
      using pc by (simp_all add: pc_inv_def)
    show "(\<forall>p\<in>set ps. p \<in> base_chans (srv w) l \<or> alive w p \<and> conn_loop (srv w) p = l)
        \<and> (\<forall>c\<in>set cs. \<forall>o1. c \<in> {ConnHandleRead o1, ConnHandleWrite o1, ConnHandleClose o1, ConnHandleError o1}
             \<longrightarrow> alive w o1 \<and> conn_loop (srv w) o1 = l)"
      by (intro conjI ballI allI impI) (use p c d in blast)+
  qed
  moreover have "alive w o1 \<and> conn_loop (srv w) o1 = l" if "pcs w l = Functors (t # ts) b" "raw_task o1 t" for t ts b o1
  proof -
    have t: "t \<in> set (todo (rests w) (srv w) l)" "life_task o1 t" using that by (simp_all add: todo_def rests_def life_task_def)
    note a = life_task_at [OF world_invD(1) [OF inv] assms(4) t]
    from u [of o1] a(1) a(5) [OF that(2)] show ?thesis by (simp add: usable_def)
  qed
  then have "\<forall>t ts b o1. pcs w l = Functors (t # ts) b \<and> raw_task o1 t \<longrightarrow> alive w o1 \<and> conn_loop (srv w) o1 = l" by blast
  ultimately show ?thesis by (intro conjI)
qed

lemma server_no_use_after_free_witness:
  "\<exists>w. server_reachable list_ctl (\<lambda>k. k) ready_server w \<and> alive w 3
     \<and> (\<forall>fd e p. epollfd (ios (srv w) 1) fd = Some (e, p) \<longrightarrow> p \<in> base_chans (srv w) 1 \<or> alive w p \<and> conn_loop (srv w) p = 1)"
proof -
  obtain w where w: "accepted w" using accept_reachable by blast
  then have r: "server_reachable list_ctl (\<lambda>k. k) ready_server w" "1 \<in> loop_set (srv w)" "alive w 3"
    by (simp_all add: accepted_def alive_def ran_def)
  from conjunct1 [OF server_no_use_after_free [OF list_ctl_documented ready_server_ready r(1,2)]] r show ?thesis by blast
qed



text \<open>
  C5: nothing but a failing \<open>readv\<close> makes a thread fail.  In every interleaving in which no connection closes
  between the test and the acts of a call from another thread on it, while the kernel behaves as documented and
  there is room, the callback a thread is about to run returns normally if and only if it makes no \<open>readv\<close> that
  fails: \<open>write\<close> and \<open>accept\<close> may fail, and the result is no \<open>LOG_FATAL\<close>, no exception and no undefined
  behaviour; a failing \<open>readv\<close> is undefined behaviour.  The functor a thread is about to run always returns normally.
\<close>

theorem server_steps_never_fail:
  assumes "epoll_documented ctl view" and "server_ready view S" and "server_reachable ctl view S w"
    and "l \<in> loop_set (srv w)"
  shows "(\<forall>c cs ps E. pcs w l = Dispatching (c # cs) ps \<and> env_ok (alive w) E c (srv w)
      \<longrightarrow> ((\<exists>S'. run_callback ctl l E c (srv w) = Inr S')
        \<longleftrightarrow> (\<forall>q. c = ConnHandleRead q
              \<longrightarrow> (\<exists>ds. e_readv E (iov_lens (inputBuffer (conns (ios (srv w) (conn_loop (srv w) q)) q))) = ROk ds))))
    \<and> (\<forall>t ts b E. pcs w l = Functors (t # ts) b \<and> task_ok E t (srv w) \<longrightarrow> (\<exists>S'. run_task ctl l E t (srv w) = Inr S'))"
proof -
  note inv = reachable_inv [OF assms(1-3)]
  note pc = world_invD(2) [OF inv assms(4)]
  have 1: "(\<exists>S'. run_callback ctl l E c (srv w) = Inr S') \<longleftrightarrow> reads_ok E c (srv w)"
    if "pcs w l = Dispatching (c # cs) ps" "env_ok (alive w) E c (srv w)" for c cs ps E
  proof -
    have c: "cb_fine (next_obj S) (srv w) l c" using pc that(1) by (simp add: pc_inv_def)
    from run_callback_ok [OF assms(1) world_invD(1) [OF inv] assms(4) c that(2) _ held_alive [OF inv]]
      returned_reads [OF world_invD(1) [OF inv] c] show ?thesis by blast
  qed
  have 2: "\<exists>S'. run_task ctl l E t (srv w) = Inr S'" if "pcs w l = Functors (t # ts) b" "task_ok E t (srv w)"
    for t ts b E
  proof -
    have "rests w l = t # ts" using that(1) by (simp add: rests_def)
    from run_task_ok [OF assms(1) world_invD(1) [OF inv] assms(4) this refl that(2)] show ?thesis by blast
  qed
  show ?thesis unfolding reads_ok_def [symmetric]
    by (intro conjI allI impI; elim conjE) (erule (1) 1, erule (1) 2)
qed

lemma server_steps_never_fail_witness:
  "\<exists>w E S'. server_reachable list_ctl (\<lambda>k. k) ready_server w
     \<and> pcs w 1 = Functors [ConnectionEstablished 3] [ConnectionEstablished 3]
     \<and> run_task list_ctl 1 E (ConnectionEstablished 3) (srv w) = Inr S'"
proof -
  obtain w where w: "establishing w" using establishing_reachable by blast
  then have r: "server_reachable list_ctl (\<lambda>k. k) ready_server w" "1 \<in> loop_set (srv w)"
    "pcs w 1 = Functors [ConnectionEstablished 3] [ConnectionEstablished 3]"
    by (simp_all add: establishing_def)
  from conjunct2 [OF server_steps_never_fail [OF list_ctl_documented ready_server_ready r(1,2)]] r task_ok_established
  show ?thesis by blast
qed

text \<open>
  C12: at rest nothing is left behind.  In every interleaving in which no connection closes between the
  test and the acts of a call from another thread on it, when every loop waits and no functor is queued, each connection in the map is open and watched by the kernel with the events it
  wants, and all the kernel watches beside the loops' own channels are connections in the map.
\<close>

theorem server_quiescent:
  assumes "epoll_documented ctl view" and "server_ready view S" and "server_reachable ctl view S w"
    and "\<forall>l\<in>loop_set (srv w). pcs w l = Waiting \<and> pendingFunctors (ios (srv w) l) = []"
  shows "(\<forall>n q. connections (srv w) n = Some q \<longrightarrow>
       (let W = ios (srv w) (conn_loop (srv w) q) in
        c_name (conns W q) = n \<and> c_state (conns W q) \<in> {kConnected, kDisconnecting}
        \<and> view (epollfd W) (ch_fd (chans W q)) = Some (ch_events (chans W q), q)))
    \<and> (\<forall>l\<in>loop_set (srv w). \<forall>fd e p. view (epollfd (ios (srv w) l)) fd = Some (e, p)
         \<longrightarrow> p \<in> base_chans (srv w) l \<or> connections (srv w) (c_name (conns (ios (srv w) l) p)) = Some p)"
proof -
  let ?S = "srv w"
  note inv = reachable_inv [OF assms(1-3)]
  note i = world_invD(1) [OF inv]
  have "let W = ios ?S (conn_loop ?S q) in
        c_name (conns W q) = n \<and> c_state (conns W q) \<in> {kConnected, kDisconnecting}
        \<and> view (epollfd W) (ch_fd (chans W q)) = Some (ch_events (chans W q), q)" if n: "connections ?S n = Some q" for n q
  proof -
    let ?W = "ios ?S (conn_loop ?S q)"
    note o = at_rest_open [OF inv assms(4) n]
    have "created (next_obj S) ?S q" using srv_invD(5) [OF i n] by simp
    then have nm: "c_name (conns ?W q) = n" using srv_invD(4) [OF i] o(1) by (simp add: obj_inv_def)
    have "ch_index (chans ?W q) = kAdded" "c_state (conns ?W q) \<notin> {kDisconnected, kConnecting}"
      using o(4,5) by (auto simp: in_defs conn_wf_def life_of_def split: if_splits)
    moreover from this have "view (epollfd ?W) (ch_fd (chans ?W q)) = Some (ch_events (chans ?W q), q)"
      using poller_invD(2) [OF srv_invD(1) [OF i o(2)] o(3)] by simp
    ultimately show ?thesis using nm by (cases "c_state (conns ?W q)") (simp_all add: Let_def)
  qed
  moreover have "p \<in> base_chans ?S l \<or> connections ?S (c_name (conns (ios ?S l) p)) = Some p"
    if "l \<in> loop_set ?S" "view (epollfd (ios ?S l)) fd = Some (e, p)" for l fd e p
  proof -
    have "connections ?S (c_name (conns (ios ?S l) p)) = Some p" if u: "usable (next_obj S) ?S l p"
    proof -
      have p: "created (next_obj S) ?S p" "conn_loop ?S p = l" "life_at ?S p \<in> {Live, Closing}"
        using u by (simp_all add: usable_def)
      then have "life_at ?S p = Live" using rest_life(1) [OF inv assms(4) p(1)] by auto
      then show ?thesis using srv_invD(4) [OF i p(1)] p(2) by (simp add: obj_inv_def)
    qed
    then show ?thesis using watched_fine [OF i that] by (auto simp: chan_fine_def)
  qed
  ultimately show ?thesis by blast
qed

lemma server_quiescent_witness:
  "\<exists>w. server_reachable list_ctl (\<lambda>k. k) ready_server w \<and> connections (srv w) = [''web-0.0.0.0:80#1'' \<mapsto> 3]
     \<and> c_state (conns (ios (srv w) 1) 3) \<in> {kConnected, kDisconnecting} \<and> (\<exists>fd e. epollfd (ios (srv w) 1) fd = Some (e, 3))"
proof -
  obtain w where "settled w" using settled_reachable by blast
  then have w: "server_reachable list_ctl (\<lambda>k. k) ready_server w" "connections (srv w) = [''web-0.0.0.0:80#1'' \<mapsto> 3]"
      "conn_loop (srv w) 3 = 1" "\<forall>l\<in>loop_set (srv w). pcs w l = Waiting \<and> pendingFunctors (ios (srv w) l) = []"
    by (simp_all add: settled_def)
  have "connections (srv w) ''web-0.0.0.0:80#1'' = Some 3" using w(2) by simp
  with server_quiescent [OF list_ctl_documented ready_server_ready w(1,4)] w show ?thesis
    unfolding Let_def by metis
qed

text \<open>
  C16: the shape of every connection object.  In every interleaving in which no connection closes between the test
  and the acts of a call from another thread on it, its buffers are well formed, its user
  callbacks are set, its channel index is one the poller knows, and its state fixes its registration: not
  yet registered while connecting, asking for nothing once disconnected, and between the two registered,
  reading, and asking for output exactly when its output buffer holds data.
\<close>

theorem server_objects_well_formed:
  assumes "epoll_documented ctl view" and "server_ready view S" and "server_reachable ctl view S w"
    and "next_obj S \<le> q" and "q < next_obj (srv w)"
  shows "let W = ios (srv w) (conn_loop (srv w) q); c = conns W q; ch = chans W q in
    conn_loop (srv w) q \<in> loop_set (srv w)
    \<and> connectionCallback c \<and> messageCallback c \<and> conn_closeCallback c
    \<and> buffer_inv (inputBuffer c) \<and> buffer_inv (outputBuffer c) \<and> ch_index ch \<in> {kNew, kAdded, kDeleted}
    \<and> (case c_state c of
         kConnecting \<Rightarrow> ch_index ch = kNew \<and> isNoneEvent ch \<and> contents (outputBuffer c) = []
       | kDisconnected \<Rightarrow> isNoneEvent ch
       | _ \<Rightarrow> ch_index ch = kAdded \<and> bit (ch_events ch) 0 \<and> (isWriting ch \<longleftrightarrow> contents (outputBuffer c) \<noteq> []))"
proof -
  have q: "created (next_obj S) (srv w) q" using assms(4,5) by (simp add: created_def)
  have o: "obj_inv (next_obj S) (rests w) (srv w) q"
    using srv_invD(4) [OF world_invD(1) [OF reachable_inv [OF assms(1-3)]] q] by simp
  let ?W = "ios (srv w) (conn_loop (srv w) q)"
  have "conn_wf q (conns ?W q) (chans ?W q)" "conn_loop (srv w) q \<in> loop_set (srv w)"
    using o by (simp_all add: obj_inv_def wf_in_def)
  then show ?thesis
    by (cases "c_state (conns ?W q)")
      (auto simp: conn_wf_def life_of_def isWriting_bit isNoneEvent_def kNoneEvent_def Let_def split: if_splits)
qed

lemma server_objects_well_formed_witness:
  "\<exists>w. server_reachable list_ctl (\<lambda>k. k) ready_server w
     \<and> ch_index (chans (ios (srv w) (conn_loop (srv w) 3)) 3) \<in> {kNew, kAdded, kDeleted}"
proof -
  obtain w where w: "accepted w" using accept_reachable by blast
  then have r: "server_reachable list_ctl (\<lambda>k. k) ready_server w" and m: "connections (srv w) ''web-0.0.0.0:80#1'' = Some 3"
    by (simp_all add: accepted_def)
  have "created (next_obj ready_server) (srv w) 3"
    using srv_invD(5) [OF world_invD(1) [OF reachable_inv [OF list_ctl_documented ready_server_ready r]] m] by simp
  then have "next_obj ready_server \<le> 3" "3 < next_obj (srv w)" by (simp_all add: created_def)
  note r = r this
  from server_objects_well_formed [OF list_ctl_documented ready_server_ready r] r(1) show ?thesis
    unfolding Let_def by blast
qed

end
