(* ===== verification/Server_Queue.thy ===== *)
theory Server_Queue
  imports Server_Run
begin

text \<open>
  What each callback, functor and session of user calls puts into the queues of the loops: a few functors,
  measured by the work they will make, and never a send of another thread.
\<close>

section \<open>Functors measured by their work\<close>

text \<open>
  What a functor costs: one that queues others costs more than they do.
\<close>

fun task_work :: "task \<Rightarrow> nat" where
  "task_work (RemoveConnectionInLoop q) = 5"
| "task_work (SendInLoopStr q ds) = 6"
| "task_work t = 1"

definition tasks_work :: "task list \<Rightarrow> nat" where
  "tasks_work ts = sum_list (map task_work ts)"

lemma tasks_work_simps [simp]:
  "tasks_work [] = 0" "tasks_work (t # ts) = task_work t + tasks_work ts" "tasks_work (ts @ us) = tasks_work ts + tasks_work us"
  by (simp_all add: tasks_work_def)

text \<open>Queueing functors in one loop.\<close>

definition queues_up :: "nat \<Rightarrow> 'k server \<Rightarrow> 'k server \<Rightarrow> bool" where
  "queues_up k S S' \<longleftrightarrow> (\<exists>m ts. tasks_work ts \<le> k
     \<and> (\<forall>l. pendingFunctors (ios S' l) = pendingFunctors (ios S l) @ (if l = m then ts else [])))"

lemma pushed_mono: "queues_up j S S' \<Longrightarrow> j \<le> k \<Longrightarrow> queues_up k S S'"
  unfolding queues_up_def by (meson order_trans)

lemma upd_io_Inr: "upd_io l f S = Inr S' \<longleftrightarrow> (\<exists>W. f (ios S l) = Inr W \<and> S' = S\<lparr>ios := (ios S)(l := W)\<rparr>)"
  by (auto simp: upd_io_def rbind_eq_Inr)

lemma if_res: "r = (if P then a else if Q then b else Inr c) \<Longrightarrow> r = Inr d \<Longrightarrow> a = Inr d \<or> b = Inr d \<or> d = c"
  by (auto split: if_splits)

section \<open>What each callback and functor queues\<close>

lemma change_events_pending:
  fixes W W' :: "('k, 'z) io_scheme"
  assumes "change_events ctl f p W = Inr W'"
  shows "pendingFunctors W' = pendingFunctors W"
  using change_events_more [OF assms] by (cases W; cases W'; simp)

lemmas event_ops_pending = change_events_pending [where f = ev_enableReading, folded enableReading_def]
  change_events_pending [where f = ev_enableWriting, folded enableWriting_def]
  change_events_pending [where f = ev_disableWriting, folded disableWriting_def]
  change_events_pending [where f = ev_disableAll, folded disableAll_def]

lemma shutdownInLoop_pending [simp]: "pendingFunctors (shutdownInLoop o1 W) = pendingFunctors W"
  by (simp add: shutdownInLoop_def)

lemma handleWrite_pending:
  assumes "handleWrite ctl w o1 W = Inr W'"
  shows "\<exists>ts. tasks_work ts \<le> 1 \<and> pendingFunctors W' = pendingFunctors W @ ts"
proof (cases "isWriting (conn_channel o1 W)")
  case True
  let ?ob = "outputBuffer (conns W o1)"
  obtain ds r where r: "GetBufferAllAsString ?ob = Inr ds" "writeFd w ?ob = Inr r"
    using assms True by (auto simp: handleWrite_def Let_def rbind_eq_Inr)
  show ?thesis
  proof (cases "\<exists>n. r = WOk n \<and> 0 < n")
    case True
    then obtain n where "r = WOk n" "0 < n" by blast
    then show ?thesis using assms \<open>isWriting (conn_channel o1 W)\<close> r
      by (auto simp: handleWrite_def Let_def rbind_eq_Inr dest!: event_ops_pending split: if_splits)
  qed (use assms True r in \<open>auto simp: handleWrite_def Let_def split: wr_result.splits\<close>)
qed (use assms in \<open>simp add: handleWrite_def\<close>)

lemma send_direct_pending:
  assumes "send_direct w ds o1 W = (n, r, f, W')"
  shows "\<exists>ts. tasks_work ts \<le> 1 \<and> pendingFunctors W' = pendingFunctors W @ ts"
  using assms by (auto simp: send_direct_def Let_def split: if_splits wr_result.splits)

lemma send_queue_pending:
  assumes "send_queue ctl ds n r f o1 W = Inr W'"
  shows "\<exists>ts. tasks_work ts \<le> 1 \<and> pendingFunctors W' = pendingFunctors W @ ts"
  using assms by (auto simp: send_queue_def Let_def rbind_eq_Inr dest!: event_ops_pending split: if_splits)

lemma sendInLoop_pending:
  assumes "sendInLoop ctl w ds o1 W = Inr W'"
  shows "\<exists>ts. tasks_work ts \<le> 2 \<and> pendingFunctors W' = pendingFunctors W @ ts"
proof (cases "c_state (conns W o1) = kDisconnected")
  case False
  obtain n r f W1 where d: "send_direct w ds o1 W = (n, r, f, W1)" by (cases "send_direct w ds o1 W") auto
  have q: "send_queue ctl ds n r f o1 W1 = Inr W'" using assms False d by (simp add: sendInLoop_def)
  obtain ts us where "tasks_work ts \<le> 1" "tasks_work us \<le> 1" "pendingFunctors W' = pendingFunctors W @ ts @ us"
    using send_direct_pending [OF d] send_queue_pending [OF q] by auto
  then show ?thesis by (intro exI [of _ "ts @ us"]) simp
qed (use assms in \<open>simp add: sendInLoop_def\<close>)

lemma removeChannel_pending:
  fixes W W' :: "('k, 'z) io_scheme"
  assumes "removeChannel ctl p W = Inr W'"
  shows "pendingFunctors W' = pendingFunctors W"
proof -
  have "poller.more W' = poller.more W"
    using assms by (auto simp: removeChannel_def Let_def rbind_eq_Inr set_chan_def set_index_def dest!: epoll_update_more split: if_splits)
  then show ?thesis by (cases W; cases W'; simp)
qed

lemma connectDestroyed_pending:
  assumes "connectDestroyed ctl o1 W = Inr W'"
  shows "pendingFunctors W' = pendingFunctors W"
  using assms by (auto simp: connectDestroyed_def Let_def rbind_eq_Inr call_connection_def call_user_def setState_def loop_removeChannel_def
      dest!: event_ops_pending removeChannel_pending split: if_splits)

lemma established_pushes:
  assumes "upd_io l (connectionEstablished ctl o1) S = Inr S'"
  shows "queues_up 0 S S'"
  using assms established_pending unfolding upd_io_Inr queues_up_def by (fastforce intro: exI [of _ "[]"])

lemma pushed_own:
  assumes "pendingFunctors W = pendingFunctors (ios S l) @ ts" "tasks_work ts \<le> k"
  shows "queues_up k S (S\<lparr>ios := (ios S)(l := W)\<rparr>)"
  unfolding queues_up_def using assms by (intro exI [of _ l] exI [of _ ts]) simp

lemma pushed_same:
  assumes "\<And>l. pendingFunctors (ios S' l) = pendingFunctors (ios S l)"
  shows "queues_up k S S'"
  unfolding queues_up_def using assms by (intro exI [of _ 0] exI [of _ "[]"]) simp

lemma pushed_after:
  assumes "\<And>l. pendingFunctors (ios S1 l) = pendingFunctors (ios S l)" "queues_up k S1 S'"
  shows "queues_up k S S'"
  using assms by (simp add: queues_up_def)

lemma removeConnectionInLoop_pushes:
  assumes "removeConnectionInLoop tid o1 S = Inr S'"
  shows "queues_up 1 S S'"
  using assms unfolding removeConnectionInLoop_def Let_def upd_io_Inr queues_up_def
  by (auto intro!: exI [of _ "conn_loop S o1"] exI [of _ "[ConnectDestroyed o1]"])

lemma removeConnection_pushes:
  assumes "removeConnection tid o1 S = Inr S'"
  shows "queues_up 5 S S'"
proof (cases "isInLoopThread tid (ios S (s_loop S))")
  case True
  then have "removeConnectionInLoop tid o1 S = Inr S'" using assms by (simp add: removeConnection_def run_in_def)
  from pushed_mono [OF removeConnectionInLoop_pushes [OF this]] show ?thesis by simp
next
  case False
  then have S': "S' = S\<lparr>ios := (ios S)(s_loop S := queueInLoop tid (RemoveConnectionInLoop o1) (ios S (s_loop S)))\<rparr>"
    using assms by (simp add: removeConnection_def run_in_def upd_io_def)
  show ?thesis unfolding S' by (rule pushed_own [where ts = "[RemoveConnectionInLoop o1]"]) simp_all
qed

lemma handleClose_pending:
  assumes "handleClose ctl (\<lambda>_. Inr) o1 W = Inr W'"
  shows "pendingFunctors W' = pendingFunctors W"
  using assms by (auto simp: handleClose_def rbind_eq_Inr call_connection_def call_user_def setState_def
      dest!: event_ops_pending split: if_splits)

lemma server_handleClose_pushes:
  assumes "server_handleClose ctl tid o1 S = Inr S'"
  shows "queues_up 5 S S'"
proof -
  obtain S1 where S1: "upd_io (conn_loop S o1) (handleClose ctl (\<lambda>_. Inr) o1) S = Inr S1" "removeConnection tid o1 S1 = Inr S'"
    using assms by (auto simp: server_handleClose_def rbind_eq_Inr)
  have "pendingFunctors (ios S1 l) = pendingFunctors (ios S l)" for l
    using S1(1) handleClose_pending unfolding upd_io_Inr by fastforce
  from pushed_after [OF this removeConnection_pushes [OF S1(2)]] show ?thesis .
qed

lemma server_handleRead_pushes:
  assumes "server_handleRead ctl tid f o1 S = Inr S'"
  shows "queues_up 5 S S'"
proof -
  let ?l = "conn_loop S o1"
  obtain n e b S1 where S1: "upd_io ?l (\<lambda>W. Inr (set_conn o1 (\<lambda>c. c\<lparr>inputBuffer := b\<rparr>) W)) S = Inr S1"
      "(if 0 < sint (n :: size_t) then upd_io ?l (\<lambda>W. call_user (messageCallback (conns W o1)) (MessageCall o1) W) S1
        else if sint n = 0 then server_handleClose ctl tid o1 S1 else Inr S1) = Inr S'"
    using assms by (auto simp: server_handleRead_def Let_def rbind_eq_Inr)
  have p: "pendingFunctors (ios S1 l) = pendingFunctors (ios S l)" for l using S1(1) by (auto simp: upd_io_Inr)
  consider "upd_io ?l (\<lambda>W. call_user (messageCallback (conns W o1)) (MessageCall o1) W) S1 = Inr S'"
    | "server_handleClose ctl tid o1 S1 = Inr S'" | "S' = S1"
    using if_res [OF refl S1(2)] by blast
  then have "queues_up 5 S1 S'"
  proof cases
    case 1
    then show ?thesis by (intro pushed_same) (auto simp: upd_io_Inr call_user_def split: if_splits)
  next
    case 2
    then show ?thesis by (rule server_handleClose_pushes)
  qed (simp add: pushed_same)
  then show ?thesis by (rule pushed_after [OF p])
qed

lemma newConnection_pushes:
  assumes "newConnection ctl tid fd S = Inr S'"
  shows "queues_up 5 S S'"
proof -
  let ?o = "next_obj S"
  obtain l pl S2 S3 where n: "getNextLoop (threadPool S) = Inr (l, pl)" "bump_conn_id (S\<lparr>threadPool := pl\<rparr>) = Inr S2"
      "make_connection (conn_name (S\<lparr>threadPool := pl\<rparr>)) fd l S2 = Inr S3"
      "run_in tid l (ConnectionEstablished ?o) (upd_io l (connectionEstablished ctl ?o)) S3 = Inr S'"
    using assms by (auto simp: newConnection_def Let_def rbind_eq_Inr)
  have S2: "ios S2 = ios S" using n(2) by (auto simp: bump_conn_id_def split: if_splits)
  have p: "pendingFunctors (ios S3 m) = pendingFunctors (ios S m)" for m
    using n(3) S2 by (auto simp: make_connection_def Let_def upd_io_Inr rbind_eq_Inr TcpConnection_new_def set_chan_def)
  have "queues_up 5 S3 S'"
  proof (cases "isInLoopThread tid (ios S3 l)")
    case True
    then have "upd_io l (connectionEstablished ctl ?o) S3 = Inr S'" using n(4) by (simp add: run_in_def)
    from pushed_mono [OF established_pushes [OF this]] show ?thesis by simp
  next
    case False
    then have S': "S' = S3\<lparr>ios := (ios S3)(l := queueInLoop tid (ConnectionEstablished ?o) (ios S3 l))\<rparr>"
      using n(4) by (simp add: run_in_def upd_io_def)
    show ?thesis unfolding S' by (rule pushed_own [where ts = "[ConnectionEstablished ?o]"]) simp_all
  qed
  then show ?thesis by (rule pushed_after [OF p])
qed

lemma callback_pushes:
  assumes "run_callback ctl l E c S = Inr S'"
  shows "queues_up 5 S S'"
proof (cases c)
  case (ConnHandleWrite o1)
  then obtain W where W: "handleWrite ctl (e_write E) o1 (ios S (conn_loop S o1)) = Inr W"
      "S' = S\<lparr>ios := (ios S)(conn_loop S o1 := W)\<rparr>"
    using assms by (auto simp: upd_io_Inr)
  obtain ts where "tasks_work ts \<le> 1" "pendingFunctors W = pendingFunctors (ios S (conn_loop S o1)) @ ts"
    using handleWrite_pending [OF W(1)] by blast
  then show ?thesis unfolding W(2) by (intro pushed_own [where ts = ts]) simp_all
qed (use assms in \<open>auto simp: upd_io_Inr handleWakeup_def pushed_same intro: newConnection_pushes server_handleRead_pushes
    server_handleClose_pushes split: accept_outcome.splits\<close>)

text \<open>A functor that runs queues less work than it was.\<close>

lemma task_pushes:
  assumes f: "task_fine h S t" and S': "run_task ctl l E t S = Inr S'"
  shows "(\<forall>l. pendingFunctors (ios S' l) = pendingFunctors (ios S l)) \<or> (\<exists>k. queues_up k S S' \<and> k + 3 < task_work t)"
proof (cases t)
  case (RemoveConnectionInLoop o1)
  then have "removeConnectionInLoop (threadId (ios S l)) o1 S = Inr S'" using S' by simp
  then have "queues_up 1 S S'" by (rule removeConnectionInLoop_pushes)
  then show ?thesis using RemoveConnectionInLoop by (intro disjI2 exI [of _ 1]) simp
next
  case (SendInLoopStr o1 ds)
  then obtain W where W: "sendInLoop ctl (e_write E) ds o1 (ios S l) = Inr W" "S' = S\<lparr>ios := (ios S)(l := W)\<rparr>"
    using S' by (auto simp: upd_io_Inr)
  obtain ts where "tasks_work ts \<le> 2" "pendingFunctors W = pendingFunctors (ios S l) @ ts"
    using sendInLoop_pending [OF W(1)] by blast
  then have "queues_up 2 S S'" unfolding W(2) by (intro pushed_own [where ts = ts])
  then show ?thesis using SendInLoopStr by (intro disjI2 exI [of _ 2]) simp
next
  case (ConnectDestroyed o1)
  then show ?thesis using S' connectDestroyed_pending by (fastforce simp: upd_io_Inr)
next
  case (ConnectionEstablished o1)
  then show ?thesis using S' established_pending by (fastforce simp: upd_io_Inr)
qed (use f S' in \<open>auto simp: upd_io_Inr call_user_def\<close>)

section \<open>Who keeps the books\<close>

text \<open>Only accepting a connection changes the pool's index, the counter of objects or an object's loop.\<close>

lemma removeConnection_books:
  assumes "removeConnection tid o1 S = Inr S'"
  shows "same_books S S'"
  using assms by (auto simp: removeConnection_def removeConnectionInLoop_def run_in_def Let_def upd_io_Inr split: if_splits)

lemma same_books_trans: "same_books S1 S2 \<Longrightarrow> same_books S2 S3 \<Longrightarrow> same_books S1 S3"
  by (simp add: same_books_def)

lemma handleClose_books:
  assumes "server_handleClose ctl tid o1 S = Inr S'"
  shows "same_books S S'"
proof -
  obtain W where "removeConnection tid o1 (S\<lparr>ios := (ios S)(conn_loop S o1 := W)\<rparr>) = Inr S'"
    using assms by (auto simp: server_handleClose_def rbind_eq_Inr upd_io_Inr)
  from removeConnection_books [OF this] show ?thesis by (rule same_books_trans [rotated]) simp
qed

lemma handleRead_books:
  assumes "server_handleRead ctl tid f o1 S = Inr S'"
  shows "same_books S S'"
proof -
  let ?l = "conn_loop S o1"
  obtain n b S1 where S1: "upd_io ?l (\<lambda>W. Inr (set_conn o1 (\<lambda>c. c\<lparr>inputBuffer := b\<rparr>) W)) S = Inr S1"
      "(if 0 < sint (n :: size_t) then upd_io ?l (\<lambda>W. call_user (messageCallback (conns W o1)) (MessageCall o1) W) S1
        else if sint n = 0 then server_handleClose ctl tid o1 S1 else Inr S1) = Inr S'"
    using assms by (auto simp: server_handleRead_def Let_def rbind_eq_Inr)
  have "same_books S S1" using S1(1) by (auto simp: upd_io_Inr)
  moreover from if_res [OF refl S1(2)] have "same_books S1 S'"
    by (elim disjE) (auto simp: upd_io_Inr intro: handleClose_books)
  ultimately show ?thesis by (rule same_books_trans)
qed

lemma callback_books:
  assumes "run_callback ctl l E c S = Inr S'" "c \<noteq> AcceptorHandleRead"
  shows "same_books S S'"
  using assms handleClose_books handleRead_books by (cases c) (auto simp: upd_io_Inr)

lemma task_books:
  assumes "run_task ctl l E t S = Inr S'" "t \<noteq> AcceptorListen"
  shows "same_books S S'"
  using assms by (cases t) (auto simp: upd_io_Inr removeConnectionInLoop_def Let_def)

section \<open>No send is queued\<close>

lemma chunks_small:
  assumes "tasks_work ts < 6"
  shows "chunks q ts = []"
  using assms
proof (induction ts)
  case (Cons t ts)
  then show ?case by (cases t) simp_all
qed simp

lemma queues_up_chunks:
  assumes "queues_up k S S'" "k < 6"
  shows "chunks q (pendingFunctors (ios S' l)) = chunks q (pendingFunctors (ios S l))"
  using assms chunks_small unfolding queues_up_def by fastforce

lemma task_chunks:
  assumes "task_fine h S t" "run_task ctl l E t S = Inr S'"
  shows "chunks q (pendingFunctors (ios S' m)) = chunks q (pendingFunctors (ios S m))"
proof -
  have w: "task_work t \<le> 6" by (cases t) simp_all
  from task_pushes [OF assms] show ?thesis
  proof (elim disjE exE conjE)
    fix k
    assume k: "queues_up k S S'" "k + 3 < task_work t"
    from w k(2) have "k < 6" by simp
    from queues_up_chunks [OF k(1) this] show ?thesis .
  qed simp
qed

lemma user_step_chunks:
  assumes "user_step ctl o1 a W = Inr W'"
  shows "chunks q (pendingFunctors W') = chunks q (pendingFunctors W)"
proof (cases a)
  case (USend w ds)
  show ?thesis
  proof (cases "c_state (conns W o1) = kConnected")
    case True
    then have "sendInLoop ctl w ds o1 W = Inr W'"
      using assms USend by (simp add: send_string_def isInLoopThread_def)
    then obtain ts where "tasks_work ts \<le> 2" "pendingFunctors W' = pendingFunctors W @ ts"
      using sendInLoop_pending by blast
    then show ?thesis using chunks_small [of ts q] by simp
  qed (use assms USend in \<open>simp add: send_string_def\<close>)
next
  case UShutdown
  then show ?thesis using assms
    by (auto simp: conn_shutdown_def runInLoop_def isInLoopThread_def setState_def split: if_splits)
qed (use assms in auto)

lemma user_session_chunks:
  assumes "run_all (user_step ctl o1) as W = Inr W'"
  shows "chunks q (pendingFunctors W') = chunks q (pendingFunctors W)"
  using assms
proof (induction as arbitrary: W)
  case (Cons a as)
  then obtain W1 where W1: "user_step ctl o1 a W = Inr W1" "run_all (user_step ctl o1) as W1 = Inr W'"
    by (auto simp: rbind_eq_Inr)
  from Cons.IH [OF W1(2)] user_step_chunks [OF W1(1)] show ?case by simp
qed simp

end
