(* ===== verification/Server_Spec.thy ===== *)
theory Server_Spec
  imports Server_Queue "HOL-Library.Sublist"
begin

text \<open>
  What the server promises, without loops, functors, buffers or descriptors: a directory of connections,
  each with its phase, the bytes given to the peer and the bytes accepted from the user and not yet
  given, the sends of other threads that wait for their turn, and the chunks of bytes it was given to send.  The
  running server refines this specification.
\<close>

section \<open>The specification\<close>

text \<open>The phases of a connection are ordered.\<close>

instantiation life :: linorder
begin

definition less_eq_life :: "life \<Rightarrow> life \<Rightarrow> bool" where
  "p \<le> q \<longleftrightarrow> (case p of Fresh \<Rightarrow> True | Live \<Rightarrow> q \<noteq> Fresh | Closing \<Rightarrow> q \<in> {Closing, Gone} | Gone \<Rightarrow> q = Gone)"

definition less_life :: "life \<Rightarrow> life \<Rightarrow> bool" where
  "(p :: life) < q \<longleftrightarrow> p \<le> q \<and> \<not> q \<le> p"

instance
  by standard (auto simp: less_eq_life_def less_life_def split: life.splits)

end

text \<open>
  A chunk the connection was given comes with whether it was refused, because the peer was gone; then it is dropped
  as a whole.  A send of another thread is queued, and given to the connection when its turn comes, in the order
  of queueing; after the closing it is dropped.
\<close>

record conn_view =
  v_life :: life
  v_wire :: "char list"
  v_pending :: "char list"
  v_queued :: "char list list"
  v_given :: "(char list \<times> bool) list"

definition v_give :: "bool \<Rightarrow> char list \<Rightarrow> conn_view \<Rightarrow> conn_view" where
  "v_give r ds v = v\<lparr>v_pending := v_pending v @ (if r then [] else ds), v_given := v_given v @ [(ds, r)]\<rparr>"

inductive spec_step :: "(obj \<rightharpoonup> conn_view) \<Rightarrow> (obj \<rightharpoonup> conn_view) \<Rightarrow> bool" where
  spec_accept: "m q = None
    \<Longrightarrow> spec_step m (m(q \<mapsto> \<lparr>v_life = Fresh, v_wire = [], v_pending = [], v_queued = [], v_given = []\<rparr>))"
| spec_establish: "m q = Some v \<Longrightarrow> v_life v = Fresh \<Longrightarrow> spec_step m (m(q \<mapsto> v\<lparr>v_life := Live\<rparr>))"
| spec_send: "m q = Some v \<Longrightarrow> v_life v = Live \<Longrightarrow> spec_step m (m(q \<mapsto> v_give r ds v))"
| spec_queue: "m q = Some v \<Longrightarrow> v_life v = Live \<Longrightarrow> spec_step m (m(q \<mapsto> v\<lparr>v_queued := v_queued v @ [ds]\<rparr>))"
| spec_take: "m q = Some v \<Longrightarrow> v_life v = Live \<Longrightarrow> v_queued v = ds # dss
    \<Longrightarrow> spec_step m (m(q \<mapsto> v_give r ds (v\<lparr>v_queued := dss\<rparr>)))"
| spec_write: "m q = Some v \<Longrightarrow> v_life v = Live \<Longrightarrow> v_pending v = xs @ ys
    \<Longrightarrow> spec_step m (m(q \<mapsto> v\<lparr>v_wire := v_wire v @ xs, v_pending := ys\<rparr>))"
| spec_close: "m q = Some v \<Longrightarrow> v_life v = Live \<Longrightarrow> spec_step m (m(q \<mapsto> v\<lparr>v_life := Closing\<rparr>))"
| spec_drop: "m q = Some v \<Longrightarrow> v_life v = Closing \<Longrightarrow> v_queued v = ds # dss \<Longrightarrow> spec_step m (m(q \<mapsto> v\<lparr>v_queued := dss\<rparr>))"
| spec_destroy: "m q = Some v \<Longrightarrow> v_life v = Closing \<Longrightarrow> v_queued v = [] \<Longrightarrow> spec_step m (m(q \<mapsto> v\<lparr>v_life := Gone\<rparr>))"

definition spec_runs :: "(obj \<rightharpoonup> conn_view) \<Rightarrow> (obj \<rightharpoonup> conn_view) \<Rightarrow> bool" where
  "spec_runs = spec_step\<^sup>*\<^sup>*"

lemma spec_runs_refl [simp, intro]: "spec_runs m m"
  by (simp add: spec_runs_def)

lemma spec_runs_one: "spec_step m m' \<Longrightarrow> spec_runs m m'"
  by (simp add: spec_runs_def)

lemma spec_runs_trans [trans]: "spec_runs m1 m2 \<Longrightarrow> spec_runs m2 m3 \<Longrightarrow> spec_runs m1 m3"
  unfolding spec_runs_def by (rule rtranclp_trans)

lemma life_le [simp]: "Fresh \<le> p" "Live \<le> Closing" "Closing \<le> Gone" "\<not> Closing \<le> Live" "\<not> Closing \<le> Fresh"
  for p :: life
  by (simp_all add: less_eq_life_def)

text \<open>What every run of the specification keeps: phases go forward, streams only grow, and stop at the closing.\<close>

definition view_grows :: "conn_view \<Rightarrow> conn_view \<Rightarrow> bool" where
  "view_grows v v' \<longleftrightarrow> v_life v \<le> v_life v' \<and> prefix (v_wire v) (v_wire v')
     \<and> prefix (v_wire v @ v_pending v) (v_wire v' @ v_pending v') \<and> prefix (v_given v) (v_given v')
     \<and> (Closing \<le> v_life v \<longrightarrow> v_wire v' = v_wire v \<and> v_pending v' = v_pending v \<and> v_given v' = v_given v)"

lemma view_grows_refl [simp]: "view_grows v v"
  by (simp add: view_grows_def)

lemma view_grows_trans: "view_grows v1 v2 \<Longrightarrow> view_grows v2 v3 \<Longrightarrow> view_grows v1 v3"
  by (auto simp: view_grows_def intro: prefix_order.order_trans order_trans)

lemma spec_step_grows:
  assumes "spec_step m m'" "m q = Some v"
  shows "\<exists>v'. m' q = Some v' \<and> view_grows v v'"
  using assms by cases (auto simp: view_grows_def v_give_def)

lemma spec_runs_grows:
  assumes "spec_runs m m'" "m q = Some v"
  shows "\<exists>v'. m' q = Some v' \<and> view_grows v v'"
  using assms unfolding spec_runs_def
proof (induction rule: rtranclp_induct)
  case (step m1 m2)
  then obtain v1 where v1: "m1 q = Some v1" "view_grows v v1" by blast
  obtain v2 where "m2 q = Some v2" "view_grows v1 v2" using spec_step_grows [OF step.hyps(2) v1(1)] by blast
  then show ?case using view_grows_trans [OF v1(2)] by blast
qed simp

text \<open>
  And the bytes of a connection, written or still to be written, are those it was given, chunk after chunk, without
  the chunks that were refused.
\<close>

definition taken :: "(char list \<times> bool) list \<Rightarrow> char list" where
  "taken gs = concat (map fst (filter (\<lambda>(ds, r). \<not> r) gs))"

definition view_good :: "conn_view \<Rightarrow> bool" where
  "view_good v \<longleftrightarrow> v_wire v @ v_pending v = taken (v_given v)"

lemma spec_step_good:
  assumes "spec_step m m'" "\<And>q v. m q = Some v \<Longrightarrow> view_good v" "m' q = Some v"
  shows "view_good v"
  using assms(1)
proof cases
  case (spec_write p u xs ys)
  then show ?thesis using assms(2) [of p u] assms(2,3) by (auto simp: view_good_def split: if_splits)
qed (use assms(2,3) in \<open>auto simp: view_good_def v_give_def taken_def split: if_splits\<close>)

lemma spec_runs_good:
  assumes "spec_runs Map.empty m" "m q = Some v"
  shows "view_good v"
  using assms unfolding spec_runs_def
proof (induction arbitrary: q v rule: rtranclp_induct)
  case (step m1 m2)
  from spec_step_good [OF step.hyps(2) step.IH step.prems] show ?case .
qed simp

section \<open>The abstraction\<close>

text \<open>What the records of a connection do not tell, the sends in its loop's queue and its history, comes beside.\<close>

type_synonym told = "obj \<Rightarrow> char list list \<times> (char list \<times> bool) list"

definition io_view :: "told \<Rightarrow> obj \<Rightarrow> ('k, 'z) io_scheme \<Rightarrow> conn_view" where
  "io_view X q W = \<lparr>v_life = life_in q W, v_wire = wire (conns W q), v_pending = contents (outputBuffer (conns W q)),
     v_queued = fst (X q), v_given = snd (X q)\<rparr>"

definition view_of :: "told \<Rightarrow> 'k server \<Rightarrow> obj \<Rightarrow> conn_view" where
  "view_of X S q = io_view X q (ios S (conn_loop S q))"

definition spec_view :: "nat \<Rightarrow> told \<Rightarrow> 'k server \<Rightarrow> obj \<rightharpoonup> conn_view" where
  "spec_view h X S q = (if created h S q then Some (view_of X S q) else None)"

definition told_of :: "'k world \<Rightarrow> told" where
  "told_of w q = (flight w q, hist w q)"

definition world_view :: "nat \<Rightarrow> 'k world \<Rightarrow> obj \<rightharpoonup> conn_view" where
  "world_view h w = spec_view h (told_of w) (srv w)"

lemma spec_view_eqI:
  assumes "next_obj S' = next_obj S" "\<And>q. created h S q \<Longrightarrow> view_of X S' q = view_of X S q"
  shows "spec_view h X S' = spec_view h X S"
  using assms by (simp add: spec_view_def created_def fun_eq_iff)

lemma spec_view_updI:
  assumes "next_obj S' = next_obj S" "created h S o1" "\<And>q. created h S q \<Longrightarrow> q \<noteq> o1 \<Longrightarrow> view_of X' S' q = view_of X S q"
  shows "spec_view h X' S' = (spec_view h X S)(o1 \<mapsto> view_of X' S' o1)"
  using assms by (auto simp: spec_view_def created_def fun_eq_iff)

lemma spec_view_cong:
  assumes "\<And>q. created h S q \<Longrightarrow> X' q = X q"
  shows "spec_view h X' S = spec_view h X S"
  using assms by (simp add: spec_view_def view_of_def io_view_def fun_eq_iff)

lemma framed_view: "framed o1 W W' \<Longrightarrow> q \<noteq> o1 \<Longrightarrow> io_view X q W' = io_view X q W"
  by (simp add: framed_def io_view_def in_defs)

text \<open>A handler of \<open>o1\<close> in the state of its loop changes the view of \<open>o1\<close> only.\<close>

lemma own_view:
  assumes "framed o1 (ios S l) W" "created h S o1" "l = conn_loop S o1" "\<And>q. q \<noteq> o1 \<Longrightarrow> X' q = X q"
  shows "spec_view h X' (S\<lparr>ios := (ios S)(l := W)\<rparr>) = (spec_view h X S)(o1 \<mapsto> io_view X' o1 W)"
proof -
  let ?S = "S\<lparr>ios := (ios S)(l := W)\<rparr>"
  have "io_view X' q V = io_view X q V" if "q \<noteq> o1" for q and V :: "'a io"
    using assms(4) [OF that] by (simp add: io_view_def)
  then have "view_of X' ?S q = view_of X S q" if "q \<noteq> o1" for q
    using that framed_view [OF assms(1)] by (simp add: view_of_def)
  then have "spec_view h X' ?S = (spec_view h X S)(o1 \<mapsto> view_of X' ?S o1)" using assms(2) by (intro spec_view_updI) simp_all
  then show ?thesis using assms(3) by (simp add: view_of_def)
qed

lemma spec_view_own: "created h S o1 \<Longrightarrow> spec_view h X S o1 = Some (io_view X o1 (ios S (conn_loop S o1)))"
  by (simp add: spec_view_def view_of_def)

text \<open>Nothing but returned events and queues: every view stays.\<close>

lemma quiet_view:
  assumes "quiet (ios S l) W"
  shows "spec_view h X (S\<lparr>ios := (ios S)(l := W)\<rparr>) = spec_view h X S"
proof (rule spec_view_eqI)
  fix q
  have "life_in q W = life_in q (ios S l)" "conns W = conns (ios S l)"
    using assms by (auto simp: quiet_def life_in_def) (metis life_of_revents)
  then show "view_of X (S\<lparr>ios := (ios S)(l := W)\<rparr>) q = view_of X S q" by (simp add: view_of_def io_view_def)
qed simp

section \<open>What each handler does to the view\<close>

definition same_out :: "conn \<Rightarrow> conn \<Rightarrow> bool" where
  "same_out c c' \<longleftrightarrow> wire c' = wire c \<and> outputBuffer c' = outputBuffer c"

lemmas event_ops_conns = change_events_conns [where f = ev_enableReading, folded enableReading_def]
  change_events_conns [where f = ev_enableWriting, folded enableWriting_def]
  change_events_conns [where f = ev_disableWriting, folded disableWriting_def]
  change_events_conns [where f = ev_disableAll, folded disableAll_def]

text \<open>Bytes are only ever added to the wire.\<close>

lemma handleWrite_wire:
  assumes "handleWrite ctl w o1 W = Inr W'"
  shows "\<exists>xs. wire (conns W' o1) = wire (conns W o1) @ xs"
proof (cases "isWriting (conn_channel o1 W)")
  case True
  let ?ob = "outputBuffer (conns W o1)"
  obtain ds r where r: "GetBufferAllAsString ?ob = Inr ds" "writeFd w ?ob = Inr r"
    using assms True by (auto simp: handleWrite_def Let_def rbind_eq_Inr)
  show ?thesis
  proof (cases "\<exists>n. r = WOk n \<and> 0 < n")
    case True
    then obtain n where "r = WOk n" "0 < n" by blast
    then show ?thesis using assms \<open>isWriting (conn_channel o1 W)\<close> r
      by (auto simp: handleWrite_def Let_def rbind_eq_Inr dest!: event_ops_conns split: if_splits)
  qed (use assms True r in \<open>auto simp: handleWrite_def Let_def split: wr_result.splits\<close>)
qed (use assms in \<open>simp add: handleWrite_def\<close>)

lemma sendInLoop_wire:
  assumes "sendInLoop ctl w ds o1 W = Inr W'"
  shows "\<exists>xs. wire (conns W' o1) = wire (conns W o1) @ xs"
  using assms
  by (auto simp: sendInLoop_def send_direct_def send_queue_def Let_def rbind_eq_Inr dest!: event_ops_conns split: if_splits wr_result.splits)

text \<open>\<open>o1\<close>'s streams after a step: more accepted, then more written.\<close>

definition stream_step :: "char list \<Rightarrow> obj \<Rightarrow> ('k, 'z) io_scheme \<Rightarrow> ('k, 'z) io_scheme \<Rightarrow> bool" where
  "stream_step ds o1 W W' \<longleftrightarrow> life_in o1 W' = life_in o1 W \<and> sent o1 W' = sent o1 W @ ds
     \<and> (\<exists>xs. wire (conns W' o1) = wire (conns W o1) @ xs)"

lemma stream_write:
  assumes s: "stream_step ds o1 W W'" "life_in o1 W = Live"
    and v: "m o1 = Some ((io_view X' o1 W)\<lparr>v_pending := contents (outputBuffer (conns W o1)) @ ds\<rparr>)"
  shows "spec_step m (m(o1 \<mapsto> io_view X' o1 W'))"
proof -
  let ?v = "(io_view X' o1 W)\<lparr>v_pending := contents (outputBuffer (conns W o1)) @ ds\<rparr>"
    and ?p = "contents (outputBuffer (conns W o1))" and ?p' = "contents (outputBuffer (conns W' o1))"
  obtain xs where xs: "wire (conns W' o1) = wire (conns W o1) @ xs" using s(1) by (auto simp: stream_step_def)
  then have p: "?p @ ds = xs @ ?p'" using s(1) by (simp add: stream_step_def sent_def)
  have "spec_step m (m(o1 \<mapsto> ?v\<lparr>v_wire := v_wire ?v @ xs, v_pending := ?p'\<rparr>))"
    using s(2) p v by (intro spec_write) (simp_all add: io_view_def)
  moreover have "?v\<lparr>v_wire := v_wire ?v @ xs, v_pending := ?p'\<rparr> = io_view X' o1 W'"
    using s(1) xs by (simp add: io_view_def stream_step_def)
  ultimately show ?thesis by simp
qed

lemma stream_write_spec:
  assumes "stream_step [] o1 W W'" "life_in o1 W = Live" "m o1 = Some (io_view X o1 W)"
  shows "spec_runs m (m(o1 \<mapsto> io_view X o1 W'))"
  using stream_write [OF assms(1,2), of m X] assms(3) by (simp add: io_view_def spec_runs_one)

text \<open>A chunk given to the connection, by its user or by the functor of another thread.\<close>

lemma stream_give_spec:
  assumes s: "stream_step (if r then [] else ds) o1 W W'" "life_in o1 W = Live" and m: "m o1 = Some (io_view X o1 W)"
    and X': "X' o1 = (fst (X o1), snd (X o1) @ [(ds, r)]) \<or> (\<exists>dss. X o1 = (ds # dss, snd (X o1)) \<and> X' o1 = (dss, snd (X o1) @ [(ds, r)]))"
  shows "spec_runs m (m(o1 \<mapsto> io_view X' o1 W'))"
proof -
  let ?v = "(io_view X' o1 W)\<lparr>v_pending := contents (outputBuffer (conns W o1)) @ (if r then [] else ds)\<rparr>"
  have 1: "spec_step m (m(o1 \<mapsto> ?v))"
    using X'
  proof (elim disjE exE conjE)
    assume "X' o1 = (fst (X o1), snd (X o1) @ [(ds, r)])"
    then have "?v = v_give r ds (io_view X o1 W)" by (simp add: v_give_def io_view_def)
    moreover have "spec_step m (m(o1 \<mapsto> v_give r ds (io_view X o1 W)))"
      using m s(2) by (intro spec_send) (simp_all add: io_view_def)
    ultimately show ?thesis by simp
  next
    fix dss
    assume X: "X o1 = (ds # dss, snd (X o1))" "X' o1 = (dss, snd (X o1) @ [(ds, r)])"
    then have q: "fst (X o1) = ds # dss" by (metis fst_conv)
    have "?v = v_give r ds ((io_view X o1 W)\<lparr>v_queued := dss\<rparr>)" using X(2) by (simp add: v_give_def io_view_def)
    moreover have "spec_step m (m(o1 \<mapsto> v_give r ds ((io_view X o1 W)\<lparr>v_queued := dss\<rparr>)))"
      using m s(2) q by (intro spec_take) (simp_all add: io_view_def)
    ultimately show ?thesis by simp
  qed
  have "spec_step (m(o1 \<mapsto> ?v)) (m(o1 \<mapsto> ?v, o1 \<mapsto> io_view X' o1 W'))"
    by (rule stream_write [OF s]) simp
  from spec_runs_trans [OF spec_runs_one [OF 1] spec_runs_one [OF this]] show ?thesis by simp
qed

text \<open>\<open>sendInLoop\<close> on an open connection takes the chunk, unless it is refused.\<close>

lemma sendInLoop_stream:
  assumes doc: "epoll_documented ctl view" and r: "runnable view P o1 W" and w: "write_documented w"
    and len: "length ds < 2 ^ 31" and room: "length (store (outputBuffer (conns W o1))) + length ds \<le> vec_max_size"
    and st: "c_state (conns W o1) \<noteq> kDisconnected" and W': "sendInLoop ctl w ds o1 W = Inr W'"
  shows "stream_step (if refused_send w ds o1 W then [] else ds) o1 W W'" "c_state (conns W' o1) = c_state (conns W o1)"
    "same_life o1 W W'" "runnable view P o1 W'"
    "length (store (outputBuffer (conns W' o1))) \<le> length (store (outputBuffer (conns W o1))) + length ds"
  using sendInLoop_runnable [OF doc r w len room] sendInLoop_wire [OF W'] W' st
  by (auto simp: stream_step_def same_life_def)

lemma handleWrite_stream:
  assumes doc: "epoll_documented ctl view" and r: "runnable view P o1 W" and w: "write_documented w"
    and W': "handleWrite ctl w o1 W = Inr W'"
  shows "W' = W \<or> life_in o1 W = Live \<and> stream_step [] o1 W W'"
proof (cases "c_state (conns W o1) = kDisconnected")
  case True
  then show ?thesis using W' runnable_closing(2) [OF r] by (simp add: handleWrite_def)
next
  case False
  have "sent o1 W' = sent o1 W" using handleWrite_ok [OF doc runnable_live(2) [OF r False] w] W' by auto
  moreover have "life_in o1 W' = life_in o1 W"
    using handleWrite_runnable [OF doc r w] W' by (auto simp: same_life_def)
  ultimately show ?thesis
    using handleWrite_wire [OF W'] runnable_live(1) [OF r False] by (simp add: stream_step_def)
qed

text \<open>A session of the user.\<close>

definition with_hist :: "(obj \<Rightarrow> char list list) \<Rightarrow> history \<Rightarrow> told" where
  "with_hist Q H q = (Q q, H q)"

lemma note_act_other: "q \<noteq> o1 \<Longrightarrow> note_act o1 a W H q = H q"
  by (cases a) (simp_all add: note_send_def)

lemma note_session_other: "q \<noteq> o1 \<Longrightarrow> note_session ctl o1 as W H q = H q"
  by (induction as arbitrary: W H) (auto simp: note_act_other split: sum.splits)

lemma user_act_spec:
  assumes doc: "epoll_documented ctl view" and r: "runnable view P o1 W" and l: "life_in o1 W = Live" and a: "user_allowed a"
    and room: "length (store (outputBuffer (conns W o1))) + user_cost a \<le> vec_max_size"
    and W': "user_step ctl o1 a W = Inr W'" and m: "m o1 = Some (io_view (with_hist Q H) o1 W)"
  shows "spec_runs m (m(o1 \<mapsto> io_view (with_hist Q (note_act o1 a W H)) o1 W'))" "life_in o1 W' = Live"
proof -
  show l': "life_in o1 W' = Live"
    using usr.act_ok [OF conjI [OF doc r] a room] W' l by (auto simp: same_life_def)
  have same: "spec_runs m (m(o1 \<mapsto> io_view (with_hist Q (note_act o1 a W H)) o1 W'))"
    if "io_view (with_hist Q (note_act o1 a W H)) o1 W' = io_view (with_hist Q H) o1 W"
    using m that by (simp add: map_upd_triv)
  show "spec_runs m (m(o1 \<mapsto> io_view (with_hist Q (note_act o1 a W H)) o1 W'))"
  proof (cases a)
    case (USend w ds)
    show ?thesis
    proof (cases "c_state (conns W o1) = kConnected")
      case True
      then have s: "sendInLoop ctl w ds o1 W = Inr W'"
        using W' USend by (simp add: send_string_def isInLoopThread_def)
      have "write_documented w" "length ds < 2 ^ 31" "length (store (outputBuffer (conns W o1))) + length ds \<le> vec_max_size"
        "c_state (conns W o1) \<noteq> kDisconnected"
        using a room USend True by simp_all
      note s = sendInLoop_stream(1) [OF doc r this s]
      show ?thesis by (rule stream_give_spec [where X = "with_hist Q H" and m = m, OF s l m]) (simp add: USend True note_send_def with_hist_def)
    qed (use W' USend same in \<open>simp add: send_string_def\<close>)
  next
    case UShutdown
    then have "wire (conns W' o1) = wire (conns W o1) \<and> outputBuffer (conns W' o1) = outputBuffer (conns W o1)"
      using W' by (auto simp: conn_shutdown_def runInLoop_def isInLoopThread_def setState_def shutdownInLoop_def split: if_splits)
    then show ?thesis using l l' UShutdown same by (simp add: io_view_def)
  next
    case (UConsume n)
    then have "W' = set_conn o1 (\<lambda>c. c\<lparr>inputBuffer := retrieve n (inputBuffer c)\<rparr>) W" using W' by simp
    then show ?thesis using l l' UConsume same by (simp add: io_view_def)
  qed
qed

lemma user_session_spec:
  assumes doc: "epoll_documented ctl view" and r: "runnable view P o1 W" and l: "life_in o1 W = Live" and a: "\<forall>a\<in>set as. user_allowed a"
    and room: "length (store (outputBuffer (conns W o1))) + sum_list (map user_cost as) \<le> vec_max_size"
    and W': "run_all (user_step ctl o1) as W = Inr W'" and m: "m o1 = Some (io_view (with_hist Q H) o1 W)"
  shows "spec_runs m (m(o1 \<mapsto> io_view (with_hist Q (note_session ctl o1 as W H)) o1 W'))"
  using r l a room W' m
proof (induction as arbitrary: W H m)
  case Nil
  then show ?case by (simp add: map_upd_triv)
next
  case (Cons a as)
  have 1: "user_allowed a" "length (store (outputBuffer (conns W o1))) + user_cost a \<le> vec_max_size"
    using Cons.prems(3,4) by simp_all
  obtain W1 where W1: "user_step ctl o1 a W = Inr W1" "runnable view P o1 W1"
      "length (store (outputBuffer (conns W1 o1))) \<le> length (store (outputBuffer (conns W o1))) + user_cost a"
    using usr.act_ok [OF conjI [OF doc Cons.prems(1)] 1] by blast
  note v = user_act_spec [where m = m and Q = Q and H = H, OF doc Cons.prems(1,2) 1 W1(1) Cons.prems(6)]
  let ?m = "m(o1 \<mapsto> io_view (with_hist Q (note_act o1 a W H)) o1 W1)"
  have "spec_runs ?m (?m(o1 \<mapsto> io_view (with_hist Q (note_session ctl o1 as W1 (note_act o1 a W H))) o1 W'))"
    by (rule Cons.IH [OF W1(2) v(2)]) (use Cons.prems(3-5) W1 in simp_all)
  then have "spec_runs ?m (m(o1 \<mapsto> io_view (with_hist Q (note_session ctl o1 as W1 (note_act o1 a W H))) o1 W'))"
    by (simp only: fun_upd_upd)
  with v(1) have "spec_runs m (m(o1 \<mapsto> io_view (with_hist Q (note_session ctl o1 as W1 (note_act o1 a W H))) o1 W'))"
    by (rule spec_runs_trans)
  then show ?case by (simp only: note_session.simps W1(1) sum.case)
qed

text \<open>The life cycle; closing again changes nothing, nor does a second destruction.\<close>

lemma same_out_view:
  "same_out (conns W o1) (conns W' o1) \<Longrightarrow> io_view X o1 W' = (io_view X o1 W)\<lparr>v_life := life_in o1 W'\<rparr>"
  by (simp add: same_out_def io_view_def)

lemma handleClose_spec:
  assumes doc: "epoll_documented ctl view" and r: "runnable view P o1 W" and m: "m o1 = Some (io_view X o1 W)"
    and W': "handleClose ctl (\<lambda>_. Inr) o1 W = Inr W'"
  shows "spec_runs m (m(o1 \<mapsto> io_view X o1 W'))"
proof -
  have c: "life_in o1 W' = Closing" using handleClose_closing [OF doc r] W' by simp
  have "same_out (conns W o1) (conns W' o1)"
    using W' by (auto simp: handleClose_def rbind_eq_Inr call_connection_def call_user_def setState_def same_out_def
        dest!: event_ops_conns split: if_splits)
  then have v: "io_view X o1 W' = (io_view X o1 W)\<lparr>v_life := Closing\<rparr>" using same_out_view c by metis
  have "life_in o1 W \<in> {Live, Closing}" using r by (simp add: runnable_def)
  then consider "v_life (io_view X o1 W) = Live" | "io_view X o1 W' = io_view X o1 W"
    using v by (auto simp: io_view_def)
  then show ?thesis
  proof cases
    case 1
    then show ?thesis using spec_close [where m = m and q = o1 and v = "io_view X o1 W", OF m] v by (simp add: spec_runs_one)
  qed (use m in \<open>simp add: map_upd_triv\<close>)
qed

lemma established_conn:
  assumes W': "connectionEstablished ctl o1 W = Inr W'"
  shows "conns W' o1 = (conns W o1)\<lparr>c_state := kConnected\<rparr>"
  using assms by (auto simp: connectionEstablished_def Let_def rbind_eq_Inr call_connection_def call_user_def setState_def
      dest!: event_ops_conns split: if_splits)

lemma connectionEstablished_spec:
  assumes W': "connectionEstablished ctl o1 W = Inr W'" and l: "life_in o1 W = Fresh" and m: "m o1 = Some (io_view X o1 W)"
  shows "spec_runs m (m(o1 \<mapsto> io_view X o1 W'))"
proof -
  have "conns W' o1 = (conns W o1)\<lparr>c_state := kConnected\<rparr>" using W' by (rule established_conn)
  then have "io_view X o1 W' = (io_view X o1 W)\<lparr>v_life := Live\<rparr>" by (simp add: io_view_def in_defs life_of_def)
  then show ?thesis using spec_establish [where m = m and q = o1 and v = "io_view X o1 W", OF m] l
    by (simp add: spec_runs_one io_view_def)
qed

lemma connectDestroyed_spec:
  assumes doc: "epoll_documented ctl view" and inv: "poller_inv view P W" and o1: "o1 \<in> P"
    and wf: "wf_in o1 W" and l: "life_in o1 W \<in> {Closing, Gone}" and m: "m o1 = Some (io_view X o1 W)"
    and none: "fst (X o1) = []" and W': "connectDestroyed ctl o1 W = Inr W'"
  shows "spec_runs m (m(o1 \<mapsto> io_view X o1 W'))"
proof -
  have g: "life_in o1 W' = Gone" "framed o1 W W'" using connectDestroyed_gone [OF doc inv o1 wf l] W' by simp_all
  have d: "c_state (conns W o1) = kDisconnected" using l by (auto simp: in_defs life_of_def split: if_splits)
  obtain V where V: "removeChannel ctl o1 W = Inr V" "stepped view P o1 (ch_events (chans W o1)) kNew W V"
    using remove_steps [OF doc inv o1] by blast
  have "c_chan (conns W o1) = o1" using wf by (simp add: in_defs conn_wf_def)
  then have "W' = V" using W' d V(1) by (simp add: connectDestroyed_def Let_def)
  then have "conns W' = conns W" using stepped_io(1) [OF V(2)] by simp
  then have v: "io_view X o1 W' = (io_view X o1 W)\<lparr>v_life := Gone\<rparr>" using g(1) by (simp add: io_view_def)
  then consider "v_life (io_view X o1 W) = Closing" | "io_view X o1 W' = io_view X o1 W"
    using l by (auto simp: io_view_def)
  then show ?thesis
  proof cases
    case 1
    then show ?thesis using spec_destroy [where m = m and q = o1 and v = "io_view X o1 W", OF m] v none by (simp add: spec_runs_one io_view_def)
  qed (use m in \<open>simp add: map_upd_triv\<close>)
qed

section \<open>What each callback and functor does to the directory\<close>

lemma queue_view [simp]: "io_view X q (queueInLoop tid t W) = io_view X q W"
  by (simp add: io_view_def in_defs queue_defs)

lemma removeConnectionInLoop_view:
  assumes "removeConnectionInLoop tid o1 S = Inr S'"
  shows "spec_view h X S' = spec_view h X S"
  using assms by (intro spec_view_eqI) (auto simp: removeConnectionInLoop_def Let_def upd_io_Inr view_of_def)

lemma removeConnection_view:
  assumes "removeConnection tid o1 S = Inr S'"
  shows "spec_view h X S' = spec_view h X S"
proof (cases "isInLoopThread tid (ios S (s_loop S))")
  case True
  then show ?thesis using assms removeConnectionInLoop_view by (simp add: removeConnection_def run_in_def)
next
  case False
  then show ?thesis using assms
    by (intro spec_view_eqI) (auto simp: removeConnection_def run_in_def upd_io_Inr view_of_def)
qed

lemma server_handleClose_spec:
  assumes doc: "epoll_documented ctl view" and inv: "srv_inv view h {} R S" and o1: "created h S o1"
    and l: "life_at S o1 \<in> {Live, Closing}" and S': "server_handleClose ctl tid o1 S = Inr S'"
  shows "spec_runs (spec_view h X S) (spec_view h X S')"
proof -
  let ?W = "ios S (conn_loop S o1)"
  note r = inv_runnable [OF inv _ o1 refl l, simplified]
  obtain W where W: "handleClose ctl (\<lambda>_. Inr) o1 ?W = Inr W"
      "removeConnection tid o1 (S\<lparr>ios := (ios S)(conn_loop S o1 := W)\<rparr>) = Inr S'"
    using S' by (auto simp: server_handleClose_def upd_io_def rbind_eq_Inr)
  have f: "framed o1 ?W W" using handleClose_closing [OF doc r(1)] W(1) by simp
  have "spec_runs (spec_view h X S) ((spec_view h X S)(o1 \<mapsto> io_view X o1 W))"
    by (rule handleClose_spec [where m = "spec_view h X S", OF doc r(1) spec_view_own [OF o1] W(1)])
  then show ?thesis using own_view [OF f o1 refl refl] removeConnection_view [OF W(2)] by simp
qed

lemma server_handleRead_spec:
  assumes doc: "epoll_documented ctl view" and inv: "srv_inv view h {} R S" and o1: "created h S o1"
    and l: "life_at S o1 \<in> {Live, Closing}" and b: "buffer_inv (inputBuffer (conns (ios S (conn_loop S o1)) o1))"
    and f: "readv_documented f" "f (iov_lens (inputBuffer (conns (ios S (conn_loop S o1)) o1))) = ROk ds"
    and room: "length (store (inputBuffer (conns (ios S (conn_loop S o1)) o1))) + kExtraSize \<le> vec_max_size"
    and S': "server_handleRead ctl tid f o1 S = Inr S'"
  shows "spec_runs (spec_view h X S) (spec_view h X S')"
proof -
  let ?l = "conn_loop S o1"
  note r = inv_runnable [OF inv _ o1 refl l, simplified]
  obtain b' where b': "readFd f (inputBuffer (conns (ios S ?l) o1)) = Inr (of_nat (length ds), None, b')" "buffer_inv b'"
    using readFd_sint(1) [OF b f room] by blast
  define W where "W = set_conn o1 (\<lambda>c. c\<lparr>inputBuffer := b'\<rparr>) (ios S ?l)"
  define S1 where "S1 = S\<lparr>ios := (ios S)(?l := W)\<rparr>"
  have W: "runnable view (used_chans h R S ?l) o1 W" "same_life o1 (ios S ?l) W"
    using set_conn_runnable [OF r(1), of "\<lambda>c. c\<lparr>inputBuffer := b'\<rparr>"] b'(2) unfolding W_def by simp_all
  have i: "srv_inv view h {} R S1" "step_of o1 S S1" unfolding S1_def using inv_same_life [OF inv o1 refl W, of R] by simp_all
  have v: "io_view X o1 W = io_view X o1 (ios S ?l)" using W(2) by (simp add: W_def io_view_def same_life_def)
  have "framed o1 (ios S ?l) W" using W(2) by (simp add: same_life_def)
  then have s: "spec_view h X S1 = spec_view h X S"
    unfolding S1_def using own_view [OF _ o1 refl refl, of W] v spec_view_own [OF o1] by (simp add: map_upd_triv)
  let ?n = "sint (of_nat (length ds) :: size_t)" and ?f = "\<lambda>W. call_user (messageCallback (conns W o1)) (MessageCall o1) W"
  have "upd_io ?l (\<lambda>W. Inr (set_conn o1 (\<lambda>c. c\<lparr>inputBuffer := b'\<rparr>) W)) S = Inr S1"
    by (simp add: upd_io_def S1_def W_def)
  then have "server_handleRead ctl tid f o1 S = (if 0 < ?n then upd_io ?l ?f S1
      else if ?n = 0 then server_handleClose ctl tid o1 S1 else Inr S1)"
    by (simp add: server_handleRead_def Let_def b'(1))
  then consider "upd_io ?l ?f S1 = Inr S'" | "server_handleClose ctl tid o1 S1 = Inr S'" | "S' = S1"
    using if_res [OF _ S'] by blast
  then show ?thesis
  proof cases
    case 1
    then obtain V where V: "?f (ios S1 ?l) = Inr V" "S' = S1\<lparr>ios := (ios S1)(?l := V)\<rparr>"
      unfolding upd_io_Inr by blast
    then have "quiet (ios S1 ?l) V" using quiet_refl_upd(2) by (auto simp: call_user_def split: if_splits)
    from quiet_view [OF this] show ?thesis using V(2) s by simp
  next
    case 2
    have "created h S1 o1" using o1 by (simp add: S1_def created_def)
    moreover have "life_at S1 o1 \<in> {Live, Closing}" using i(2) l by (auto simp: step_of_def)
    ultimately show ?thesis using server_handleClose_spec [where X = X, OF doc i(1) _ _ 2] s by simp
  next
    case 3
    then show ?thesis using s by simp
  qed
qed

text \<open>A new connection appears, and is established at once when its loop is the server's own.\<close>

lemma newConnection_spec:
  assumes inv: "srv_inv view h {} R S" and g: "grown h S S'" and S': "newConnection ctl tid fd S = Inr S'"
    and new_told: "X (next_obj S) = ([], [])"
  shows "spec_runs (spec_view h X S) (spec_view h X S')"
proof -
  let ?o = "next_obj S"
  obtain l pl S2 S3 where n: "getNextLoop (threadPool S) = Inr (l, pl)" "bump_conn_id (S\<lparr>threadPool := pl\<rparr>) = Inr S2"
      "make_connection (conn_name (S\<lparr>threadPool := pl\<rparr>)) fd l S2 = Inr S3"
      "run_in tid l (ConnectionEstablished ?o) (upd_io l (connectionEstablished ctl ?o)) S3 = Inr S'"
    using S' by (auto simp: newConnection_def Let_def rbind_eq_Inr)
  have S2: "S2 = S\<lparr>threadPool := pl, nextConnId := nextConnId S + 1\<rparr>" using n(2) by (auto simp: bump_conn_id_def split: if_splits)
  have old: "view_of X S' q = view_of X S q" if "created h S q" for q
  proof -
    have "q \<noteq> ?o" "conn_loop S' q = conn_loop S q" using that g by (auto simp: created_def grown_def)
    moreover have "others_same ?o S S'" using g by (simp add: grown_def)
    ultimately show ?thesis by (simp add: view_of_def io_view_def others_same_def in_defs)
  qed
  have h: "h \<le> ?o" "next_obj S' = Suc ?o" using inv g by (simp_all add: srv_inv_def grown_def)
  have new: "spec_view h X S' = (spec_view h X S)(?o \<mapsto> view_of X S' ?o)"
  proof
    fix q
    show "spec_view h X S' q = ((spec_view h X S)(?o \<mapsto> view_of X S' ?o)) q"
      using h old [of q] by (cases "q = ?o") (auto simp: spec_view_def created_def less_Suc_eq)
  qed
  have none: "spec_view h X S ?o = None" by (simp add: spec_view_def created_def)
  let ?v = "\<lparr>v_life = Fresh, v_wire = [], v_pending = [], v_queued = [], v_given = []\<rparr>"
  have "contents b = []" if "buffer_new kInitialSize = Inr b" for b
    using buffer_new_ok [of kInitialSize] that by (simp add: kInitialSize_def vec_max_size_def)
  then have v3: "view_of X S3 ?o = ?v" and l3: "conn_loop S3 ?o = l"
    using n(3)
    by (auto simp: S2 new_told make_connection_def Let_def upd_io_Inr rbind_eq_Inr TcpConnection_new_def conn_new_def view_of_def
        io_view_def in_defs life_of_def)
  have acc: "spec_step (spec_view h X S) ((spec_view h X S)(?o \<mapsto> ?v))" using none by (rule spec_accept)
  show ?thesis
  proof (cases "isInLoopThread tid (ios S3 l)")
    case True
    then obtain W where W: "connectionEstablished ctl ?o (ios S3 l) = Inr W" "S' = S3\<lparr>ios := (ios S3)(l := W)\<rparr>"
      using n(4) by (auto simp: run_in_def upd_io_Inr)
    have v: "io_view X ?o (ios S3 l) = ?v" "view_of X S' ?o = io_view X ?o W" using v3 l3 W(2) by (simp_all add: view_of_def)
    then have "life_in ?o (ios S3 l) = Fresh" by (simp add: io_view_def)
    then have "spec_runs ((spec_view h X S)(?o \<mapsto> ?v)) ((spec_view h X S)(?o \<mapsto> ?v, ?o \<mapsto> io_view X ?o W))"
      by (rule connectionEstablished_spec [OF W(1)]) (simp add: v(1))
    then show ?thesis using acc new v(2) by (simp add: spec_runs_trans [OF spec_runs_one])
  next
    case False
    then have "view_of X S' ?o = ?v" using n(4) v3 l3 by (auto simp: run_in_def upd_io_Inr view_of_def)
    then show ?thesis using acc new by (simp add: spec_runs_one)
  qed
qed

section \<open>Every step of every thread\<close>

lemma handleWrite_view:
  assumes doc: "epoll_documented ctl view" and inv: "srv_inv view h {} R S" and o1: "created h S o1"
    and l: "life_at S o1 \<in> {Live, Closing}" and w: "write_documented w"
    and S': "upd_io (conn_loop S o1) (handleWrite ctl w o1) S = Inr S'"
  shows "spec_runs (spec_view h X S) (spec_view h X S')"
proof -
  note r = inv_runnable [OF inv _ o1 refl l, simplified]
  obtain W where W: "handleWrite ctl w o1 (ios S (conn_loop S o1)) = Inr W" "S' = S\<lparr>ios := (ios S)(conn_loop S o1 := W)\<rparr>"
    using S' unfolding upd_io_Inr by blast
  have f: "framed o1 (ios S (conn_loop S o1)) W" using handleWrite_runnable [OF doc r(1) w] W(1) by (auto simp: same_life_def)
  from handleWrite_stream [OF doc r(1) w W(1)] show ?thesis
  proof
    assume "W = ios S (conn_loop S o1)"
    then show ?thesis using W(2) by simp
  next
    assume s: "life_in o1 (ios S (conn_loop S o1)) = Live \<and> stream_step [] o1 (ios S (conn_loop S o1)) W"
    show ?thesis unfolding W(2) own_view [OF f o1 refl refl]
      by (rule stream_write_spec) (use s spec_view_own [OF o1] in simp_all)
  qed
qed

lemma callback_spec:
  assumes doc: "epoll_documented ctl view" and inv: "srv_inv view h {} R S" and l: "l \<in> loop_set S"
    and c: "cb_fine h S l c" and env: "env_ok al E c S"
    and alive: "\<And>q. created h S q \<Longrightarrow> held R S q \<Longrightarrow> al q"
    and S': "run_callback ctl l E c S = Inr S'" and new_told: "X (next_obj S) = ([], [])"
  shows "spec_runs (spec_view h X S) (spec_view h X S')"
proof (cases c)
  case LoopHandleRead
  have "quiet (ios S l) ((ios S l)\<lparr>wakeups := 0\<rparr>)" by (rule quiet_refl_upd)
  from quiet_view [OF this] show ?thesis using S' LoopHandleRead by (simp add: upd_io_def handleWakeup_def)
next
  case AcceptorHandleRead
  show ?thesis
  proof (cases "acceptor_handleRead (e_accept E) (s_acceptor S)")
    case (NewConnection fd peer)
    have "env_ok al E AcceptorHandleRead S" using env AcceptorHandleRead by simp
    from accept_ok [where alive = al and E = E, OF doc inv this alive NewConnection]
    have n: "newConnection ctl (threadId (ios S (s_loop S))) fd S = Inr S'" "grown h S S'"
      using S' c AcceptorHandleRead NewConnection by auto
    from newConnection_spec [where X = X, OF inv n(2,1) new_told] show ?thesis .
  qed (use S' AcceptorHandleRead in simp_all)
next
  case (ConnHandleRead o1)
  then have o1: "created h S o1" "life_at S o1 \<in> {Live, Closing}" using c by (simp_all add: usable_def)
  let ?b = "inputBuffer (conns (ios S (conn_loop S o1)) o1)"
  have "reads_ok E c S" by (rule returned_reads [OF inv c S'])
  then have e: "readv_documented (e_readv E)" "\<exists>ds. e_readv E (iov_lens ?b) = ROk ds" "length (store ?b) + kExtraSize \<le> vec_max_size"
    using env ConnHandleRead by (simp_all add: Let_def reads_ok_def)
  obtain ds where ds: "e_readv E (iov_lens ?b) = ROk ds" using e(2) by blast
  have "obj_inv h R S o1" using srv_invD(4) [OF inv o1(1)] by simp
  then have "buffer_inv ?b" by (simp add: obj_inv_def wf_in_def conn_wf_def)
  from server_handleRead_spec [OF doc inv o1 this e(1) ds e(3)] S' show ?thesis using ConnHandleRead by simp
next
  case (ConnHandleWrite o1)
  then have o1: "created h S o1" "life_at S o1 \<in> {Live, Closing}" using c by (simp_all add: usable_def)
  have "write_documented (e_write E)" using env ConnHandleWrite by simp
  from handleWrite_view [OF doc inv o1 this] S' show ?thesis using ConnHandleWrite by simp
next
  case (ConnHandleClose o1)
  then have o1: "created h S o1" "life_at S o1 \<in> {Live, Closing}" using c by (simp_all add: usable_def)
  from server_handleClose_spec [OF doc inv o1] S' show ?thesis using ConnHandleClose by simp
qed (use c in simp)

text \<open>
  A functor queued by another thread: its chunk is given to the connection when it runs, and dropped if the
  connection has closed by then.
\<close>

lemma send_task_spec:
  assumes doc: "epoll_documented ctl view" and inv: "srv_inv view h {} R S" and l: "l \<in> loop_set S"
    and t: "SendInLoopStr o1 ds \<in> set (todo R S l)" and ok: "task_ok E (SendInLoopStr o1 ds) S"
    and S': "run_task ctl l E (SendInLoopStr o1 ds) S = Inr S'"
    and X: "X o1 = (ds # dss, H o1)" "X' o1 = (dss, note_task E (SendInLoopStr o1 ds) S H o1)" "\<And>q. q \<noteq> o1 \<Longrightarrow> X' q = X q"
  shows "spec_runs (spec_view h X S) (spec_view h X' S')"
proof -
  have raw: "raw_task o1 (SendInLoopStr o1 ds)" "life_task o1 (SendInLoopStr o1 ds)" by (simp_all add: life_task_def)
  note a = life_task_at [OF inv l t raw(2)]
  have e: "l = conn_loop S o1" "life_at S o1 \<in> {Live, Closing}" using a(5) [OF raw(1)] by simp_all
  let ?W = "ios S (conn_loop S o1)"
  note r = inv_runnable [OF inv _ a(1) refl e(2), simplified]
  obtain W where W: "sendInLoop ctl (e_write E) ds o1 ?W = Inr W" "S' = S\<lparr>ios := (ios S)(conn_loop S o1 := W)\<rparr>"
    using S' by (auto simp: upd_io_Inr e(1))
  note m = spec_view_own [where X = X, OF a(1)]
  show ?thesis
  proof (cases "c_state (conns ?W o1) = kDisconnected")
    case True
    then have "W = ?W" using W(1) by (simp add: sendInLoop_def)
    then have S: "S' = S" using W(2) by simp
    have "v_life (io_view X o1 ?W) = Closing"
      using runnable_closing(1) [OF r(1) True] by (simp add: io_view_def)
    then have d: "spec_step (spec_view h X S) ((spec_view h X S)(o1 \<mapsto> (io_view X o1 ?W)\<lparr>v_queued := dss\<rparr>))"
      by (intro spec_drop [where m = "spec_view h X S", OF m]) (simp_all add: io_view_def X(1))
    have "io_view X' o1 ?W = (io_view X o1 ?W)\<lparr>v_queued := dss\<rparr>"
      using X(1,2) True by (simp add: io_view_def Let_def)
    moreover have "spec_view h X' S = (spec_view h X S)(o1 \<mapsto> view_of X' S o1)"
      by (rule spec_view_updI [OF refl a(1)]) (simp add: view_of_def io_view_def X(3))
    ultimately show ?thesis using d S by (simp add: view_of_def spec_runs_one)
  next
    case False
    have w: "write_documented (e_write E)" "length ds < 2 ^ 31"
      "length (store (outputBuffer (conns ?W o1))) + length ds \<le> vec_max_size"
      using ok srv_invD(3) [OF inv l t] by simp_all
    note s = sendInLoop_stream [OF doc r(1) w False W(1)]
    have f: "framed o1 ?W W" using s(3) by (simp add: same_life_def)
    have own: "spec_view h X' S' = (spec_view h X S)(o1 \<mapsto> io_view X' o1 W)"
      unfolding W(2) by (rule own_view [OF f a(1) refl X(3)])
    show ?thesis unfolding own
    proof (rule stream_give_spec [where X = X and m = "spec_view h X S", OF s(1) _ m])
      show "life_in o1 ?W = Live" by (rule runnable_live(1) [OF r(1) False])
      show "X' o1 = (fst (X o1), snd (X o1) @ [(ds, refused_send (e_write E) ds o1 ?W)])
        \<or> (\<exists>dss. X o1 = (ds # dss, snd (X o1)) \<and> X' o1 = (dss, snd (X o1) @ [(ds, refused_send (e_write E) ds o1 ?W)]))"
        using False by (simp add: X(1,2) Let_def note_send_def)
    qed
  qed
qed

lemma shutdown_task_spec:
  assumes inv: "srv_inv view h {} R S" and l: "l \<in> loop_set S"
    and t: "ShutdownInLoop o1 \<in> set (todo R S l)" and S': "run_task ctl l E (ShutdownInLoop o1) S = Inr S'"
  shows "spec_view h X S' = spec_view h X S"
proof -
  have raw: "raw_task o1 (ShutdownInLoop o1)" "life_task o1 (ShutdownInLoop o1)" by (simp_all add: life_task_def)
  note a = life_task_at [OF inv l t raw(2)]
  have e: "l = conn_loop S o1" "life_at S o1 \<in> {Live, Closing}" using a(5) [OF raw(1)] by simp_all
  note r = inv_runnable [OF inv _ a(1) refl e(2), simplified]
  let ?W = "ios S (conn_loop S o1)"
  have "same_life o1 ?W (shutdownInLoop o1 ?W)" using shutdownInLoop_runnable [OF r(1)] by blast
  then have f: "framed o1 ?W (shutdownInLoop o1 ?W)" and v: "io_view X o1 (shutdownInLoop o1 ?W) = io_view X o1 ?W"
    by (auto simp: same_life_def io_view_def shutdownInLoop_def)
  have "S' = S\<lparr>ios := (ios S)(conn_loop S o1 := shutdownInLoop o1 ?W)\<rparr>" using S' by (auto simp: upd_io_Inr e(1))
  then show ?thesis using own_view [where X = X, OF f a(1) refl refl] v spec_view_own [OF a(1)] by (simp add: map_upd_triv)
qed

lemma task_spec:
  assumes doc: "epoll_documented ctl view" and inv: "srv_inv view h {} R S" and l: "l \<in> loop_set S"
    and R: "R l = t # ts" and S': "run_task ctl l E t S = Inr S'" and t: "\<And>q ds. t \<noteq> SendInLoopStr q ds"
    and gone: "\<And>q. life_at S' q = Gone \<Longrightarrow> created h S' q \<Longrightarrow> fst (X q) = []"
  shows "spec_runs (spec_view h X S) (spec_view h X S')"
proof -
  have m: "t \<in> set (todo R S l)" using R by (simp add: todo_def)
  note f = srv_invD(3) [OF inv l m]
  have quiet: "spec_view h X (S\<lparr>ios := (ios S)(l := (ios S l)\<lparr>calls := cs\<rparr>)\<rparr>) = spec_view h X S" for cs
    by (rule quiet_view) (rule quiet_refl_upd)
  show ?thesis
  proof (cases t)
    case (ConnectionEstablished o1)
    note a = established_task [OF inv l m [unfolded ConnectionEstablished]]
    obtain W where W: "connectionEstablished ctl o1 (ios S l) = Inr W" "S' = S\<lparr>ios := (ios S)(l := W)\<rparr>"
      using S' ConnectionEstablished by (auto simp: upd_io_Inr)
    have fr: "framed o1 (ios S l) W" using established_live [OF doc srv_invD(1) [OF inv l] a(6,4,5)] W(1) by auto
    have m: "spec_view h X S o1 = Some (io_view X o1 (ios S l))" using spec_view_own [OF a(1)] a(2) by simp
    show ?thesis unfolding W(2) own_view [OF fr a(1,2) refl]
      by (rule connectionEstablished_spec [where m = "spec_view h X S", OF W(1) a(5) m])
  next
    case (ConnectDestroyed o1)
    note a = destroyed_task [OF inv l m [unfolded ConnectDestroyed]]
    obtain W where W: "connectDestroyed ctl o1 (ios S l) = Inr W" "S' = S\<lparr>ios := (ios S)(l := W)\<rparr>"
      using S' ConnectDestroyed by (auto simp: upd_io_Inr)
    have fr: "framed o1 (ios S l) W" "life_in o1 W = Gone"
      using connectDestroyed_gone [OF doc srv_invD(1) [OF inv l] a(6,4,5)] W(1) by auto
    have m: "spec_view h X S o1 = Some (io_view X o1 (ios S l))" using spec_view_own [OF a(1)] a(2) by simp
    have "fst (X o1) = []" by (rule gone) (use fr(2) W(2) a(1,2) in \<open>simp_all add: life_at_def created_def\<close>)
    then show ?thesis unfolding W(2) own_view [OF fr(1) a(1,2) refl]
      by (rule connectDestroyed_spec [where m = "spec_view h X S", OF doc srv_invD(1) [OF inv l] a(6,4,5) m _ W(1)])
  next
    case (RemoveConnectionInLoop o1)
    then show ?thesis using S' removeConnectionInLoop_view [of _ o1 S S' h X] by simp
  next
    case (SendInLoopStr o1 ds)
    then show ?thesis using t by simp
  next
    case (ShutdownInLoop o1)
    then show ?thesis using shutdown_task_spec [OF inv l, of o1 ctl E S' X] m S' by simp
  qed (use f S' quiet in \<open>auto simp: upd_io_Inr call_user_def split: if_splits\<close>)
qed

lemma upd_loop_view:
  assumes "quiet (ios S l) W"
  shows "spec_view h X (upd_loop l W S) = spec_view h X S"
  using quiet_view [OF assms] by (simp add: upd_loop_def)

lemma setState_view:
  assumes "life_in o1 W = Live"
  shows "io_view X q (setState kDisconnecting o1 W) = io_view X q W"
  using assms by (auto simp: io_view_def setState_def in_defs life_of_def split: if_splits)

section \<open>What waits in the queues and what was given\<close>

text \<open>A destroyed connection has no send queued.\<close>

lemma gone_flight:
  assumes inv: "world_inv view h w" and q: "created h (srv w) q" "life_at (srv w) q = Gone"
  shows "flight w q = []"
proof -
  note i = world_invD(1) [OF inv]
  have o: "obj_inv h (rests w) (srv w) q" using srv_invD(4) [OF i q(1)] by simp
  then have l: "conn_loop (srv w) q \<in> loop_set (srv w)" by (simp add: obj_inv_def)
  have "chunk_of q t = []" if "t \<in> set (todo (rests w) (srv w) (conn_loop (srv w) q))" for t
  proof (cases "raw_task q t")
    case True
    then have "t \<in> set (life_tasks (rests w) (srv w) q (conn_loop (srv w) q))"
      using that by (simp add: life_tasks_def life_task_def)
    from waiting_mem [OF obj_inv_waiting [OF o _ l] this] q(2) have "t \<in> closing_tasks (srv w) q (conn_loop (srv w) q)" by simp
    then show ?thesis by (auto simp: closing_tasks_def split: if_splits)
  qed (cases t; simp)
  then show ?thesis by (simp add: flight_def chunks_def)
qed

text \<open>A connection that does not exist yet has no history, and in the loops no send queued.\<close>

definition hist_inv :: "nat \<Rightarrow> 'k world \<Rightarrow> bool" where
  "hist_inv h w \<longleftrightarrow> (\<forall>q. \<not> created h (srv w) q \<longrightarrow> hist w q = [])"

lemma uncreated_chunks:
  assumes inv: "srv_inv view h {} R S" and q: "\<not> created h S q" and l: "l \<in> loop_set S"
  shows "chunks q (todo R S l) = []"
proof -
  have "chunk_of q t = []" if "t \<in> set (todo R S l)" for t
  proof (cases "life_task q t")
    case True
    from life_task_at(1) [OF inv l that this] q show ?thesis by simp
  qed (cases t; simp add: life_task_def)
  then show ?thesis by (simp add: chunks_def)
qed

lemma callback_told:
  assumes doc: "epoll_documented ctl view" and inv: "world_inv view h w" and hi: "hist_inv h w"
    and c: "l \<in> loop_set (srv w)" "cb_fine h (srv w) l c" "env_ok (alive w) E c (srv w)"
      "run_callback ctl l E c (srv w) = Inr (srv w')" "rests w' = rests w" "hist w' = hist w"
  shows "created h (srv w) q \<Longrightarrow> told_of w' q = told_of w q" "told_of w' (next_obj (srv w)) = ([], []) \<or> next_obj (srv w') = next_obj (srv w)"
proof -
  let ?S = "srv w" and ?S' = "srv w'"
  note i = world_invD(1) [OF inv]
  have p: "chunks q (pendingFunctors (ios ?S' m)) = chunks q (pendingFunctors (ios ?S m))" for q m
    by (rule queues_up_chunks [OF callback_pushes [OF c(4)]]) simp
  show "told_of w' q = told_of w q" if "created h ?S q"
  proof -
    have "conn_loop ?S' q = conn_loop ?S q"
    proof (cases "c = AcceptorHandleRead")
      case True
      show ?thesis
      proof (cases "acceptor_handleRead (e_accept E) (s_acceptor ?S)")
        case (NewConnection fd peer)
        have "env_ok (alive w) E AcceptorHandleRead ?S" using c(3) True by simp
        from accept_ok [where alive = "alive w" and E = E, OF doc i this alive_ok [OF inv] NewConnection]
        have "grown h ?S ?S'" using c(2,4) True NewConnection by auto
        then show ?thesis using that by (simp add: grown_def)
      qed (use c(4) True in simp_all)
    next
      case False
      then show ?thesis using callback_books [OF c(4)] by (simp add: same_books_def)
    qed
    then show ?thesis using p by (simp add: told_of_def flight_def todo_def c(5,6))
  qed
  show "told_of w' (next_obj ?S) = ([], []) \<or> next_obj ?S' = next_obj ?S"
  proof (cases "c = AcceptorHandleRead \<and> (\<exists>fd peer. acceptor_handleRead (e_accept E) (s_acceptor ?S) = NewConnection fd peer)")
    case True
    then obtain fd peer where n: "c = AcceptorHandleRead" "acceptor_handleRead (e_accept E) (s_acceptor ?S) = NewConnection fd peer" by blast
    have "env_ok (alive w) E AcceptorHandleRead ?S" using c(3) n(1) by simp
    from accept_ok [where alive = "alive w" and E = E, OF doc i this alive_ok [OF inv] n(2)]
    have g: "grown h ?S ?S'" "srv_inv view h {} (rests w) ?S'" using c(2,4) n by auto
    have o: "\<not> created h ?S (next_obj ?S)" by (simp add: created_def)
    have "created h ?S' (next_obj ?S)" using i g(1) by (simp add: created_def grown_def srv_inv_def)
    then have "obj_inv h (rests w) ?S' (next_obj ?S)" using srv_invD(4) [OF g(2)] by simp
    then have l: "conn_loop ?S' (next_obj ?S) \<in> loop_set ?S" using g(1) by (simp add: grown_def obj_inv_def)
    have "chunks (next_obj ?S) (todo (rests w) ?S (conn_loop ?S' (next_obj ?S))) = []" by (rule uncreated_chunks [OF i o l])
    then have "told_of w' (next_obj ?S) = ([], [])"
      using p hi o by (simp add: told_of_def flight_def todo_def c(5,6) hist_inv_def)
    then show ?thesis ..
  next
    case False
    then have "next_obj ?S' = next_obj ?S"
      using c(4) callback_books [OF c(4)] by (cases "c = AcceptorHandleRead") (auto simp: same_books_def split: accept_outcome.splits)
    then show ?thesis ..
  qed
qed

section \<open>Every step of every thread\<close>

lemma session_spec:
  assumes doc: "epoll_documented ctl view" and inv: "world_inv view h w" and u: "user_session ctl view h w w'"
  shows "spec_runs (world_view h w) (world_view h w')"
proof -
  obtain o1 as W where o1: "created h (srv w) o1" "life_at (srv w) o1 = Live"
      "runnable view (used_chans h (rests w) (srv w) (conn_loop (srv w) o1)) o1 (ios (srv w) (conn_loop (srv w) o1))"
      "\<forall>a\<in>set as. user_allowed a"
      "length (store (outputBuffer (conns (ios (srv w) (conn_loop (srv w) o1)) o1))) + sum_list (map user_cost as) \<le> vec_max_size"
      "run_all (user_step ctl o1) as (ios (srv w) (conn_loop (srv w) o1)) = Inr W"
      "same_life o1 (ios (srv w) (conn_loop (srv w) o1)) W"
      "srv w' = (srv w)\<lparr>ios := (ios (srv w))(conn_loop (srv w) o1 := W)\<rparr>" "rests w' = rests w"
      "hist w' = note_session ctl o1 as (ios (srv w) (conn_loop (srv w) o1)) (hist w)"
    using u unfolding user_session_def Let_def by blast
  have t: "told_of w = with_hist (flight w) (hist w)" "told_of w' = with_hist (flight w) (hist w')"
    using user_session_chunks [OF o1(6)] by (auto simp: told_of_def with_hist_def fun_eq_iff flight_def todo_def o1(8,9))
  have f: "framed o1 (ios (srv w) (conn_loop (srv w) o1)) W" using o1(7) by (simp add: same_life_def)
  have "told_of w' q = told_of w q" if "q \<noteq> o1" for q
    using that by (simp add: t with_hist_def o1(10) note_session_other)
  then have own: "spec_view h (told_of w') (srv w') = (spec_view h (told_of w) (srv w))(o1 \<mapsto> io_view (told_of w') o1 W)"
    unfolding o1(8) by (rule own_view [OF f o1(1) refl])
  have l: "life_in o1 (ios (srv w) (conn_loop (srv w) o1)) = Live" using o1(2) by (simp add: life_at_def)
  show ?thesis unfolding world_view_def own unfolding t o1(10)
    by (rule user_session_spec [where m = "spec_view h (with_hist (flight w) (hist w)) (srv w)",
      OF doc o1(3) l o1(4-6) spec_view_own [OF o1(1)]])
qed

lemma step_spec:
  assumes doc: "epoll_documented ctl view" and inv: "world_inv view h w" and hi: "hist_inv h w" and st: "server_step ctl view w w'"
  shows "spec_runs (world_view h w) (world_view h w')"
proof (cases rule: step_kinds [OF doc inv st, case_names quiet sent callback task user mark])
  case quiet
  then have "told_of w' = told_of w" by (simp add: told_of_def quiet_step_def fun_eq_iff)
  then have "world_view h w' = world_view h w"
    using quiet(1) by (auto simp: world_view_def quiet_step_def upd_loop_view)
  then show ?thesis by simp
next
  case sent
  obtain o1 ds where o1: "created h (srv w) o1" "life_at (srv w) o1 = Live" "flight w' = (flight w)(o1 := flight w o1 @ [ds])"
    using sent(2) unfolding sent_from_outside_def by blast
  let ?v = "io_view (told_of w) o1 (ios (srv w) (conn_loop (srv w) o1))"
  have h: "hist w' = hist w" using sent(1) by (simp add: quiet_step_def)
  have X: "told_of w' q = told_of w q" if "q \<noteq> o1" for q using that by (simp add: told_of_def o1(3) h)
  have "spec_view h (told_of w') (srv w') = spec_view h (told_of w') (srv w)"
    using sent(1) by (auto simp: quiet_step_def upd_loop_view)
  also have "\<dots> = (spec_view h (told_of w) (srv w))(o1 \<mapsto> view_of (told_of w') (srv w) o1)"
    by (rule spec_view_updI [OF refl o1(1)]) (simp add: view_of_def io_view_def X)
  also have "view_of (told_of w') (srv w) o1 = ?v\<lparr>v_queued := v_queued ?v @ [ds]\<rparr>"
    by (simp add: view_of_def io_view_def told_of_def o1(3) h)
  finally have e: "world_view h w' = (world_view h w)(o1 \<mapsto> ?v\<lparr>v_queued := v_queued ?v @ [ds]\<rparr>)"
    by (simp only: world_view_def)
  have "v_life ?v = Live" using o1(2) by (simp add: io_view_def life_at_def)
  from spec_queue [where m = "spec_view h (told_of w) (srv w)", OF spec_view_own [OF o1(1)] this, of ds]
  have "spec_step (world_view h w) (world_view h w')" by (simp only: e world_view_def [of h w])
  then show ?thesis by (rule spec_runs_one)
next
  case (callback l c E)
  note t = callback_told [OF doc inv hi callback]
  have "spec_view h (told_of w') (srv w) = spec_view h (told_of w) (srv w)" by (rule spec_view_cong) (rule t(1))
  moreover have "spec_runs (spec_view h (told_of w') (srv w)) (spec_view h (told_of w') (srv w'))"
    using t(2)
  proof
    assume "told_of w' (next_obj (srv w)) = ([], [])"
    from callback_spec [where X = "told_of w'", OF doc world_invD(1) [OF inv] callback(1-3) alive_ok [OF inv] callback(4) this] show ?thesis .
  next
    assume n: "next_obj (srv w') = next_obj (srv w)"
    let ?X = "(told_of w')(next_obj (srv w) := ([], []))"
    have "spec_runs (spec_view h ?X (srv w)) (spec_view h ?X (srv w'))"
      by (rule callback_spec [OF doc world_invD(1) [OF inv] callback(1-3) alive_ok [OF inv] callback(4)]) simp_all
    moreover have "spec_view h ?X (srv w) = spec_view h (told_of w') (srv w)" "spec_view h ?X (srv w') = spec_view h (told_of w') (srv w')"
      by (rule spec_view_cong; use n in \<open>simp add: created_def\<close>)+
    ultimately show ?thesis by simp
  qed
  ultimately show ?thesis by (simp add: world_view_def)
next
  case (task l t ts E)
  note i = world_invD(1) [OF inv]
  have m: "t \<in> set (todo (rests w) (srv w) l)" using task(2) by (simp add: todo_def)
  note f = srv_invD(3) [OF i task(1) m]
  have p: "chunks q (pendingFunctors (ios (srv w') k)) = chunks q (pendingFunctors (ios (srv w) k))" for q k
    by (rule task_chunks [OF f task(4)])
  have "t \<noteq> AcceptorListen" using f by auto
  from task_books [OF task(4) this] have cl: "conn_loop (srv w') = conn_loop (srv w)" by (simp add: same_books_def)
  have fl: "flight w q = (if conn_loop (srv w) q = l then chunk_of q t else []) @ flight w' q" for q
    using p by (simp add: flight_def todo_def cl task(2,5))
  show ?thesis
  proof (cases "\<exists>q ds. t = SendInLoopStr q ds")
    case True
    then obtain o1 ds where t: "t = SendInLoopStr o1 ds" by blast
    have "life_task o1 t" "raw_task o1 t" using t by (simp_all add: life_task_def)
    then have l: "l = conn_loop (srv w) o1" using life_task_at(5) [OF i task(1) m] by simp
    have h: "hist w' = note_task E t (srv w) (hist w)" by (rule task(6))
    have "spec_runs (spec_view h (told_of w) (srv w)) (spec_view h (told_of w') (srv w'))"
    proof (rule send_task_spec [where H = "hist w" and dss = "flight w' o1", OF doc i task(1) m [unfolded t] task(3) [unfolded t] task(4) [unfolded t]])
      show "told_of w o1 = (ds # flight w' o1, hist w o1)" using fl [of o1] l t by (simp add: told_of_def)
      show "told_of w' o1 = (flight w' o1, note_task E (SendInLoopStr o1 ds) (srv w) (hist w) o1)"
        by (simp only: told_of_def h t)
      show "told_of w' q = told_of w q" if "q \<noteq> o1" for q
        using fl [of q] that t h by (simp add: told_of_def note_send_def Let_def)
    qed
    then show ?thesis by (simp add: world_view_def)
  next
    case False
    then have n: "\<And>q ds. t \<noteq> SendInLoopStr q ds" by blast
    then have "chunk_of q t = []" for q by (cases t) auto
    moreover have "hist w' = hist w" using task(6) n by (cases t) auto
    ultimately have X: "told_of w' = told_of w" using fl by (simp add: told_of_def fun_eq_iff)
    have inv': "world_inv view h w'" by (rule server_step_inv [OF doc st inv])
    have "spec_runs (spec_view h (told_of w') (srv w)) (spec_view h (told_of w') (srv w'))"
      by (rule task_spec [OF doc i task(1,2,4) n]) (simp add: told_of_def gone_flight [OF inv'])
    then show ?thesis by (simp add: world_view_def X)
  qed
next
  case user
  from session_spec [OF doc inv this] show ?thesis .
next
  case mark
  then obtain o1 where s: "life_at (srv w) o1 = Live" "rests w' = rests w" "hist w' = hist w" "srv w' = upd_loop (conn_loop (srv w) o1)
      (setState kDisconnecting o1 (ios (srv w) (conn_loop (srv w) o1))) (srv w)"
    unfolding marked_from_outside_def Let_def by blast
  have "told_of w' = told_of w" by (auto simp: told_of_def flight_def todo_def s(2-4) fun_eq_iff)
  moreover have "io_view X q (setState kDisconnecting o1 (ios (srv w) (conn_loop (srv w) o1))) = io_view X q (ios (srv w) (conn_loop (srv w) o1))"
    for X q by (rule setState_view) (use s(1) in \<open>simp add: life_at_def\<close>)
  then have "spec_view h X (srv w') = spec_view h X (srv w)" for X
    by (intro spec_view_eqI) (simp_all add: s(4) view_of_def)
  ultimately show ?thesis by (simp add: world_view_def)
qed

text \<open>No history before a connection exists.\<close>

lemma hist_step:
  assumes doc: "epoll_documented ctl view" and inv: "world_inv view h w" and hi: "hist_inv h w" and st: "server_step ctl view w w'"
  shows "hist_inv h w'"
proof -
  have "created h (srv w') q \<or> hist w' q = []" if q: "\<not> created h (srv w) q" for q
  proof (cases rule: step_kinds [OF doc inv st, case_names quiet sent callback task user mark])
    case (task l t ts E)
    have m: "t \<in> set (todo (rests w) (srv w) l)" using task(2) by (simp add: todo_def)
    have "hist w' q = hist w q"
    proof (cases t)
      case (SendInLoopStr o1 ds)
      then have "life_task o1 t" by (simp add: life_task_def)
      from life_task_at(1) [OF world_invD(1) [OF inv] task(1) m this] have "q \<noteq> o1" using q by auto
      then show ?thesis using task(6) SendInLoopStr by (simp add: note_send_def Let_def)
    qed (use task(6) in simp_all)
    then show ?thesis using hi q by (simp add: hist_inv_def)
  next
    case user
    then obtain o1 as l where "created h (srv w) o1" "hist w' = note_session ctl o1 as (ios (srv w) l) (hist w)"
      unfolding user_session_def Let_def by blast
    then show ?thesis using hi q by (cases "q = o1") (simp_all add: hist_inv_def note_session_other)
  qed (use hi q in \<open>simp_all add: hist_inv_def quiet_step_def marked_from_outside_def\<close>)
  moreover have "created h (srv w') q" if "created h (srv w) q" for q
  proof -
    have v: "world_view h w q \<noteq> None" using that by (simp add: world_view_def spec_view_def)
    then obtain v where "world_view h w q = Some v" by auto
    from spec_runs_grows [OF step_spec [OF doc inv hi st] this] show ?thesis
      by (auto simp: world_view_def spec_view_def split: if_splits)
  qed
  ultimately show ?thesis using hi unfolding hist_inv_def by blast
qed

lemma start_view: "world_view (next_obj S) (world_start S) = Map.empty" "hist_inv (next_obj S) (world_start S)"
  by (simp_all add: world_view_def spec_view_def created_def fun_eq_iff world_start_def hist_inv_def)

lemma reachable_hist:
  assumes doc: "epoll_documented ctl view" and ready: "server_ready view S" and r: "server_reachable ctl view S w"
  shows "hist_inv (next_obj S) w"
  using r
proof induction
  case (step w w')
  show ?case by (rule hist_step [OF doc reachable_inv [OF doc ready step.hyps(1)] step.IH step.hyps(2)])
qed (rule start_view)

lemma reachable_spec:
  assumes doc: "epoll_documented ctl view" and ready: "server_ready view S" and r: "server_reachable ctl view S w"
  shows "spec_runs Map.empty (world_view (next_obj S) w)"
  using r
proof induction
  case start
  show ?case by (simp add: start_view)
next
  case (step w w')
  note s = step.hyps(1)
  from step.IH step_spec [OF doc reachable_inv [OF doc ready s] reachable_hist [OF doc ready s] step.hyps(2)] show ?case
    by (rule spec_runs_trans)
qed

lemma later_spec:
  assumes doc: "epoll_documented ctl view" and ready: "server_ready view S" and r: "server_reachable ctl view S w"
    and s: "(server_step ctl view)\<^sup>*\<^sup>* w w'"
  shows "server_reachable ctl view S w' \<and> spec_runs (world_view (next_obj S) w) (world_view (next_obj S) w')"
  using s
proof (induction rule: rtranclp_induct)
  case (step w1 w2)
  have r1: "server_reachable ctl view S w1" using step.IH by simp
  have "spec_runs (world_view (next_obj S) w1) (world_view (next_obj S) w2)"
    by (rule step_spec [OF doc reachable_inv [OF doc ready r1] reachable_hist [OF doc ready r1] step.hyps(2)])
  then show ?case using step.IH spec_runs_trans server_reachable.step [OF r1 step.hyps(2)] by blast
qed (use r in simp)

text \<open>The step that establishes the first connection, for the witnesses.\<close>

lemma establish_step:
  "\<exists>w w'. establishing w \<and> server_step list_ctl (\<lambda>k. k) w w' \<and> life_at (srv w) 3 = Fresh \<and> life_at (srv w') 3 = Live
     \<and> created (next_obj ready_server) (srv w) 3"
proof -
  obtain w where e: "establishing w" using establishing_reachable by blast
  then have w: "server_reachable list_ctl (\<lambda>k. k) ready_server w"
    "pcs w 1 = Functors [ConnectionEstablished 3] [ConnectionEstablished 3]" "1 \<in> loop_set (srv w)"
    by (simp_all add: establishing_def)
  note i = world_invD(1) [OF reachable_inv [OF list_ctl_documented ready_server_ready w(1)]]
  have R: "rests w 1 = [ConnectionEstablished 3]" using w(2) by (simp add: rests_def)
  have t: "ConnectionEstablished 3 \<in> set (todo (rests w) (srv w) 1)" "life_task 3 (ConnectionEstablished 3)"
    using R by (simp_all add: todo_def life_task_def)
  note a = life_task_at [OF i w(3) t]
  obtain S' E where S': "run_task list_ctl 1 E (ConnectionEstablished 3) (srv w) = Inr S'"
    using run_task_ok [OF list_ctl_documented i w(3) R refl task_ok_established] by blast
  then obtain W where W: "connectionEstablished list_ctl 3 (ios (srv w) 1) = Inr W" "S' = (srv w)\<lparr>ios := (ios (srv w))(1 := W)\<rparr>"
    by (auto simp: upd_io_Inr)
  have l: "conn_loop (srv w) 3 = 1" "life_in 3 (ios (srv w) 1) = Fresh" using a(2) by (simp_all add: life_at_def)
  have "conns W 3 = (conns (ios (srv w) 1) 3)\<lparr>c_state := kConnected\<rparr>"
    by (rule established_conn [OF W(1)])
  then have "life_at S' 3 = Live" using l W(2) by (simp add: life_at_def in_defs life_of_def)
  then show ?thesis using functor_step [OF w(3,2) task_ok_established S'] e a(1,2) by fastforce
qed

section \<open>Properties\<close>

text \<open>
  C1: the running server implements its specification, as long as no connection closes between the test and the acts
  of a call from another thread on it.  It starts as the empty directory, and in every interleaving of that kind
  a step of a thread does to the directory of connections what some steps of the specification do: accept,
  establish, give a chunk of bytes, queue one, take a queued one or drop it, write, close and destroy, each in the
  phase allowed.
\<close>

theorem server_refines_spec:
  assumes "epoll_documented ctl view" and "server_ready view S" and "server_reachable ctl view S w"
    and "server_step ctl view w w'"
  shows "world_view (next_obj S) (world_start S) = Map.empty
    \<and> spec_runs Map.empty (world_view (next_obj S) w)
    \<and> spec_runs (world_view (next_obj S) w) (world_view (next_obj S) w')"
  using start_view(1) reachable_spec [OF assms(1-3)]
    step_spec [OF assms(1) reachable_inv [OF assms(1-3)] reachable_hist [OF assms(1-3)] assms(4)] by blast

lemma server_refines_spec_witness:
  "\<exists>w w'. server_step list_ctl (\<lambda>k. k) w w' \<and> life_at (srv w) 3 = Fresh \<and> life_at (srv w') 3 = Live
     \<and> spec_runs (world_view (next_obj ready_server) w) (world_view (next_obj ready_server) w')"
proof -
  obtain w w' where w: "establishing w" "server_step list_ctl (\<lambda>k. k) w w'" "life_at (srv w) 3 = Fresh" "life_at (srv w') 3 = Live"
    using establish_step by blast
  then have "server_reachable list_ctl (\<lambda>k. k) ready_server w" by (simp add: establishing_def)
  from server_refines_spec [OF list_ctl_documented ready_server_ready this w(2)] w(2-4) show ?thesis by blast
qed

text \<open>
  C2: no byte is lost, repeated or reordered, as long as no connection closes between the test and the acts of a call from
  another thread on it.  The bytes given to the peer of a connection, followed by those that wait in its
  output buffer, are at any time exactly the chunks its \<open>sendInLoop\<close> was called with while it was not closed, in the
  order of the calls, without those for which \<open>write\<close> answered that the peer is gone.  From any reachable world to any
  later one, each connection moves forward through its phases, the chunks, the bytes given and the bytes accepted
  only grow, and from its closing on none of them changes.
\<close>

theorem server_streams_in_order:
  assumes "epoll_documented ctl view" and "server_ready view S" and "server_reachable ctl view S w"
    and "(server_step ctl view)\<^sup>*\<^sup>* w w'" and "next_obj S \<le> q" and "q < next_obj (srv w)"
  shows "let c = conns (ios (srv w) (conn_loop (srv w) q)) q; c' = conns (ios (srv w') (conn_loop (srv w') q)) q in
    wire c' @ contents (outputBuffer c') = concat (map fst (filter (\<lambda>(ds, r). \<not> r) (hist w' q)))
    \<and> life_at (srv w) q \<le> life_at (srv w') q
    \<and> prefix (hist w q) (hist w' q)
    \<and> prefix (wire c) (wire c')
    \<and> prefix (wire c @ contents (outputBuffer c)) (wire c' @ contents (outputBuffer c'))
    \<and> (Closing \<le> life_at (srv w) q \<longrightarrow> wire c' = wire c \<and> contents (outputBuffer c') = contents (outputBuffer c)
         \<and> hist w' q = hist w q)"
proof -
  note later = later_spec [OF assms(1-4)]
  have "world_view (next_obj S) w q = Some (view_of (told_of w) (srv w) q)"
    using assms(5,6) by (simp add: world_view_def spec_view_def created_def)
  from spec_runs_grows [OF conjunct2 [OF later] this] obtain v' where
    v': "world_view (next_obj S) w' q = Some v'" "view_grows (view_of (told_of w) (srv w) q) v'" by blast
  have "view_good v'" by (rule spec_runs_good [OF reachable_spec [OF assms(1,2) conjunct1 [OF later]] v'(1)])
  moreover have "v' = view_of (told_of w') (srv w') q" using v'(1) by (simp add: world_view_def spec_view_def split: if_splits)
  ultimately show ?thesis using v'(2)
    by (simp add: view_grows_def view_good_def taken_def view_of_def io_view_def told_of_def life_at_def Let_def)
qed

lemma server_streams_in_order_witness:
  "\<exists>w w'. server_step list_ctl (\<lambda>k. k) w w' \<and> life_at (srv w) 3 = Fresh \<and> life_at (srv w') 3 = Live
     \<and> prefix (wire (conns (ios (srv w) (conn_loop (srv w) 3)) 3)) (wire (conns (ios (srv w') (conn_loop (srv w') 3)) 3))"
proof -
  obtain w w' where w: "establishing w" "server_step list_ctl (\<lambda>k. k) w w'" "life_at (srv w) 3 = Fresh" "life_at (srv w') 3 = Live"
      "created (next_obj ready_server) (srv w) 3"
    using establish_step by blast
  then have r: "server_reachable list_ctl (\<lambda>k. k) ready_server w" "(server_step list_ctl (\<lambda>k. k))\<^sup>*\<^sup>* w w'"
    "next_obj ready_server \<le> 3" "3 < next_obj (srv w)" by (auto simp: establishing_def created_def)
  from server_streams_in_order [OF list_ctl_documented ready_server_ready r] w(2-4) show ?thesis
    unfolding Let_def by blast
qed

end
