(* ===== verification/Server_Settle.thy ===== *)
theory Server_Settle
  imports Server_Spec
begin

text \<open>
  A server left alone comes to rest.  While no new event, no new call of the user and no functor from
  outside arrives, the threads can only take finitely many steps, and where none of them can take
  another every loop waits with an empty queue.
\<close>

section \<open>Steps of the threads themselves\<close>

text \<open>
  A thread moves on.  One that waits in \<open>poll\<close> only does because its queue is not empty, and finds no
  event of a connection.
\<close>

definition settle_step :: "'k epoll_ctl \<Rightarrow> ('k \<Rightarrow> int \<rightharpoonup> epoll_event) \<Rightarrow> 'k world \<Rightarrow> 'k world \<Rightarrow> bool" where
  "settle_step ctl view w w' \<longleftrightarrow> server_step ctl view w w'
     \<and> (\<exists>l. pcs w' l \<noteq> pcs w l
          \<and> (pcs w l = Waiting \<longrightarrow> pendingFunctors (ios (srv w) l) \<noteq> [] \<and> pcs w' l = Dispatching [] []))"

text \<open>There is room for the next read or send, and for the events of the next poll.\<close>

definition room_left :: "'k world \<Rightarrow> bool" where
  "room_left w \<longleftrightarrow> (\<forall>l\<in>loop_set (srv w). length (evlist (ios (srv w) l)) < 2 ^ 31
     \<and> (\<forall>q cs ps. pcs w l = Dispatching (ConnHandleRead q # cs) ps
          \<longrightarrow> length (store (inputBuffer (conns (ios (srv w) (conn_loop (srv w) q)) q))) + kExtraSize \<le> vec_max_size)
     \<and> (\<forall>q ds ts b. pcs w l = Functors (SendInLoopStr q ds # ts) b
          \<longrightarrow> length (store (outputBuffer (conns (ios (srv w) (conn_loop (srv w) q)) q))) + length ds \<le> vec_max_size))"

section \<open>The work that is left\<close>

text \<open>A loop that has functors queued but is not on its way to swap them owes a round.\<close>

fun loop_work :: "loop_pc \<Rightarrow> task list \<Rightarrow> nat" where
  "loop_work Waiting pend = tasks_work pend + (if pend = [] then 0 else 3)"
| "loop_work (Dispatching cs ps) pend = 2 + 12 * length cs + 60 * length ps + tasks_work pend"
| "loop_work (Functors ts b) pend = 1 + tasks_work ts + tasks_work pend + (if pend = [] then 0 else 3)"

definition work :: "(nat \<Rightarrow> loop_pc) \<Rightarrow> 'k server \<Rightarrow> nat" where
  "work p S = (\<Sum>l\<in>loop_set S. loop_work (p l) (pendingFunctors (ios S l)))"

lemma finite_loop_set [simp]: "finite (loop_set S)"
  by (simp add: loop_set_def)

lemma loop_work_push: "loop_work pc (pend @ ts) \<le> loop_work pc pend + tasks_work ts + 3"
  by (cases pc) auto

lemma work_pushed:
  assumes "queues_up k S S'" "loop_set S' = loop_set S"
  shows "work p S' \<le> work p S + k + 3"
proof -
  obtain m ts where m: "tasks_work ts \<le> k" "\<And>l. pendingFunctors (ios S' l) = pendingFunctors (ios S l) @ (if l = m then ts else [])"
    using assms(1) unfolding queues_up_def by blast
  let ?f = "\<lambda>l. loop_work (p l) (pendingFunctors (ios S l))"
  have "work p S' \<le> (\<Sum>l\<in>loop_set S. ?f l + (if l = m then k + 3 else 0))"
    unfolding work_def assms(2)
  proof (rule sum_mono)
    fix l
    show "loop_work (p l) (pendingFunctors (ios S' l)) \<le> ?f l + (if l = m then k + 3 else 0)"
      using loop_work_push [of "p l" "pendingFunctors (ios S l)" ts] m(1) by (cases "l = m") (simp_all add: m(2))
  qed
  also have "\<dots> = work p S + (if m \<in> loop_set S then k + 3 else 0)"
    by (simp add: sum.distrib work_def)
  finally show ?thesis by (auto split: if_splits)
qed

text \<open>The thread of one loop moves.\<close>

lemma work_move:
  assumes "l \<in> loop_set S" "loop_set S' = loop_set S" "\<And>m. m \<noteq> l \<Longrightarrow> pendingFunctors (ios S' m) = pendingFunctors (ios S m)"
  shows "work (p(l := pc)) S' + loop_work (p l) (pendingFunctors (ios S l)) = work p S + loop_work pc (pendingFunctors (ios S' l))"
proof -
  let ?A = "loop_set S - {l}"
  have "work p S = loop_work (p l) (pendingFunctors (ios S l)) + (\<Sum>m\<in>?A. loop_work (p m) (pendingFunctors (ios S m)))"
    unfolding work_def using assms(1) by (intro sum.remove) simp_all
  moreover have "work (p(l := pc)) S' = loop_work pc (pendingFunctors (ios S' l))
      + (\<Sum>m\<in>?A. loop_work ((p(l := pc)) m) (pendingFunctors (ios S' m)))"
    unfolding work_def assms(2) by (subst sum.remove [OF finite_loop_set assms(1)]) simp
  moreover have "(\<Sum>m\<in>?A. loop_work ((p(l := pc)) m) (pendingFunctors (ios S' m)))
      = (\<Sum>m\<in>?A. loop_work (p m) (pendingFunctors (ios S m)))"
    by (intro sum.cong) (use assms(3) in auto)
  ultimately show ?thesis by simp
qed

lemma task_drops:
  assumes f: "task_fine h S t" and S': "run_task ctl l E t S = Inr S'" and ls: "loop_set S' = loop_set S"
  shows "work p S' < work p S + task_work t"
proof -
  from task_pushes [OF f S'] show ?thesis
  proof
    assume "\<forall>l. pendingFunctors (ios S' l) = pendingFunctors (ios S l)"
    moreover have "0 < task_work t" by (cases t) simp_all
    ultimately show ?thesis by (simp add: work_def ls)
  next
    assume "\<exists>k. queues_up k S S' \<and> k + 3 < task_work t"
    then obtain k where "queues_up k S S'" "k + 3 < task_work t" by blast
    then show ?thesis using work_pushed [OF _ ls, of k p] by simp
  qed
qed

section \<open>Every step leaves less work\<close>

lemma handleEvent_length: "length (handleEvent al ch) \<le> 4"
proof -
  have "length (invoke c) \<le> 1" for c :: "callback option" by (cases c) (simp_all add: invoke_def)
  from this [of "closeCallback ch"] this [of "readCallback ch"] this [of "writeCallback ch"]
  have "length (handleEventWithGuard ch) \<le> 4" by (auto simp: handleEventWithGuard_def)
  then show ?thesis by (simp add: handleEvent_def split: option.split)
qed

lemma settle_work:
  assumes doc: "epoll_documented ctl view" and inv: "world_inv view h w" and st: "settle_step ctl view w w'"
  shows "work (pcs w') (srv w') < work (pcs w) (srv w)"
proof -
  obtain k where k: "pcs w' k \<noteq> pcs w k" "pcs w k = Waiting \<longrightarrow> pendingFunctors (ios (srv w) k) \<noteq> [] \<and> pcs w' k = Dispatching [] []"
    using st by (auto simp: settle_step_def)
  have "server_step ctl view w w'" using st by (simp add: settle_step_def)
  then show ?thesis
  proof cases
    case (poll_step l ev lg ps W)
    let ?W0 = "(ios (srv w) l)\<lparr>activateChannels := []\<rparr>"
    have "reports view ?W0 ev" using poll_step(4) by (simp add: reports_def split: wait_result.splits)
    note p = poll_quiet(2) [OF poll_step(5) this]
    have "k = l" using k(1) poll_step(1) by (auto split: if_splits)
    then have f: "pendingFunctors (ios (srv w) l) \<noteq> []" "ps = []" using k(2) poll_step(1,3) by auto
    have "work ((pcs w)(l := Dispatching [] ps)) (srv w') + loop_work (pcs w l) (pendingFunctors (ios (srv w) l))
        = work (pcs w) (srv w) + loop_work (Dispatching [] ps) (pendingFunctors (ios (srv w') l))"
      by (rule work_move [OF poll_step(2)]) (simp_all add: poll_step(1))
    then show ?thesis using f p poll_step(1,3) by simp
  next
    case (channel_step l p ps)
    let ?cs = "handleEvent (alive w) (chans (ios (srv w) l) p)"
    have "work ((pcs w)(l := Dispatching ?cs ps)) (srv w') + loop_work (pcs w l) (pendingFunctors (ios (srv w) l))
        = work (pcs w) (srv w) + loop_work (Dispatching ?cs ps) (pendingFunctors (ios (srv w') l))"
      by (rule work_move [OF channel_step(2)]) (simp_all add: channel_step(1))
    then show ?thesis using channel_step(1,3) handleEvent_length [of "alive w" "chans (ios (srv w) l) p"] by simp
  next
    case (callback_step l c cs ps E S')
    have c: "cb_fine h (srv w) l c"
      using world_invD(2) [OF inv callback_step(2)] callback_step(3) by (simp add: pc_inv_def)
    note i = world_invD(1) [OF inv]
    have "carried h {} (srv w) S'"
      using run_callback_ok [OF doc i callback_step(2) c callback_step(4) returned_reads [OF i c callback_step(5)] alive_ok [OF inv]]
        callback_step(5) by auto
    then have ls: "loop_set S' = loop_set (srv w)" by (simp add: carried_def)
    have "work ((pcs w)(l := Dispatching cs ps)) (srv w) + loop_work (pcs w l) (pendingFunctors (ios (srv w) l))
        = work (pcs w) (srv w) + loop_work (Dispatching cs ps) (pendingFunctors (ios (srv w) l))"
      by (rule work_move [OF callback_step(2)]) simp_all
    then show ?thesis using work_pushed [OF callback_pushes [OF callback_step(5)] ls, of "(pcs w)(l := Dispatching cs ps)"] callback_step(1,3)
      by simp
  next
    case (swap_step l b W)
    have W: "b = pendingFunctors (ios (srv w) l)" "pendingFunctors W = []" using swap_step(4) by (auto simp: pending_defs)
    have "work ((pcs w)(l := Functors b b)) (srv w') + loop_work (pcs w l) (pendingFunctors (ios (srv w) l))
        = work (pcs w) (srv w) + loop_work (Functors b b) (pendingFunctors (ios (srv w') l))"
      by (rule work_move [OF swap_step(2)]) (simp_all add: swap_step(1))
    then show ?thesis using swap_step(1,3) W by simp
  next
    case (functor_step l t ts b E S')
    have R: "rests w l = t # ts" using functor_step(3) by (simp add: rests_def)
    from run_task_ok [OF doc world_invD(1) [OF inv] functor_step(2) R refl functor_step(4)] functor_step(5)
    obtain Y where "carried h Y (srv w) S'" by auto
    then have ls: "loop_set S' = loop_set (srv w)" by (simp add: carried_def)
    have f: "task_fine h (srv w) t" using srv_invD(3) [OF world_invD(1) [OF inv] functor_step(2), of t] R by (simp add: todo_def)
    have "work ((pcs w)(l := Functors ts b)) (srv w) + loop_work (pcs w l) (pendingFunctors (ios (srv w) l))
        = work (pcs w) (srv w) + loop_work (Functors ts b) (pendingFunctors (ios (srv w) l))"
      by (rule work_move [OF functor_step(2)]) simp_all
    then show ?thesis using task_drops [OF f functor_step(5) ls, of "(pcs w)(l := Functors ts b)"] functor_step(1,3) by simp
  next
    case (round_end l b)
    have "work ((pcs w)(l := Waiting)) (srv w') + loop_work (pcs w l) (pendingFunctors (ios (srv w) l))
        = work (pcs w) (srv w) + loop_work Waiting (pendingFunctors (ios (srv w') l))"
      by (rule work_move [OF round_end(2)]) (simp_all add: round_end(1))
    then show ?thesis using round_end(1,3) by (simp add: pending_end_def)
  qed (use k in simp_all)
qed

section \<open>While a thread has something left, it can go on\<close>

lemma can_move:
  assumes doc: "epoll_documented ctl view" and inv: "world_inv view h w" and room: "room_left w" and l: "l \<in> loop_set (srv w)"
    and busy: "\<not> (pcs w l = Waiting \<and> pendingFunctors (ios (srv w) l) = [])"
  shows "\<exists>w'. settle_step ctl view w w'"
proof -
  let ?S = "srv w" and ?E = "\<lparr>e_readv = \<lambda>_. ROk [], e_write = \<lambda>_. WErr 0, e_accept = AcErr 0\<rparr>"
  have go: "\<exists>w'. settle_step ctl view w w'" if "server_step ctl view w w1" "pcs w1 l \<noteq> pcs w l" "pcs w l \<noteq> Waiting" for w1
    using that unfolding settle_step_def by blast
  show ?thesis
  proof (cases "pcs w l")
    case Waiting
    then have p: "pendingFunctors (ios ?S l) \<noteq> []" using busy by simp
    let ?W0 = "(ios ?S l)\<lparr>activateChannels := []\<rparr>"
    have "poll (EvOk []) [] ?W0 = Inr (PollTimeout, [], ?W0)" by (simp add: poll_def)
    moreover have "reports view (ios ?S l) (EvOk [])" using room l by (simp add: reports_def room_left_def)
    ultimately have "server_step ctl view w (w\<lparr>srv := upd_loop l (?W0\<lparr>activateChannels := []\<rparr>) ?S, pcs := (pcs w)(l := Dispatching [] [])\<rparr>)"
      by (rule poll_step [OF l Waiting, rotated])
    then show ?thesis using p Waiting unfolding settle_step_def by (intro exI [of _ "w\<lparr>srv := _, pcs := _\<rparr>"]) auto
  next
    case (Dispatching cs ps)
    show ?thesis
    proof (cases cs)
      case (Cons c cs')
      have fine: "cb_fine h ?S l c" using world_invD(2) [OF inv l] Dispatching Cons by (simp add: pc_inv_def)
      have "env_ok (alive w) ?E c ?S"
      proof (cases c)
        case (ConnHandleRead q)
        then show ?thesis using room l Dispatching Cons by (auto simp: room_left_def Let_def readv_documented_def)
      qed (simp_all add: write_documented_def acceptor_handleRead_def sock_accept_def Let_def)
      have "reads_ok ?E c ?S" by (simp add: reads_ok_def)
      from run_callback_ok [OF doc world_invD(1) [OF inv] l fine \<open>env_ok (alive w) ?E c ?S\<close> this alive_ok [OF inv]]
      obtain S' where "run_callback ctl l ?E c ?S = Inr S'" by blast
      from callback_step [OF l Dispatching [unfolded Cons] \<open>env_ok (alive w) ?E c ?S\<close> this] show ?thesis
        by (rule go) (simp_all add: Dispatching Cons)
    next
      case Nil
      show ?thesis
      proof (cases ps)
        case (Cons p ps')
        from channel_step [OF l Dispatching [unfolded Nil Cons]] show ?thesis
          by (rule go) (simp_all add: Dispatching Cons)
      next
        case pnil: Nil
        from swap_step [OF l Dispatching [unfolded Nil pnil] surjective_pairing] show ?thesis
          by (rule go) (simp_all add: Dispatching)
      qed
    qed
  next
    case (Functors ts b)
    show ?thesis
    proof (cases ts)
      case (Cons t ts')
      have R: "rests w l = t # ts'" using Functors Cons by (simp add: rests_def)
      have ok: "task_ok ?E t ?S"
        using room l Functors Cons by (cases t) (auto simp: room_left_def write_documented_def)
      obtain S' where "run_task ctl l ?E t ?S = Inr S'"
        using run_task_ok [OF doc world_invD(1) [OF inv] l R refl ok] by blast
      from functor_step [OF l Functors [unfolded Cons] ok this] show ?thesis
        by (rule go) (simp_all add: Functors Cons)
    next
      case Nil
      from round_end [OF l Functors [unfolded Nil]] show ?thesis
        by (rule go) (simp_all add: Functors)
    qed
  qed
qed

section \<open>Properties\<close>

text \<open>
  C6: the server comes to rest.  From any world reached by an interleaving in which no connection closes between the
  test and the acts of a call from another thread on it, the threads can take only finitely many steps
  while nothing new arrives from outside, whatever their order; and in such a world where none of
  them can take another (with room for the next read and send) every loop waits with an empty queue, every
  connection ever made is open or destroyed, and those that are open are the ones in the map.
\<close>

theorem server_settles:
  assumes "epoll_documented ctl view" and "server_ready view S"
  shows "wfp (\<lambda>w' w. server_reachable ctl view S w \<and> settle_step ctl view w w')
    \<and> (\<forall>w. server_reachable ctl view S w \<and> room_left w \<and> \<not> (\<exists>w'. settle_step ctl view w w') \<longrightarrow>
         (\<forall>l\<in>loop_set (srv w). pcs w l = Waiting \<and> pendingFunctors (ios (srv w) l) = [])
         \<and> (\<forall>q. next_obj S \<le> q \<and> q < next_obj (srv w) \<longrightarrow>
              life_at (srv w) q \<in> {Live, Gone} \<and> (life_at (srv w) q = Live \<longleftrightarrow> q \<in> ran (connections (srv w)))))"
proof (intro conjI allI impI)
  show "wfp (\<lambda>w' w. server_reachable ctl view S w \<and> settle_step ctl view w w')"
    by (rule wfp_if_convertible_to_nat [where f = "\<lambda>w. work (pcs w) (srv w)"])
      (use settle_work [OF assms(1) reachable_inv [OF assms]] in blast)
next
  fix w
  assume w: "server_reachable ctl view S w \<and> room_left w \<and> \<not> (\<exists>w'. settle_step ctl view w w')"
  note inv = reachable_inv [OF assms conjunct1 [OF w]]
  show rest: "\<forall>l\<in>loop_set (srv w). pcs w l = Waiting \<and> pendingFunctors (ios (srv w) l) = []"
    using can_move [OF assms(1) inv] w by blast
  fix q
  assume "next_obj S \<le> q \<and> q < next_obj (srv w)"
  then have q: "created (next_obj S) (srv w) q" by (simp add: created_def)
  from rest_life [OF inv rest q] show "life_at (srv w) q \<in> {Live, Gone}"
    and "life_at (srv w) q = Live \<longleftrightarrow> q \<in> ran (connections (srv w))" by simp_all
qed

lemma server_settles_witness:
  "\<exists>w w'. server_reachable list_ctl (\<lambda>k. k) ready_server w \<and> settle_step list_ctl (\<lambda>k. k) w w'
     \<and> wfp (\<lambda>w' w. server_reachable list_ctl (\<lambda>k. k) ready_server w \<and> settle_step list_ctl (\<lambda>k. k) w w')"
proof -
  obtain w where w: "establishing w" using establishing_reachable by blast
  then have r: "server_reachable list_ctl (\<lambda>k. k) ready_server w" "pcs w 0 = Dispatching [] []" "0 \<in> loop_set (srv w)"
    by (simp_all add: establishing_def)
  note s = swap_step [OF r(3,2) surjective_pairing, of list_ctl "\<lambda>k. k"]
  then have "\<exists>w'. settle_step list_ctl (\<lambda>k. k) w w'" using r(2) unfolding settle_step_def by fastforce
  then show ?thesis using r(1) server_settles [OF list_ctl_documented ready_server_ready] by blast
qed

end
