(* ===== verification/Server_End.thy ===== *)
theory Server_End
  imports Server_Settle
begin

text \<open>
  The end of a server: its destructor runs while the loops of its pool keep running, and the functors it
  leaves behind take every connection down.
\<close>

section \<open>One connection\<close>

text \<open>
  \<open>connectDestroyed\<close> on an open connection: the state is set and the user told only when it is
  \<open>kConnected\<close>.
\<close>

definition down :: "conn \<Rightarrow> conn" where
  "down c = (if c_state c = kConnected then c\<lparr>c_state := kDisconnected\<rparr> else c)"

definition told :: "obj \<Rightarrow> conn \<Rightarrow> user_call list" where
  "told o1 c = (if c_state c = kConnected then [ConnectionCall o1 kDisconnected] else [])"

lemma destroy_live:
  assumes doc: "epoll_documented ctl view" and inv: "poller_inv view P W" and o1: "o1 \<in> P"
    and wf: "wf_in o1 W" "life_in o1 W = Live"
  shows "\<exists>W'. connectDestroyed ctl o1 W = Inr W' \<and> poller_inv view P W' \<and> ch_index (chans W' o1) = kNew
    \<and> conns W' = (conns W)(o1 := down (conns W o1)) \<and> (\<forall>q. q \<noteq> o1 \<longrightarrow> chans W' q = chans W q)
    \<and> calls W' = calls W @ told o1 (conns W o1) \<and> pendingFunctors W' = pendingFunctors W \<and> threadId W' = threadId W"
proof -
  have c: "c_chan (conns W o1) = o1" "connectionCallback (conns W o1)" "ch_index (chans W o1) = kAdded"
    using wf by (auto simp: in_defs conn_wf_def split: life.splits)
  show ?thesis
  proof (cases "c_state (conns W o1) = kConnected")
    case False
    obtain W1 where W1: "removeChannel ctl o1 W = Inr W1" "stepped view P o1 (ch_events (chans W o1)) kNew W W1"
      using remove_steps [OF doc inv o1] by blast
    have "connectDestroyed ctl o1 W = Inr W1" using W1(1) c False by (simp add: connectDestroyed_def Let_def)
    then show ?thesis using stepped_io [OF W1(2)] W1(2) False by (simp add: stepped_def down_def told_def fun_upd_idem)
  next
    case True
    let ?W0 = "setState kDisconnected o1 W"
    obtain W1 i where W1: "disableAll ctl o1 ?W0 = Inr W1" "stepped view P o1 0 i ?W0 W1"
      using disableAll_toggles [OF doc _ o1, of ?W0] inv c(3) by auto
    note io1 = stepped_io [OF W1(2)]
    let ?W2 = "W1\<lparr>calls := calls W1 @ [ConnectionCall o1 kDisconnected]\<rparr>"
    have c1: "conns W1 = (conns W)(o1 := (conns W o1)\<lparr>c_state := kDisconnected\<rparr>)"
      using io1(1) by (simp add: setState_def fun_eq_iff)
    have call: "call_connection o1 W1 = Inr ?W2" using c(2) by (simp add: call_connection_def call_user_def c1)
    have "poller_inv view P ?W2" using W1(2) by (simp add: stepped_def)
    then obtain W3 where W3: "removeChannel ctl o1 ?W2 = Inr W3" "stepped view P o1 (ch_events (chans ?W2 o1)) kNew ?W2 W3"
      using remove_steps [OF doc _ o1] by blast
    have "connectDestroyed ctl o1 W = Inr W3" using W1(1) call W3(1) c(1) True by (simp add: connectDestroyed_def Let_def)
    then show ?thesis using stepped_io [OF W3(2)] W3(2) W1(2) io1 c1 True by (simp add: stepped_def down_def told_def)
  qed
qed

lemma destroy_all:
  assumes doc: "epoll_documented ctl view"
  shows "poller_inv view P W \<Longrightarrow> distinct os \<Longrightarrow> (\<And>q. q \<in> set os \<Longrightarrow> q \<in> P \<and> wf_in q W \<and> life_in q W = Live)
    \<Longrightarrow> \<exists>W'. run_all (connectDestroyed ctl) os W = Inr W' \<and> poller_inv view P W'
      \<and> (\<forall>q\<in>set os. ch_index (chans W' q) = kNew \<and> conns W' q = down (conns W q))
      \<and> (\<forall>q. q \<notin> set os \<longrightarrow> chans W' q = chans W q \<and> conns W' q = conns W q)
      \<and> calls W' = calls W @ concat (map (\<lambda>q. told q (conns W q)) os) \<and> pendingFunctors W' = pendingFunctors W"
proof (induction os arbitrary: W)
  case (Cons o1 os)
  obtain W1 where W1: "connectDestroyed ctl o1 W = Inr W1" "poller_inv view P W1" "ch_index (chans W1 o1) = kNew"
      "conns W1 = (conns W)(o1 := down (conns W o1))" "\<And>q. q \<noteq> o1 \<Longrightarrow> chans W1 q = chans W q"
      "calls W1 = calls W @ told o1 (conns W o1)" "pendingFunctors W1 = pendingFunctors W"
    using destroy_live [OF doc Cons.prems(1), of o1] Cons.prems(3) by fastforce
  have o1: "o1 \<notin> set os" "distinct os" using Cons.prems(2) by simp_all
  have "q \<in> P \<and> wf_in q W1 \<and> life_in q W1 = Live" if "q \<in> set os" for q
  proof -
    have "q \<noteq> o1" using that o1(1) by blast
    then show ?thesis using Cons.prems(3) [of q] that W1(4,5) by (simp add: in_defs)
  qed
  from Cons.IH [OF W1(2) o1(2) this] obtain W' where W': "run_all (connectDestroyed ctl) os W1 = Inr W'" "poller_inv view P W'"
      "\<forall>q\<in>set os. ch_index (chans W' q) = kNew \<and> conns W' q = down (conns W1 q)"
      "\<forall>q. q \<notin> set os \<longrightarrow> chans W' q = chans W1 q \<and> conns W' q = conns W1 q"
      "calls W' = calls W1 @ concat (map (\<lambda>q. told q (conns W1 q)) os)" "pendingFunctors W' = pendingFunctors W1"
    by blast
  have m: "map (\<lambda>q. told q (conns W1 q)) os = map (\<lambda>q. told q (conns W q)) os"
    using o1(1) W1(4) by (intro map_cong) auto
  have "\<forall>q\<in>set (o1 # os). ch_index (chans W' q) = kNew \<and> conns W' q = down (conns W q)"
    using W'(3,4) W1(3,4) o1(1) by auto
  moreover have "\<forall>q. q \<notin> set (o1 # os) \<longrightarrow> chans W' q = chans W q \<and> conns W' q = conns W q"
    using W'(4) W1(4,5) by simp
  moreover have "calls W' = calls W @ concat (map (\<lambda>q. told q (conns W q)) (o1 # os))" using W'(5) W1(6) m by simp
  ultimately show ?case using W'(1,2,6) W1(1,7) by simp
qed simp

section \<open>The destructor\<close>

text \<open>What it leaves: its own loop's connections destroyed, the others' destruction queued.\<close>

lemma connectDestroyed_thread:
  fixes W W' :: "('k, 'z) io_scheme"
  assumes "connectDestroyed ctl o1 W = Inr W'"
  shows "threadId W' = threadId W"
proof -
  have ev: "threadId V' = threadId V" if "disableAll ctl p V = Inr V'" for p and V V' :: "('k, 'z) io_scheme"
    using change_events_more [OF that [unfolded disableAll_def]] by (cases V; cases V'; simp)
  have rm: "threadId V' = threadId V" if "removeChannel ctl p V = Inr V'" for p and V V' :: "('k, 'z) io_scheme"
  proof -
    have "poller.more V' = poller.more V" using that
      by (auto simp: removeChannel_def Let_def rbind_eq_Inr set_chan_def set_index_def dest!: epoll_update_more split: if_splits)
    then show ?thesis by (cases V; cases V'; simp)
  qed
  show ?thesis using assms
    by (auto simp: connectDestroyed_def Let_def rbind_eq_Inr call_connection_def call_user_def setState_def dest!: ev rm split: if_splits)
qed

definition queue_all :: "int \<Rightarrow> obj list \<Rightarrow> 'k io \<Rightarrow> 'k io" where
  "queue_all tid os W = fold (\<lambda>q. queueInLoop tid (ConnectDestroyed q)) os W"

lemma queue_all_simps [simp]:
  "queue_all tid [] W = W" "queue_all tid (q # os) W = queue_all tid os (queueInLoop tid (ConnectDestroyed q) W)"
  by (simp_all add: queue_all_def)

lemma queue_all_io:
  "conns (queue_all tid os W) = conns W \<and> chans (queue_all tid os W) = chans W \<and> channels (queue_all tid os W) = channels W
    \<and> epollfd (queue_all tid os W) = epollfd W \<and> calls (queue_all tid os W) = calls W
    \<and> pendingFunctors (queue_all tid os W) = pendingFunctors W @ map ConnectDestroyed os"
  by (induction os arbitrary: W) (simp_all add: queue_defs)

lemma destroy_connections_eq:
  assumes "distinct ns" "\<And>n. n \<in> set ns \<Longrightarrow> connections S n = Some (f n) \<and> conn_loop S (f n) \<in> L"
    and "\<And>l. l \<in> L \<Longrightarrow> isInLoopThread tid (ios S l) \<longleftrightarrow> l = l0"
  shows "destroy_connections ctl tid ns S = rbind (run_all (connectDestroyed ctl) (filter (\<lambda>q. conn_loop S q = l0) (map f ns)) (ios S l0))
    (\<lambda>W. Inr (S\<lparr>connections := (\<lambda>n. if n \<in> set ns then None else connections S n),
        ios := (\<lambda>l. if l = l0 then W else queue_all tid (filter (\<lambda>q. conn_loop S q = l) (map f ns)) (ios S l))\<rparr>))"
  using assms
proof (induction ns arbitrary: S)
  case Nil
  have "(\<lambda>l. if l = l0 then ios S l0 else queue_all tid (filter (\<lambda>q. conn_loop S q = l) (map f [])) (ios S l)) = ios S"
    by auto
  then show ?case by simp
next
  case (Cons n ns)
  let ?q = "f n" and ?l = "conn_loop S (f n)"
  let ?S1 = "S\<lparr>connections := (connections S)(n := None)\<rparr>"
  have n: "connections S n = Some ?q" "?l \<in> L" "n \<notin> set ns" "distinct ns" using Cons.prems(1,2) by simp_all
  have con: "(\<lambda>k. if k \<in> set ns then None else ((connections S)(n := None)) k)
      = (\<lambda>k. if k \<in> set (n # ns) then None else connections S k)" by auto
  show ?case
  proof (cases "?l = l0")
    case True
    then have run: "destroy_connections ctl tid (n # ns) S
        = rbind (upd_io l0 (connectDestroyed ctl ?q) ?S1) (destroy_connections ctl tid ns)"
      using n Cons.prems(3) by (simp add: run_in_def Let_def)
    show ?thesis
    proof (cases "connectDestroyed ctl ?q (ios S l0)")
      case (Inl e)
      then show ?thesis using True unfolding run by (simp add: upd_io_def)
    next
      case (Inr W)
      let ?S2 = "?S1\<lparr>ios := (ios S)(l0 := W)\<rparr>"
      have "upd_io l0 (connectDestroyed ctl ?q) ?S1 = Inr ?S2" using Inr by (simp add: upd_io_def)
      then have "destroy_connections ctl tid (n # ns) S = destroy_connections ctl tid ns ?S2" by (simp only: run rbind.simps)
      also have "\<dots> = rbind (run_all (connectDestroyed ctl) (filter (\<lambda>q. conn_loop ?S2 q = l0) (map f ns)) (ios ?S2 l0))
        (\<lambda>V. Inr (?S2\<lparr>connections := (\<lambda>k. if k \<in> set ns then None else connections ?S2 k),
          ios := (\<lambda>l. if l = l0 then V else queue_all tid (filter (\<lambda>q. conn_loop ?S2 q = l) (map f ns)) (ios ?S2 l))\<rparr>))"
        by (rule Cons.IH) (use Cons.prems n connectDestroyed_thread [OF Inr] in \<open>auto simp: isInLoopThread_def\<close>)
      also have "\<dots> = rbind (run_all (connectDestroyed ctl) (filter (\<lambda>q. conn_loop S q = l0) (map f ns)) W)
        (\<lambda>V. Inr (S\<lparr>connections := (\<lambda>k. if k \<in> set (n # ns) then None else connections S k),
          ios := (\<lambda>l. if l = l0 then V else queue_all tid (filter (\<lambda>q. conn_loop S q = l) (map f (n # ns))) (ios S l))\<rparr>))"
        using con True by (auto intro!: arg_cong2 [where f = rbind] simp: fun_eq_iff)
      finally show ?thesis using True Inr by simp
    qed
  next
    case False
    let ?S2 = "?S1\<lparr>ios := (ios S)(?l := queueInLoop tid (ConnectDestroyed ?q) (ios S ?l))\<rparr>"
    have "destroy_connections ctl tid (n # ns) S = destroy_connections ctl tid ns ?S2"
      using n Cons.prems(3) False by (simp add: run_in_def Let_def upd_io_def)
    also have "\<dots> = rbind (run_all (connectDestroyed ctl) (filter (\<lambda>q. conn_loop ?S2 q = l0) (map f ns)) (ios ?S2 l0))
        (\<lambda>V. Inr (?S2\<lparr>connections := (\<lambda>k. if k \<in> set ns then None else connections ?S2 k),
          ios := (\<lambda>l. if l = l0 then V else queue_all tid (filter (\<lambda>q. conn_loop ?S2 q = l) (map f ns)) (ios ?S2 l))\<rparr>))"
      by (rule Cons.IH) (use Cons.prems n in \<open>auto simp: isInLoopThread_def\<close>)
    also have "\<dots> = rbind (run_all (connectDestroyed ctl) (filter (\<lambda>q. conn_loop S q = l0) (map f (n # ns))) (ios S l0))
        (\<lambda>V. Inr (S\<lparr>connections := (\<lambda>k. if k \<in> set (n # ns) then None else connections S k),
          ios := (\<lambda>l. if l = l0 then V else queue_all tid (filter (\<lambda>q. conn_loop S q = l) (map f (n # ns))) (ios S l))\<rparr>))"
      using con False by (auto intro!: arg_cong2 [where f = rbind] simp: fun_eq_iff)
    finally show ?thesis .
  qed
qed

text \<open>The acceptor takes its channel out of the poller, whatever it was registered for.\<close>

lemma acceptor_destroyed:
  fixes W :: "'k io"
  assumes doc: "epoll_documented ctl view" and inv: "poller_inv view P W" and a: "acceptChannel A \<in> P"
  shows "\<exists>W'. Acceptor_destroy ctl A W = Inr W' \<and> poller_inv view P W' \<and> ch_index (chans W' (acceptChannel A)) = kNew
    \<and> (\<forall>q. q \<noteq> acceptChannel A \<longrightarrow> chans W' q = chans W q) \<and> conns W' = conns W \<and> calls W' = calls W
    \<and> pendingFunctors W' = pendingFunctors W"
proof -
  let ?a = "acceptChannel A"
  have "\<exists>V i. disableAll ctl ?a W = Inr V \<and> stepped view P ?a 0 i W V"
  proof (cases "ch_index (chans W ?a) = kNew")
    case True
    from register_steps [OF doc inv a disjI1, OF True, of ev_disableAll] show ?thesis by (auto simp: disableAll_def)
  next
    case False
    then have "ch_index (chans W ?a) \<in> {kAdded, kDeleted}" using inv a by (auto simp: poller_inv_def)
    from disableAll_toggles [OF doc inv a this] show ?thesis by blast
  qed
  then obtain V i where V: "disableAll ctl ?a W = Inr V" "stepped view P ?a 0 i W V" by blast
  then have "poller_inv view P V" by (simp add: stepped_def)
  from remove_steps [OF doc this a] obtain W' where W': "removeChannel ctl ?a V = Inr W'"
      "stepped view P ?a (ch_events (chans V ?a)) kNew V W'" by blast
  have "Acceptor_destroy ctl A W = Inr W'" using V(1) W'(1) by (simp add: Acceptor_destroy_def)
  then show ?thesis using V(2) W'(2) stepped_io [OF V(2)] stepped_io [OF W'(2)] by (simp add: stepped_def)
qed

section \<open>The loops after it\<close>

text \<open>What a loop has done for the connections \<open>os\<close> once they are down, compared with \<open>W\<close> before.\<close>

definition taken_down :: "obj list \<Rightarrow> ('k, 'z) io_scheme \<Rightarrow> ('k, 'z) io_scheme \<Rightarrow> bool" where
  "taken_down os W W' \<longleftrightarrow> (\<forall>q\<in>set os. ch_index (chans W' q) = kNew \<and> conns W' q = down (conns W q))
     \<and> calls W' = calls W @ concat (map (\<lambda>q. told q (conns W q)) os)"

lemma run_all_destroyed:
  "run_all (conn_task ctl w mem other) (map ConnectDestroyed os) W = run_all (connectDestroyed ctl) os W"
proof (induction os arbitrary: W)
  case (Cons q os)
  then have "run_all (conn_task ctl w mem other) (map ConnectDestroyed os) = run_all (connectDestroyed ctl) os" by (intro ext)
  then show ?case by simp
qed simp

lemma loop_ends:
  fixes W :: "'k io"
  assumes doc: "epoll_documented ctl view" and inv: "poller_inv view P W" and d: "distinct os"
    and os: "\<And>q. q \<in> set os \<Longrightarrow> q \<in> P \<and> wf_in q W \<and> life_in q W = Live" and p: "pendingFunctors W = []"
    and V: "poller_inv view P V \<and> taken_down os W V \<and> pendingFunctors V = [] \<or> V = queue_all tid os W"
  shows "\<exists>W'. doPendingFunctors (conn_task ctl w mem other) V = Inr W' \<and> poller_inv view P W' \<and> taken_down os W W'
    \<and> pendingFunctors W' = [] \<and> (\<forall>a. a \<notin> set os \<longrightarrow> ch_index (chans V a) = kNew \<longrightarrow> ch_index (chans W' a) = kNew)"
  using V
proof
  assume V: "poller_inv view P V \<and> taken_down os W V \<and> pendingFunctors V = []"
  let ?W = "V\<lparr>callingPendingFunctors := False, pendingFunctors := []\<rparr>"
  have "doPendingFunctors (conn_task ctl w mem other) V = Inr ?W"
    using V by (simp add: doPendingFunctors_def pending_defs)
  moreover have "poller_inv view P ?W" by (subst poller_inv_cong [of _ V]) (use V in simp_all)
  moreover have "taken_down os W ?W" using V by (simp add: taken_down_def)
  ultimately show ?thesis by (intro exI [of _ ?W]) simp
next
  assume V: "V = queue_all tid os W"
  note q = queue_all_io [of tid os W]
  let ?L = "V\<lparr>callingPendingFunctors := True, pendingFunctors := []\<rparr>"
  have io: "conns ?L = conns W" "chans ?L = chans W" "calls ?L = calls W" using q V by simp_all
  have "poller_inv view P ?L" using inv q V by (subst poller_inv_cong [of _ W]) simp_all
  moreover have "x \<in> P \<and> wf_in x ?L \<and> life_in x ?L = Live" if "x \<in> set os" for x
    using os [OF that] io by (simp add: in_defs)
  ultimately obtain W' where W': "run_all (connectDestroyed ctl) os ?L = Inr W'" "poller_inv view P W'"
      "taken_down os ?L W'" "pendingFunctors W' = pendingFunctors ?L" "\<forall>q. q \<notin> set os \<longrightarrow> chans W' q = chans ?L q"
    using destroy_all [OF doc _ d, of P ?L] unfolding taken_down_def by blast
  have "pendingFunctors V = map ConnectDestroyed os" using q V p by simp
  then have "doPendingFunctors (conn_task ctl w mem other) V = Inr (pending_end W')"
    using W'(1) by (simp add: doPendingFunctors_def pending_defs run_all_destroyed)
  moreover have "taken_down os W (pending_end W')" using W'(3) io by (simp add: taken_down_def pending_end_def)
  moreover have "poller_inv view P (pending_end W')"
    unfolding pending_end_def by (subst poller_inv_cong [of _ W']) (use W'(2) in simp_all)
  ultimately show ?thesis using W'(4,5) by (simp add: pending_end_def)
qed

lemma count_told:
  assumes "distinct os" "q \<in> set os"
  shows "count_list (concat (map (\<lambda>q. told q (c q)) os)) (ConnectionCall q kDisconnected) = (if c_state (c q) = kConnected then 1 else 0)"
  using assms
proof (induction os)
  case (Cons a os)
  have none: "count_list (concat (map (\<lambda>q. told q (c q)) us)) (ConnectionCall q kDisconnected) = 0" if "q \<notin> set us" for us
    using that by (induction us) (auto simp: told_def)
  show ?case
  proof (cases "a = q")
    case True
    then show ?thesis using Cons.prems none [of os] by (simp add: told_def)
  next
    case False
    then show ?thesis using Cons by (simp add: told_def)
  qed
qed simp

text \<open>A server at rest, seen by its destructor.\<close>

lemma at_rest_used:
  assumes inv: "world_inv view h w" and rest: "\<forall>l\<in>loop_set (srv w). pcs w l = Waiting \<and> pendingFunctors (ios (srv w) l) = []"
    and p: "p \<in> used_chans h (rests w) (srv w) l" "p \<notin> base_chans (srv w) l"
  shows "conn_loop (srv w) p = l \<and> p \<in> ran (connections (srv w))"
proof -
  have c: "created h (srv w) p" "conn_loop (srv w) p = l" "held (rests w) (srv w) p" using p by (auto simp: used_chans_def)
  have "life_tasks (rests w) (srv w) p m = []" if "m \<in> loop_set (srv w)" for m
    using rest that by (simp add: life_tasks_def todo_def rests_def)
  then have "life_at (srv w) p \<noteq> Gone" using c(3) by (auto simp: held_def)
  then show ?thesis using rest_life [OF inv rest c(1)] c(2) by auto
qed

lemma at_rest_own:
  assumes inv: "world_inv view h w" and rest: "\<forall>l\<in>loop_set (srv w). pcs w l = Waiting \<and> pendingFunctors (ios (srv w) l) = []"
    and m: "\<And>q. q \<in> set os \<longleftrightarrow> q \<in> ran (connections (srv w)) \<and> conn_loop (srv w) q = l" and q: "q \<in> set os"
  shows "q \<in> used_chans h (rests w) (srv w) l \<and> wf_in q (ios (srv w) l) \<and> life_in q (ios (srv w) l) = Live"
  using q at_rest_open(3-5) [OF inv rest] unfolding m by (auto simp: ran_def)

lemma loop_after_destroy:
  assumes doc: "epoll_documented ctl view" and inv: "world_inv view h w"
    and rest: "\<forall>l\<in>loop_set (srv w). pcs w l = Waiting \<and> pendingFunctors (ios (srv w) l) = []" and l: "l \<in> loop_set (srv w)"
    and d: "distinct os" and m: "\<And>q. q \<in> set os \<longleftrightarrow> q \<in> ran (connections (srv w)) \<and> conn_loop (srv w) q = l"
    and V: "if l = s_loop (srv w)
      then \<exists>V0. run_all (connectDestroyed ctl) os (ios (srv w) l) = Inr V0 \<and> Acceptor_destroy ctl (s_acceptor (srv w)) V0 = Inr V
      else V = queue_all tid os (ios (srv w) l)"
  shows "\<exists>W. doPendingFunctors (conn_task ctl sys_write mem other) V = Inr W
    \<and> pendingFunctors W = [] \<and> (\<forall>fd e p. view (epollfd W) fd = Some (e, p) \<longrightarrow> p = wakeupChannel (ios (srv w) l))
    \<and> (\<forall>q\<in>ran (connections (srv w)). conn_loop (srv w) q = l \<longrightarrow>
         (let c = conns (ios (srv w) l) q; told = ConnectionCall q kDisconnected in
          c_state (conns W q) = (if c_state c = kConnected then kDisconnected else c_state c)
          \<and> count_list (calls W) told = count_list (calls (ios (srv w) l)) told + (if c_state c = kConnected then 1 else 0)))"
proof -
  let ?S = "srv w" and ?a = "acceptChannel (s_acceptor (srv w))"
  note i = world_invD(1) [OF inv]
  have p: "pendingFunctors (ios ?S l) = []" using rest l by simp
  have a: "?a \<notin> set os" if "l = s_loop ?S"
  proof
    assume "?a \<in> set os"
    then obtain n where "connections ?S n = Some ?a" using m by (auto simp: ran_def)
    then have "h \<le> ?a" using srv_invD(5) [OF i] by (simp add: created_def)
    then show False using srv_invD(2) [OF i l] that by (simp add: base_ok_def Let_def)
  qed
  have V': "(poller_inv view (used_chans h (rests w) ?S l) V \<and> taken_down os (ios ?S l) V \<and> pendingFunctors V = []
      \<or> V = queue_all tid os (ios ?S l)) \<and> (l = s_loop ?S \<longrightarrow> ch_index (chans V ?a) = kNew)"
  proof (cases "l = s_loop ?S")
    case True
    then obtain V0 where V0: "run_all (connectDestroyed ctl) os (ios ?S l) = Inr V0" "Acceptor_destroy ctl (s_acceptor ?S) V0 = Inr V"
      using V by auto
    have v0: "poller_inv view (used_chans h (rests w) ?S l) V0" "taken_down os (ios ?S l) V0" "pendingFunctors V0 = []"
      using destroy_all [OF doc srv_invD(1) [OF i l] d at_rest_own [OF inv rest m]] V0(1) p unfolding taken_down_def by auto
    have "?a \<in> used_chans h (rests w) ?S l" using True by (simp add: used_chans_def base_chans_def)
    from acceptor_destroyed [OF doc v0(1) this] V0(2) have A: "poller_inv view (used_chans h (rests w) ?S l) V"
        "ch_index (chans V ?a) = kNew" "\<forall>q. q \<noteq> ?a \<longrightarrow> chans V q = chans V0 q" "conns V = conns V0" "calls V = calls V0"
        "pendingFunctors V = pendingFunctors V0"
      by auto
    have "taken_down os (ios ?S l) V"
      using v0(2) A(3-5) a [OF True] unfolding taken_down_def by metis
    then show ?thesis using A v0(3) by simp
  qed (use V in simp)
  from loop_ends [OF doc srv_invD(1) [OF i l] d at_rest_own [OF inv rest m] p conjunct1 [OF V'], of sys_write mem other]
  obtain W where W: "doPendingFunctors (conn_task ctl sys_write mem other) V = Inr W"
      "poller_inv view (used_chans h (rests w) ?S l) W" "taken_down os (ios ?S l) W" "pendingFunctors W = []"
      "\<And>a. a \<notin> set os \<Longrightarrow> ch_index (chans V a) = kNew \<Longrightarrow> ch_index (chans W a) = kNew"
    by blast
  have "p = wakeupChannel (ios ?S l)" if v: "view (epollfd W) fd = Some (e, p)" for fd e p
  proof -
    have "interest W fd = Some (e, p)" using W(2) v by (simp add: poller_inv_def)
    then have c: "channels W fd = Some p" "ch_index (chans W p) = kAdded"
      by (auto simp: interest_def split: option.splits if_splits)
    from poller_inv_reg(2) [OF W(2) c(1)] have u: "p \<in> used_chans h (rests w) ?S l" by blast
    have "p \<in> base_chans ?S l"
    proof (rule ccontr)
      assume "p \<notin> base_chans ?S l"
      then have "p \<in> set os" using at_rest_used [OF inv rest u] m by simp
      then show False using W(3) c(2) by (simp add: taken_down_def index_defs)
    qed
    moreover have "p \<noteq> ?a" if "l = s_loop ?S"
      using W(5) [OF a [OF that]] V' that c(2) by (auto simp: index_defs)
    ultimately show ?thesis by (auto simp: base_chans_def split: if_splits)
  qed
  moreover have "c_state (conns W q) = (if c_state (conns (ios ?S l) q) = kConnected then kDisconnected else c_state (conns (ios ?S l) q))
      \<and> count_list (calls W) (ConnectionCall q kDisconnected) = count_list (calls (ios ?S l)) (ConnectionCall q kDisconnected)
          + (if c_state (conns (ios ?S l) q) = kConnected then 1 else 0)"
    if "q \<in> ran (connections ?S)" "conn_loop ?S q = l" for q
    using that W(3) count_told [OF d, of q "conns (ios ?S l)"] by (simp add: taken_down_def m down_def)
  ultimately show ?thesis using W(1,4) unfolding Let_def by blast
qed

section \<open>Properties\<close>

text \<open>
  C10: the destruction of a server.  Destroyed at rest, with its loops still running (and never raced by a call from
  another thread on a connection that closes meanwhile), it empties its map and takes the acceptor's channel out of
  the poller, and after the functors it leaves behind no loop watches anything but its wakeup channel; each connection
  that was connected is disconnected and its user told exactly once.  One that was being shut down keeps
  its state and its user is not told.
\<close>

theorem server_destroyed_cleanly:
  assumes "epoll_documented ctl view" and "server_ready view S" and "server_reachable ctl view S w"
    and rest: "\<forall>l\<in>loop_set (srv w). pcs w l = Waiting \<and> pendingFunctors (ios (srv w) l) = []"
    and ns: "distinct ns" "set ns = dom (connections (srv w))"
  shows "\<exists>S1. server_destroy ctl (threadId (ios (srv w) (s_loop (srv w)))) ns (srv w) = Inr S1 \<and> connections S1 = Map.empty
    \<and> (\<forall>l\<in>loop_set (srv w). \<exists>W. doPendingFunctors (conn_task ctl sys_write (\<lambda>_. None) (\<lambda>_. Inr)) (ios S1 l) = Inr W
        \<and> pendingFunctors W = [] \<and> (\<forall>fd e p. view (epollfd W) fd = Some (e, p) \<longrightarrow> p = wakeupChannel (ios (srv w) l))
        \<and> (\<forall>q\<in>ran (connections (srv w)). conn_loop (srv w) q = l \<longrightarrow>
             (let c = conns (ios (srv w) l) q; told = ConnectionCall q kDisconnected in
              c_state (conns W q) = (if c_state c = kConnected then kDisconnected else c_state c)
              \<and> count_list (calls W) told = count_list (calls (ios (srv w) l)) told + (if c_state c = kConnected then 1 else 0))))"
proof -
  let ?S = "srv w" and ?h = "next_obj S"
  let ?tid = "threadId (ios ?S (s_loop ?S))" and ?f = "\<lambda>n. the (connections ?S n)"
  define own where "own l = filter (\<lambda>q. conn_loop ?S q = l) (map ?f ns)" for l
  note inv = reachable_inv [OF assms(1-3)]
  note i = world_invD(1) [OF inv]
  have f: "connections ?S n = Some (?f n)" if "n \<in> set ns" for n using that ns(2) by (auto simp: dom_def)
  have "inj_on ?f (set ns)" by (rule inj_onI) (metis at_rest_open(1) [OF inv rest] f)
  then have d: "distinct (own l)" for l using ns(1) by (simp add: own_def distinct_map)
  have m: "q \<in> set (own l) \<longleftrightarrow> q \<in> ran (connections ?S) \<and> conn_loop ?S q = l" for q l
    using ns(2) f by (force simp: own_def ran_def dom_def)
  note os = at_rest_own [OF inv rest m]
  have e: "destroy_connections ctl ?tid ns ?S = rbind (run_all (connectDestroyed ctl) (own (s_loop ?S)) (ios ?S (s_loop ?S)))
    (\<lambda>W. Inr (?S\<lparr>connections := (\<lambda>n. if n \<in> set ns then None else connections ?S n),
        ios := (\<lambda>l. if l = s_loop ?S then W else queue_all ?tid (own l) (ios ?S l))\<rparr>))"
    unfolding own_def
  proof (rule destroy_connections_eq [OF ns(1), where L = "loop_set ?S"])
    show "connections ?S n = Some (?f n) \<and> conn_loop ?S (?f n) \<in> loop_set ?S" if "n \<in> set ns" for n
      using f [OF that] at_rest_open(2) [OF inv rest f [OF that]] by simp
    show "isInLoopThread ?tid (ios ?S l) \<longleftrightarrow> l = s_loop ?S" if "l \<in> loop_set ?S" for l
      using srv_invD(6) [OF i that own_loop_in_set] unfolding isInLoopThread_def by metis
  qed
  obtain V where V: "run_all (connectDestroyed ctl) (own (s_loop ?S)) (ios ?S (s_loop ?S)) = Inr V"
      "poller_inv view (used_chans ?h (rests w) ?S (s_loop ?S)) V"
    using destroy_all [OF assms(1) srv_invD(1) [OF i own_loop_in_set] d os] by blast
  have "acceptChannel (s_acceptor ?S) \<in> used_chans ?h (rests w) ?S (s_loop ?S)" by (simp add: used_chans_def base_chans_def)
  from acceptor_destroyed [OF assms(1) V(2) this] obtain V2 where V2: "Acceptor_destroy ctl (s_acceptor ?S) V = Inr V2" by blast
  define S1 where "S1 = ?S\<lparr>connections := (\<lambda>n. if n \<in> set ns then None else connections ?S n),
        ios := (\<lambda>l. if l = s_loop ?S then V2 else queue_all ?tid (own l) (ios ?S l))\<rparr>"
  have "server_destroy ctl ?tid ns ?S = Inr S1"
    using e V V2 by (simp add: S1_def server_destroy_def upd_io_def fun_upd_def fun_eq_iff)
  moreover have "connections S1 = Map.empty" using ns(2) by (auto simp: S1_def fun_eq_iff dom_def)
  moreover have "if l = s_loop ?S
      then \<exists>V0. run_all (connectDestroyed ctl) (own l) (ios ?S l) = Inr V0 \<and> Acceptor_destroy ctl (s_acceptor ?S) V0 = Inr (ios S1 l)
      else ios S1 l = queue_all ?tid (own l) (ios ?S l)" for l
    using V V2 by (simp add: S1_def)
  note loop_after_destroy [OF assms(1) inv rest _ d m this, of _ sys_write]
  ultimately show ?thesis by blast
qed

lemma server_destroyed_cleanly_witness:
  "\<exists>w S1. server_reachable list_ctl (\<lambda>k. k) ready_server w \<and> connections (srv w) = [''web-0.0.0.0:80#1'' \<mapsto> 3]
     \<and> server_destroy list_ctl (threadId (ios (srv w) (s_loop (srv w)))) [''web-0.0.0.0:80#1''] (srv w) = Inr S1
     \<and> connections S1 = Map.empty"
proof -
  obtain w where "settled w" using settled_reachable by blast
  then have w: "server_reachable list_ctl (\<lambda>k. k) ready_server w" "connections (srv w) = [''web-0.0.0.0:80#1'' \<mapsto> 3]"
      "\<forall>l\<in>loop_set (srv w). pcs w l = Waiting \<and> pendingFunctors (ios (srv w) l) = []"
    by (simp_all add: settled_def)
  have "distinct [''web-0.0.0.0:80#1'']" "set [''web-0.0.0.0:80#1''] = dom (connections (srv w))" using w(2) by simp_all
  from server_destroyed_cleanly [OF list_ctl_documented ready_server_ready w(1,3) this] w show ?thesis by blast
qed

end
