(* ===== verification/Server_Race.thy ===== *)
theory Server_Race
  imports Server_End
begin

text \<open>
  The calls of \<open>send(Buffer *)\<close> and \<open>shutdown\<close> from another thread with every one of their steps: the test of the
  state, the setting of the state, the queueing of the functor.  Between them the connection can close and be
  destroyed.  As long as that does not happen these are the runs of \<open>Server_Run\<close>; when it does, a functor can
  run on an object nobody owns, and a connection the server has given up can be marked again as about to disconnect.
  Something alike can happen to the server itself when it is destroyed before its loops are at rest.
\<close>

section \<open>The calls, step by step\<close>

text \<open>
  A call in progress, in thread \<open>tid\<close>: it has found the connection connected and is about to queue its bytes; it has
  found it connected and is about to set its state; it has set the state and is about to queue the half-close.
  A thread holds a pointer to the connection while it calls, and after the call no more.
\<close>

datatype foreign_call = WillSend int obj "char list" | WillMark int obj | WillHalfClose int obj

text \<open>
  The server's steps, with the calls \<open>cs\<close> in progress.  An act is allowed where \<open>ok\<close> holds of the world and the connection.
\<close>

inductive calls_run :: "('k world \<Rightarrow> obj \<Rightarrow> bool) \<Rightarrow> 'k epoll_ctl \<Rightarrow> ('k \<Rightarrow> int \<rightharpoonup> epoll_event) \<Rightarrow> 'k server \<Rightarrow> 'k world
    \<Rightarrow> foreign_call set \<Rightarrow> bool" for ok ctl view S where
  run_start: "calls_run ok ctl view S (world_start S) {}"
| run_server: "calls_run ok ctl view S w cs \<Longrightarrow> server_step ctl view w w' \<Longrightarrow> calls_run ok ctl view S w' cs"
| test_send: "calls_run ok ctl view S w cs \<Longrightarrow> connections (srv w) n = Some q
    \<Longrightarrow> c_state (conns (ios (srv w) (conn_loop (srv w) q)) q) = kConnected
    \<Longrightarrow> tid \<noteq> threadId (ios (srv w) (conn_loop (srv w) q)) \<Longrightarrow> length ds < 2 ^ 31
    \<Longrightarrow> calls_run ok ctl view S w (insert (WillSend tid q ds) cs)"
| act_send: "calls_run ok ctl view S w cs \<Longrightarrow> WillSend tid q ds \<in> cs \<Longrightarrow> ok w q \<Longrightarrow> l = conn_loop (srv w) q
    \<Longrightarrow> tid \<noteq> threadId (ios (srv w) l) \<Longrightarrow> length ds < 2 ^ 31
    \<Longrightarrow> calls_run ok ctl view S (w\<lparr>srv := upd_loop l (queueInLoop tid (SendInLoopStr q ds) (ios (srv w) l)) (srv w)\<rparr>)
          (cs - {WillSend tid q ds})"
| test_shutdown: "calls_run ok ctl view S w cs \<Longrightarrow> connections (srv w) n = Some q
    \<Longrightarrow> c_state (conns (ios (srv w) (conn_loop (srv w) q)) q) = kConnected
    \<Longrightarrow> tid \<noteq> threadId (ios (srv w) (conn_loop (srv w) q)) \<Longrightarrow> calls_run ok ctl view S w (insert (WillMark tid q) cs)"
| act_mark: "calls_run ok ctl view S w cs \<Longrightarrow> WillMark tid q \<in> cs \<Longrightarrow> ok w q \<Longrightarrow> l = conn_loop (srv w) q
    \<Longrightarrow> calls_run ok ctl view S (w\<lparr>srv := upd_loop l (setState kDisconnecting q (ios (srv w) l)) (srv w)\<rparr>)
          (insert (WillHalfClose tid q) (cs - {WillMark tid q}))"
| act_half_close: "calls_run ok ctl view S w cs \<Longrightarrow> WillHalfClose tid q \<in> cs \<Longrightarrow> ok w q \<Longrightarrow> l = conn_loop (srv w) q
    \<Longrightarrow> tid \<noteq> threadId (ios (srv w) l)
    \<Longrightarrow> calls_run ok ctl view S (w\<lparr>srv := upd_loop l (queueInLoop tid (ShutdownInLoop q) (ios (srv w) l)) (srv w)\<rparr>)
          (cs - {WillHalfClose tid q})"

text \<open>Every interleaving; and those in which no connection closes between the test and the acts of a call on it.\<close>

definition race_reachable :: "'k epoll_ctl \<Rightarrow> ('k \<Rightarrow> int \<rightharpoonup> epoll_event) \<Rightarrow> 'k server \<Rightarrow> 'k world \<Rightarrow> foreign_call set \<Rightarrow> bool" where
  "race_reachable = calls_run (\<lambda>w q. True)"

definition still_open :: "'k world \<Rightarrow> obj \<Rightarrow> bool" where
  "still_open w q \<longleftrightarrow> q \<in> ran (connections (srv w))
     \<and> c_state (conns (ios (srv w) (conn_loop (srv w) q)) q) \<in> {kConnected, kDisconnecting}"

definition calm_reachable :: "'k epoll_ctl \<Rightarrow> ('k \<Rightarrow> int \<rightharpoonup> epoll_event) \<Rightarrow> 'k server \<Rightarrow> 'k world \<Rightarrow> foreign_call set \<Rightarrow> bool" where
  "calm_reachable = calls_run still_open"

text \<open>The steps of a call that is not interrupted do what the call does.\<close>

lemma send_buffer_steps:
  assumes "tid \<noteq> threadId W" "buffer_inv buf" "c_state (conns W q) = kConnected"
  shows "\<exists>buf'. send_buffer ctl w run tid buf q W = Inr (buf', queueInLoop tid (SendInLoopStr q (contents buf)) W)"
proof -
  obtain b1 where "retrieveAllAsString buf = Inr (contents buf, b1)"
    using read_all_contents [OF assms(2)] by (simp add: retrieveAllAsString_def retrieveAsString_def)
  then show ?thesis using assms(1,3) by (simp add: send_buffer_def isInLoopThread_def runInLoop_def)
qed

lemma shutdown_steps:
  assumes "tid \<noteq> threadId W" "c_state (conns W q) = kConnected"
  shows "conn_shutdown run tid q W = Inr (queueInLoop tid (ShutdownInLoop q) (setState kDisconnecting q W))"
  using assms by (simp add: conn_shutdown_def isInLoopThread_def runInLoop_def)

lemma no_call_steps:
  assumes "c_state (conns W q) \<noteq> kConnected"
  shows "send_buffer ctl w run tid buf q W = Inr (buf, W)" "conn_shutdown run tid q W = Inr W"
  using assms by (simp_all add: send_buffer_def conn_shutdown_def)

text \<open>The runs of the properties: those in which every act still finds the connection open.\<close>

lemma calm_server_reachable:
  assumes doc: "epoll_documented ctl view" and ready: "server_ready view S" and r: "calm_reachable ctl view S w cs"
  shows "server_reachable ctl view S w"
  using r unfolding calm_reachable_def
proof induction
  case run_start
  show ?case by (rule server_reachable.start)
next
  case (run_server w cs w')
  show ?case by (rule server_reachable.step [OF run_server.IH run_server.hyps(2)])
next
  case (act_send w cs tid q ds l)
  then obtain n where n: "connections (srv w) n = Some q" by (auto simp: still_open_def ran_def)
  have "l \<in> loop_set (srv w)"
    using srv_invD(4,5) [OF world_invD(1) [OF reachable_inv [OF doc ready act_send.IH]]] n act_send.hyps(4) by (auto simp: obj_inv_def)
  from foreign_send [OF this n act_send.hyps(4) [symmetric] _ act_send.hyps(5,6)] act_send.hyps(3,4)
  show ?case by (intro server_reachable.step [OF act_send.IH]) (simp add: still_open_def)
next
  case (act_mark w cs tid q l)
  then obtain n where n: "connections (srv w) n = Some q" by (auto simp: still_open_def ran_def)
  have "l \<in> loop_set (srv w)"
    using srv_invD(4,5) [OF world_invD(1) [OF reachable_inv [OF doc ready act_mark.IH]]] n act_mark.hyps(4) by (auto simp: obj_inv_def)
  from foreign_mark [OF this n act_mark.hyps(4) [symmetric]] act_mark.hyps(3,4)
  show ?case by (intro server_reachable.step [OF act_mark.IH]) (simp add: still_open_def)
next
  case (act_half_close w cs tid q l)
  then obtain n where n: "connections (srv w) n = Some q" by (auto simp: still_open_def ran_def)
  have "l \<in> loop_set (srv w)"
    using srv_invD(4,5) [OF world_invD(1) [OF reachable_inv [OF doc ready act_half_close.IH]]] n act_half_close.hyps(4) by (auto simp: obj_inv_def)
  from foreign_shutdown [OF this n act_half_close.hyps(4) [symmetric] _ act_half_close.hyps(5)] act_half_close.hyps(3,4)
  show ?case by (intro server_reachable.step [OF act_half_close.IH]) (simp add: still_open_def)
qed

lemma race_from_server:
  assumes "server_reachable ctl view S w"
  shows "race_reachable ctl view S w {}"
  using assms unfolding race_reachable_def by induction (auto intro: calls_run.intros)

lemma race_steps:
  assumes "race_reachable ctl view S w cs" "(server_step ctl view)\<^sup>*\<^sup>* w w'"
  shows "race_reachable ctl view S w' cs"
  using assms(2,1) unfolding race_reachable_def by (induction rule: rtranclp_induct) (auto intro: run_server)

section \<open>A connection closes and is destroyed\<close>

text \<open>Both loops wait; \<open>p0\<close> and \<open>p1\<close> are queued.\<close>

definition stage :: "(int \<rightharpoonup> epoll_event) world \<Rightarrow> (string \<rightharpoonup> obj) \<Rightarrow> task list \<Rightarrow> task list \<Rightarrow> (int \<rightharpoonup> epoll_event) world \<Rightarrow> bool" where
  "stage w0 m p0 p1 w \<longleftrightarrow> (server_step list_ctl (\<lambda>k. k))\<^sup>*\<^sup>* w0 w \<and> server_reachable list_ctl (\<lambda>k. k) ready_server w
     \<and> connections (srv w) = m \<and> conn_loop (srv w) 3 = 1 \<and> loop_set (srv w) = {0, 1} \<and> s_loop (srv w) = 0
     \<and> pcs w 0 = Waiting \<and> pcs w 1 = Waiting \<and> pendingFunctors (ios (srv w) 0) = p0 \<and> pendingFunctors (ios (srv w) 1) = p1
     \<and> length (evlist (ios (srv w) 0)) = 16 \<and> length (evlist (ios (srv w) 1)) = 16"

lemma removeChannel_keeps: "removeChannel ctl p W = Inr W' \<Longrightarrow> evlist W' = evlist W"
  by (auto simp: removeChannel_def Let_def rbind_eq_Inr set_index_def set_chan_def dest!: epoll_update_keeps split: if_splits)

lemma connectDestroyed_evlist:
  assumes "connectDestroyed ctl o1 W = Inr W'"
  shows "evlist W' = evlist W"
  using assms by (auto simp: connectDestroyed_def Let_def rbind_eq_Inr call_connection_def call_user_def setState_def set_conn_def disableAll_def
      dest!: change_events_keeps(1) removeChannel_keeps split: if_splits)

lemma handleClose_evlist:
  assumes "handleClose ctl (\<lambda>_. Inr) o1 W = Inr W'"
  shows "evlist W' = evlist W"
  using assms by (auto simp: handleClose_def rbind_eq_Inr call_connection_def call_user_def setState_def set_conn_def disableAll_def
      dest!: change_events_keeps(1) split: if_splits)

text \<open>A round of a loop with one functor queued.\<close>

lemma one_round:
  fixes w :: "(int \<rightharpoonup> epoll_event) world"
  assumes r: "server_reachable list_ctl (\<lambda>k. k) ready_server w"
    and l: "l \<in> loop_set (srv w)" "pcs w l = Waiting" "length (evlist (ios (srv w) l)) < 2 ^ 31"
    and t: "pendingFunctors (ios (srv w) l) = [t]" "task_ok E t (srv w)"
  shows "\<exists>W S' H. pendingFunctors W = [] \<and> evlist W = evlist (ios (srv w) l) \<and> quiet (ios (srv w) l) W
    \<and> run_task list_ctl l E t (upd_loop l W (srv w)) = Inr S'
    \<and> (server_step list_ctl (\<lambda>k. k))\<^sup>*\<^sup>* w (w\<lparr>srv := upd_loop l (pending_end (ios S' l)) S', hist := H\<rparr>)"
proof -
  let ?step = "server_step list_ctl (\<lambda>k. k)"
  obtain W where W: "quiet (ios (srv w) l) W" "pendingFunctors W = []" "evlist W = evlist (ios (srv w) l)"
      "?step\<^sup>*\<^sup>* w (w\<lparr>srv := upd_loop l W (srv w), pcs := (pcs w)(l := Functors [t] [t])\<rparr>)"
    using run_swap [OF l, of list_ctl "\<lambda>k. k"] unfolding t(1) by blast
  let ?w1 = "w\<lparr>srv := upd_loop l W (srv w), pcs := (pcs w)(l := Functors [t] [t])\<rparr>"
  note i = world_invD(1) [OF reachable_inv [OF list_ctl_documented ready_server_ready steps_reachable [OF r W(4)]]]
  have R: "rests ?w1 l = [t]" and l1: "l \<in> loop_set (srv ?w1)" using l(1) by (simp_all add: rests_def)
  have ok: "task_ok E t (srv ?w1)" using t(2) W(1) by (cases t) (auto simp: quiet_def)
  from run_task_ok [OF list_ctl_documented i l1 R refl ok]
  obtain S' Y where S': "run_task list_ctl l E t (srv ?w1) = Inr S'" "carried (next_obj ready_server) Y (srv ?w1) S'"
    by (elim exE conjE)
  let ?H = "note_task E t (srv ?w1) (hist ?w1)"
  let ?w2 = "?w1\<lparr>srv := S', pcs := (pcs ?w1)(l := Functors [] [t]), hist := ?H\<rparr>"
  have 1: "?step ?w1 ?w2" by (rule functor_step [OF l1 _ ok S'(1)]) simp
  have ls: "loop_set S' = loop_set (srv w)" using S'(2) by (simp add: carried_def)
  have 2: "?step ?w2 (?w2\<lparr>srv := upd_loop l (pending_end (ios (srv ?w2) l)) (srv ?w2), pcs := (pcs ?w2)(l := Waiting)\<rparr>)"
    by (rule round_end) (use l(1) ls in simp_all)
  have e: "?w2\<lparr>srv := upd_loop l (pending_end (ios (srv ?w2) l)) (srv ?w2), pcs := (pcs ?w2)(l := Waiting)\<rparr>
      = w\<lparr>srv := upd_loop l (pending_end (ios S' l)) S', hist := ?H\<rparr>"
    using l(2) by (simp add: fun_upd_idem)
  define w3 where "w3 = w\<lparr>srv := upd_loop l (pending_end (ios S' l)) S', hist := ?H\<rparr>"
  have "?step ?w2 w3" using 2 unfolding e w3_def .
  with 1 have "?step\<^sup>*\<^sup>* ?w1 w3" by (rule converse_rtranclp_into_rtranclp [OF _ r_into_rtranclp])
  with W(4) have "?step\<^sup>*\<^sup>* w w3" by (rule rtranclp_trans)
  then have "?step\<^sup>*\<^sup>* w (w\<lparr>srv := upd_loop l (pending_end (ios S' l)) S', hist := ?H\<rparr>)" unfolding w3_def .
  then show ?thesis using W(1-3) S'(1) by (intro exI [of _ W] exI [of _ S'] exI [of _ ?H]) simp
qed

lemma stageD:
  assumes "stage w0 m p0 p1 w"
  shows "(server_step list_ctl (\<lambda>k. k))\<^sup>*\<^sup>* w0 w" "server_reachable list_ctl (\<lambda>k. k) ready_server w"
    "connections (srv w) = m" "conn_loop (srv w) 3 = 1" "loop_set (srv w) = {0, 1}" "s_loop (srv w) = 0"
    "pcs w 0 = Waiting" "pcs w 1 = Waiting" "pendingFunctors (ios (srv w) 0) = p0" "pendingFunctors (ios (srv w) 1) = p1"
    "length (evlist (ios (srv w) 0)) = 16" "length (evlist (ios (srv w) 1)) = 16"
  using assms unfolding stage_def by blast+

lemma loop_set_upd: "loop_set (S\<lparr>ios := f\<rparr>) = loop_set S" "loop_set (S\<lparr>connections := c\<rparr>) = loop_set S"
  by (simp_all add: loop_set_def)

lemma evlist_queue: "evlist (queueInLoop tid t W) = evlist W"
  by (simp add: queue_defs)

lemma removed_stage:
  assumes "stage w0 [n \<mapsto> 3] [RemoveConnectionInLoop 3] [] w"
  shows "\<exists>w'. stage w0 Map.empty [] [ConnectDestroyed 3] w'"
proof -
  note One_nat_def [simp del]
  note d = stageD [OF assms]
  note i = world_invD(1) [OF reachable_inv [OF list_ctl_documented ready_server_ready d(2)]]
  have q: "created (next_obj ready_server) (srv w) 3 \<and> n = obj_name (next_obj ready_server) (srv w) 3"
    using srv_invD(5) [OF i, of n 3] d(3) by simp
  then have "obj_inv (next_obj ready_server) (rests w) (srv w) 3" using srv_invD(4) [OF i] by simp
  then have c: "c_name (conns (ios (srv w) 1) 3) = n" using q d(4) by (simp add: obj_inv_def)
  have l: "0 \<in> loop_set (srv w)" "length (evlist (ios (srv w) 0)) < 2 ^ 31" using d(5,11) by simp_all
  obtain W S' E H where W: "pendingFunctors W = []" "evlist W = evlist (ios (srv w) 0)"
      "run_task list_ctl 0 E (RemoveConnectionInLoop 3) (upd_loop 0 W (srv w)) = Inr S'"
      "(server_step list_ctl (\<lambda>k. k))\<^sup>*\<^sup>* w (w\<lparr>srv := upd_loop 0 (pending_end (ios S' 0)) S', hist := H\<rparr>)"
    using one_round [OF d(2) l(1) d(7) l(2) d(9)] by fastforce
  have S': "S' = (upd_loop 0 W (srv w))\<lparr>connections := Map.empty,
      ios := (ios (upd_loop 0 W (srv w)))(1 := queueInLoop (threadId W) (ConnectDestroyed 3) (ios (srv w) 1))\<rparr>"
    using W(3) c d(3,4) by (auto simp: removeConnectionInLoop_def Let_def upd_io_Inr)
  have "stage w0 Map.empty [] [ConnectDestroyed 3] (w\<lparr>srv := upd_loop 0 (pending_end (ios S' 0)) S', hist := H\<rparr>)"
    using rtranclp_trans [OF d(1) W(4)] steps_reachable [OF d(2) W(4)] d(3-) W(1,2)
    unfolding stage_def by (simp add: S' pending_end_def evlist_queue loop_set_upd)
  then show ?thesis by blast
qed

lemma destroyed_stage:
  assumes "stage w0 m [] [ConnectDestroyed 3] w"
  shows "\<exists>w'. stage w0 m [] [] w'"
proof -
  note One_nat_def [simp del]
  note d = stageD [OF assms]
  have l: "1 \<in> loop_set (srv w)" "length (evlist (ios (srv w) 1)) < 2 ^ 31" using d(5,12) by simp_all
  obtain W S' E H where W: "pendingFunctors W = []" "evlist W = evlist (ios (srv w) 1)"
      "run_task list_ctl 1 E (ConnectDestroyed 3) (upd_loop 1 W (srv w)) = Inr S'"
      "(server_step list_ctl (\<lambda>k. k))\<^sup>*\<^sup>* w (w\<lparr>srv := upd_loop 1 (pending_end (ios S' 1)) S', hist := H\<rparr>)"
    using one_round [OF d(2) l(1) d(8) l(2) d(10)] by fastforce
  then obtain W' where W': "connectDestroyed list_ctl 3 W = Inr W'" "S' = (upd_loop 1 W (srv w))\<lparr>ios := (ios (upd_loop 1 W (srv w)))(1 := W')\<rparr>"
    by (auto simp: upd_io_Inr)
  have "stage w0 m [] [] (w\<lparr>srv := upd_loop 1 (pending_end (ios S' 1)) S', hist := H\<rparr>)"
    using rtranclp_trans [OF d(1) W(4)] steps_reachable [OF d(2) W(4)] d(3-) W(1,2)
      connectDestroyed_evlist [OF W'(1)] connectDestroyed_pending [OF W'(1)]
    unfolding stage_def by (simp add: W'(2) pending_end_def loop_set_upd)
  then show ?thesis by blast
qed

text \<open>The peer hangs up: the connection's loop closes it and asks the server's loop to remove it.\<close>

lemma hangup_dispatch:
  assumes "settled w0"
  shows "\<exists>w. (server_step list_ctl (\<lambda>k. k))\<^sup>*\<^sup>* w0 w \<and> connections (srv w) = [''web-0.0.0.0:80#1'' \<mapsto> 3] \<and> conn_loop (srv w) 3 = 1
    \<and> loop_set (srv w) = {0, 1} \<and> s_loop (srv w) = 0 \<and> pcs w 0 = Waiting \<and> pcs w 1 = Dispatching [ConnHandleClose 3] []
    \<and> (\<forall>l\<in>{0, 1}. pendingFunctors (ios (srv w) l) = [] \<and> length (evlist (ios (srv w) l)) = 16)"
proof -
  note One_nat_def [simp del]
  let ?L = "ios (srv w0) 1"
  have s: "server_reachable list_ctl (\<lambda>k. k) ready_server w0" "connections (srv w0) = [''web-0.0.0.0:80#1'' \<mapsto> 3]"
    "conn_loop (srv w0) 3 = 1" "loop_set (srv w0) = {0, 1}" "s_loop (srv w0) = 0"
    "\<forall>l\<in>loop_set (srv w0). pcs w0 l = Waiting \<and> pendingFunctors (ios (srv w0) l) = [] \<and> length (evlist (ios (srv w0) l)) = 16"
    using assms by (simp_all add: settled_def)
  note inv = reachable_inv [OF list_ctl_documented ready_server_ready s(1)]
  have rest: "\<forall>l\<in>loop_set (srv w0). pcs w0 l = Waiting \<and> pendingFunctors (ios (srv w0) l) = []"
    and sz: "length (evlist ?L) = 16" "0 < length (evlist ?L)" "length (evlist ?L) < 2 ^ 31" using s(4,6) by simp_all
  have n: "connections (srv w0) ''web-0.0.0.0:80#1'' = Some 3" using s(2) by simp
  have "closeCallback (chans ?L 3) = Some (ConnHandleClose 3)"
    using at_rest_open(4) [OF inv rest n] s(3) by (simp add: in_defs conn_wf_def conn_bound_def)
  then have d: "handleEventWithGuard ((chans ?L 3)\<lparr>ch_revents := 16\<rparr>) = [ConnHandleClose 3]"
    by (simp add: handleEventWithGuard_def invoke_def epoll_bits)
  from event_dispatch [where r = 16 and ctl = list_ctl, OF inv rest n s(3) sz(2,3)] obtain W where
    W: "pendingFunctors W = []" "length (evlist W) = 16"
      "(server_step list_ctl (\<lambda>k. k))\<^sup>*\<^sup>* w0 (w0\<lparr>srv := upd_loop 1 W (srv w0), pcs := (pcs w0)(1 := Dispatching [ConnHandleClose 3] [])\<rparr>)"
    unfolding d sz(1) by auto
  show ?thesis
    by (rule exI [of _ "w0\<lparr>srv := upd_loop 1 W (srv w0), pcs := (pcs w0)(1 := Dispatching [ConnHandleClose 3] [])\<rparr>"])
      (use W s in simp)
qed

lemma closed_stage:
  assumes "settled w0"
  shows "\<exists>w. stage w0 [''web-0.0.0.0:80#1'' \<mapsto> 3] [RemoveConnectionInLoop 3] [] w"
proof -
  note One_nat_def [simp del]
  let ?step = "server_step list_ctl (\<lambda>k. k)"
  obtain w where w: "?step\<^sup>*\<^sup>* w0 w" "connections (srv w) = [''web-0.0.0.0:80#1'' \<mapsto> 3]" "conn_loop (srv w) 3 = 1"
      "loop_set (srv w) = {0, 1}" "s_loop (srv w) = 0" "pcs w 0 = Waiting" "pcs w 1 = Dispatching [ConnHandleClose 3] []"
      "\<forall>l\<in>{0, 1}. pendingFunctors (ios (srv w) l) = [] \<and> length (evlist (ios (srv w) l)) = 16"
    using hangup_dispatch [OF assms] by (elim exE conjE)
  have r0: "server_reachable list_ctl (\<lambda>k. k) ready_server w0" using assms by (simp add: settled_def)
  note r = steps_reachable [OF r0 w(1)]
  note inv = reachable_inv [OF list_ctl_documented ready_server_ready r]
  note i = world_invD(1) [OF inv]
  have l: "1 \<in> loop_set (srv w)" "0 \<in> loop_set (srv w)" using w(4) by simp_all
  have e: "env_ok (alive w) E (ConnHandleClose 3) (srv w)" for E by simp
  have "cb_fine (next_obj ready_server) (srv w) 1 (ConnHandleClose 3)"
    using world_invD(2) [OF inv l(1)] w(7) by (simp add: pc_inv_def)
  have "reads_ok E (ConnHandleClose 3) (srv w)" for E by (simp add: reads_ok_def)
  from run_callback_ok [OF list_ctl_documented i l(1) \<open>cb_fine (next_obj ready_server) (srv w) 1 (ConnHandleClose 3)\<close> e this held_alive [OF inv]]
  obtain S' E where S': "run_callback list_ctl 1 E (ConnHandleClose 3) (srv w) = Inr S'" by blast
  then obtain W where W: "handleClose list_ctl (\<lambda>_. Inr) 3 (ios (srv w) 1) = Inr W"
      "removeConnection (threadId (ios (srv w) 1)) 3 (upd_loop 1 W (srv w)) = Inr S'"
    using w(3) by (auto simp: server_handleClose_def rbind_eq_Inr upd_io_Inr upd_loop_def)
  have "threadId (ios (srv w) 0) \<noteq> threadId (ios (srv w) 1)" using srv_invD(6) [OF i l] by auto
  then have S: "S' = upd_loop 0 (queueInLoop (threadId (ios (srv w) 1)) (RemoveConnectionInLoop 3) (ios (srv w) 0)) (upd_loop 1 W (srv w))"
    using W(2) w(5) by (simp add: removeConnection_def run_in_def isInLoopThread_def upd_io_def upd_loop_def)
  have k: "pendingFunctors W = []" "length (evlist W) = 16"
    using handleClose_pending [OF W(1)] handleClose_evlist [OF W(1)] w(8) by simp_all
  define w1 where "w1 = w\<lparr>srv := S', pcs := (pcs w)(1 := Dispatching [] [])\<rparr>"
  have 1: "?step w w1" unfolding w1_def by (rule callback_step [OF l(1) w(7) e S'])
  define w2 where "w2 = w1\<lparr>srv := upd_loop 1 (W\<lparr>callingPendingFunctors := True, pendingFunctors := []\<rparr>) (srv w1),
    pcs := (pcs w1)(1 := Functors [] [])\<rparr>"
  have 2: "?step w1 w2" unfolding w2_def
    by (rule swap_step) (use l k(1) in \<open>simp_all add: w1_def S pending_defs\<close>)
  define w3 where "w3 = w2\<lparr>srv := upd_loop 1 (pending_end (ios (srv w2) 1)) (srv w2), pcs := (pcs w2)(1 := Waiting)\<rparr>"
  have 3: "?step w2 w3" unfolding w3_def
    by (rule round_end) (use l in \<open>simp_all add: w1_def w2_def S\<close>)
  have s: "?step\<^sup>*\<^sup>* w w3"
    by (intro converse_rtranclp_into_rtranclp [of ?step, OF 1] converse_rtranclp_into_rtranclp [of ?step, OF 2]
        r_into_rtranclp [of ?step] 3)
  have "stage w0 [''web-0.0.0.0:80#1'' \<mapsto> 3] [RemoveConnectionInLoop 3] [] w3"
    using rtranclp_trans [OF w(1) s] steps_reachable [OF r s] w(2-6,8) k
    unfolding stage_def by (simp add: w3_def w2_def w1_def S pending_end_def queue_defs)
  then show ?thesis by blast
qed

section \<open>The call that comes too late\<close>

text \<open>
  C18: what is not safe.  A \<open>send(Buffer *)\<close> from another thread finds the connection connected; before its
  functor is queued the peer hangs up and the connection is destroyed.  The functor is then run, in the
  thread of the connection's loop, with \<open>this\<close> pointing to an object that has been released: the code can
  reach a use after free.
\<close>

theorem server_send_race:
  "\<exists>w ds. race_reachable list_ctl (\<lambda>k. k) ready_server w {}
     \<and> pcs w 1 = Functors [SendInLoopStr 3 ds] [SendInLoopStr 3 ds] \<and> conn_loop (srv w) 3 = 1 \<and> \<not> alive w 3"
proof -
  note One_nat_def [simp del]
  let ?race = "race_reachable list_ctl (\<lambda>k. k) ready_server" and ?ds = "''hello''"
  obtain w0 where w0: "settled w0" using settled_reachable by blast
  then have s: "server_reachable list_ctl (\<lambda>k. k) ready_server w0" "connections (srv w0) ''web-0.0.0.0:80#1'' = Some 3"
      "c_state (conns (ios (srv w0) (conn_loop (srv w0) 3)) 3) = kConnected" "conn_loop (srv w0) 3 = 1"
    by (simp_all add: settled_def)
  obtain w where w: "stage w0 Map.empty [] [] w"
    using closed_stage [OF w0] removed_stage destroyed_stage by blast
  note d = stageD [OF w]
  let ?tid = "\<bar>threadId (ios (srv w0) 1)\<bar> + \<bar>threadId (ios (srv w) 1)\<bar> + 1"
  have t: "?tid \<noteq> threadId (ios (srv w0) 1)" "?tid \<noteq> threadId (ios (srv w) 1)" by simp_all
  have 1: "?race w0 {WillSend ?tid 3 ?ds}"
    using test_send [OF race_from_server [OF s(1), unfolded race_reachable_def] s(2,3), of ?tid ?ds] s(4) t(1)
    by (simp add: race_reachable_def)
  have 2: "?race w {WillSend ?tid 3 ?ds}" by (rule race_steps [OF 1 d(1)])
  define w1 where "w1 = w\<lparr>srv := upd_loop 1 (queueInLoop ?tid (SendInLoopStr 3 ?ds) (ios (srv w) 1)) (srv w)\<rparr>"
  have "?race w1 ({WillSend ?tid 3 ?ds} - {WillSend ?tid 3 ?ds})"
    using act_send [OF 2 [unfolded race_reachable_def], of ?tid 3 ?ds 1] d(4) t(2) by (simp add: w1_def race_reachable_def)
  then have 3: "?race w1 {}" by simp
  have l: "1 \<in> loop_set (srv w1)" "pcs w1 1 = Waiting" "length (evlist (ios (srv w1) 1)) < 2 ^ 31"
    "pendingFunctors (ios (srv w1) 1) = [SendInLoopStr 3 ?ds]"
    using d(5,8,10,12) by (simp_all add: w1_def queue_defs)
  obtain W where W: "pendingFunctors W = []"
      "(server_step list_ctl (\<lambda>k. k))\<^sup>*\<^sup>* w1 (w1\<lparr>srv := upd_loop 1 W (srv w1), pcs := (pcs w1)(1 := Functors [SendInLoopStr 3 ?ds] [SendInLoopStr 3 ?ds])\<rparr>)"
    using run_swap [OF l(1-3), of list_ctl "\<lambda>k. k"] unfolding l(4) by blast
  define w2 where "w2 = w1\<lparr>srv := upd_loop 1 W (srv w1), pcs := (pcs w1)(1 := Functors [SendInLoopStr 3 ?ds] [SendInLoopStr 3 ?ds])\<rparr>"
  have "?race w2 {}" unfolding w2_def by (rule race_steps [OF 3 W(2)])
  moreover have "\<not> alive w2 3"
    using d W(1) by (simp add: alive_def w2_def w1_def holds_obj_def life_task_def notice_def)
  ultimately show ?thesis using d(4) by (intro exI [of _ w2] exI [of _ ?ds]) (simp add: w2_def w1_def)
qed

text \<open>
  And a \<open>shutdown\<close> from another thread finds the connection connected; before it sets the state the peer hangs up, the
  connection is closed, its user told, and the server forgets it.  Then \<open>setState\<close> puts \<open>kDisconnecting\<close> over
  \<open>kDisconnected\<close>: \<open>connectDestroyed\<close>, still queued, will find a connection in a state it has left, and the functor of the
  half-close is bound to it by its address only.
\<close>

theorem server_shutdown_race:
  "\<exists>w tid. race_reachable list_ctl (\<lambda>k. k) ready_server w {WillHalfClose tid 3} \<and> connections (srv w) = Map.empty
     \<and> pendingFunctors (ios (srv w) 1) = [ConnectDestroyed 3] \<and> c_state (conns (ios (srv w) 1) 3) = kDisconnecting"
proof -
  note One_nat_def [simp del]
  let ?race = "race_reachable list_ctl (\<lambda>k. k) ready_server"
  obtain w0 where w0: "settled w0" using settled_reachable by blast
  then have s: "server_reachable list_ctl (\<lambda>k. k) ready_server w0" "connections (srv w0) ''web-0.0.0.0:80#1'' = Some 3"
      "c_state (conns (ios (srv w0) (conn_loop (srv w0) 3)) 3) = kConnected" "conn_loop (srv w0) 3 = 1"
    by (simp_all add: settled_def)
  obtain w where w: "stage w0 Map.empty [] [ConnectDestroyed 3] w"
    using closed_stage [OF w0] removed_stage by blast
  note d = stageD [OF w]
  let ?tid = "threadId (ios (srv w0) 1) + 1"
  have 1: "?race w0 {WillMark ?tid 3}"
    using test_shutdown [OF race_from_server [OF s(1), unfolded race_reachable_def] s(2,3), of ?tid] s(4)
    by (simp add: race_reachable_def)
  have 2: "?race w {WillMark ?tid 3}" by (rule race_steps [OF 1 d(1)])
  define w1 where "w1 = w\<lparr>srv := upd_loop 1 (setState kDisconnecting 3 (ios (srv w) 1)) (srv w)\<rparr>"
  have "?race w1 (insert (WillHalfClose ?tid 3) ({WillMark ?tid 3} - {WillMark ?tid 3}))"
    using act_mark [OF 2 [unfolded race_reachable_def], of ?tid 3 1] d(4) by (simp add: w1_def race_reachable_def)
  then have "?race w1 {WillHalfClose ?tid 3}" by simp
  then show ?thesis using d(3,10)
    by (intro exI [of _ w1] exI [of _ ?tid]) (simp add: w1_def setState_def)
qed

section \<open>A server destroyed while a loop is busy\<close>

text \<open>
  The peer has hung up and the removal is queued in the server's own loop, which waits, so that its thread
  may destroy the server.  The destructor empties the map and queues the destruction of the connection, but
  the removal stays in the queue: a functor bound to the server that has just been destroyed.
\<close>

theorem server_destroyed_too_early:
  "\<exists>w S'. server_reachable list_ctl (\<lambda>k. k) ready_server w \<and> pcs w (s_loop (srv w)) = Waiting
     \<and> connections (srv w) = [''web-0.0.0.0:80#1'' \<mapsto> 3]
     \<and> server_destroy list_ctl (threadId (ios (srv w) (s_loop (srv w)))) [''web-0.0.0.0:80#1''] (srv w) = Inr S'
     \<and> connections S' = Map.empty \<and> pendingFunctors (ios S' (s_loop S')) = [RemoveConnectionInLoop 3]
     \<and> pendingFunctors (ios S' (conn_loop S' 3)) = [ConnectDestroyed 3]"
proof -
  note One_nat_def [simp del]
  obtain w0 w where w: "stage w0 [''web-0.0.0.0:80#1'' \<mapsto> 3] [RemoveConnectionInLoop 3] [] w"
    using settled_reachable closed_stage by blast
  note d = stageD [OF w]
  note i = world_invD(1) [OF reachable_inv [OF list_ctl_documented ready_server_ready d(2)]]
  let ?t = "threadId (ios (srv w) 0)"
  have "?t \<noteq> threadId (ios (srv w) 1)" using srv_invD(6) [OF i, of 0 1] d(5) by auto
  then have e: "destroy_connections list_ctl ?t [''web-0.0.0.0:80#1''] (srv w)
      = Inr (upd_loop 1 (queueInLoop ?t (ConnectDestroyed 3) (ios (srv w) 1)) ((srv w)\<lparr>connections := Map.empty\<rparr>))"
    using d(3,4) by (simp add: run_in_def isInLoopThread_def upd_io_def upd_loop_def)
  have "0 \<in> loop_set (srv w)" using d(5) by simp
  note p = srv_invD(1) [OF i this]
  have "acceptChannel (s_acceptor (srv w)) \<in> used_chans (next_obj ready_server) (rests w) (srv w) 0"
    using d(6) by (simp add: used_chans_def base_chans_def)
  from acceptor_destroyed [OF list_ctl_documented p this] obtain W where
    W: "Acceptor_destroy list_ctl (s_acceptor (srv w)) (ios (srv w) 0) = Inr W" "pendingFunctors W = pendingFunctors (ios (srv w) 0)"
    by blast
  let ?S1 = "upd_loop 1 (queueInLoop ?t (ConnectDestroyed 3) (ios (srv w) 1)) ((srv w)\<lparr>connections := Map.empty\<rparr>)"
  have "s_loop ?S1 = 0" "s_acceptor ?S1 = s_acceptor (srv w)" "ios ?S1 0 = ios (srv w) 0" using d(6) by (simp_all add: upd_loop_def)
  then have "server_destroy list_ctl ?t [''web-0.0.0.0:80#1''] (srv w) = Inr (upd_loop 0 W ?S1)"
    using e W(1) by (simp add: server_destroy_def upd_io_def) (simp add: upd_loop_def)
  moreover have "connections (upd_loop 0 W ?S1) = Map.empty" "s_loop (upd_loop 0 W ?S1) = 0" "conn_loop (upd_loop 0 W ?S1) 3 = 1"
    "pendingFunctors (ios (upd_loop 0 W ?S1) 0) = [RemoveConnectionInLoop 3]"
    "pendingFunctors (ios (upd_loop 0 W ?S1) 1) = [ConnectDestroyed 3]"
    using d(4,6,9,10) W(2) by (simp_all add: queue_defs upd_loop_def)
  ultimately show ?thesis using d(2,3,6,7) by (intro exI [of _ w] exI [of _ "upd_loop 0 W ?S1"]) simp
qed

end
