(* ===== verification/Server_Flush.thy ===== *)
theory Server_Flush
  imports Server_Race
begin

text \<open>
  Bytes a connection holds back do not stay behind: whenever the server is at rest, the kernel need only
  report that the socket can be written and take the bytes.  The witness is a run in which the socket
  refused them first.
\<close>

section \<open>Bytes held back\<close>

text \<open>A \<open>sendInLoop\<close> whose \<open>write\<close> would block sends nothing and queues no functor, without a high water mark.\<close>

lemma send_blocked:
  assumes "sendInLoop ctl (\<lambda>_. WErr EWOULDBLOCK) ds o1 W = Inr W'" "\<not> highWaterMarkCallback (conns W o1)"
  shows "evlist W' = evlist W" "pendingFunctors W' = pendingFunctors W" "wire (conns W' o1) = wire (conns W o1)"
proof -
  have d: "send_direct (\<lambda>_. WErr EWOULDBLOCK) ds o1 W = (0, of_nat (length ds), False, W)"
    by (simp add: send_direct_def Let_def)
  have p: "pendingFunctors W2 = pendingFunctors W1" if "change_events ctl f p W1 = Inr W2" for f p W1 W2
  proof -
    have "poller.more W2 = poller.more W1" by (rule change_events_more [OF that])
    then show ?thesis by (cases W1; cases W2) simp
  qed
  have "evlist W' = evlist W \<and> pendingFunctors W' = pendingFunctors W \<and> wire (conns W' o1) = wire (conns W o1)"
    using assms by (auto simp: sendInLoop_def d send_queue_def Let_def rbind_eq_Inr enableWriting_def set_conn_def
        dest: change_events_keeps(1) change_events_conns p split: if_splits)
  then show "evlist W' = evlist W" "pendingFunctors W' = pendingFunctors W" "wire (conns W' o1) = wire (conns W o1)" by simp_all
qed

text \<open>An open connection of a server at rest, also once its loop has polled or been given functors.\<close>

lemma quiet_trans: "quiet W W1 \<Longrightarrow> quiet W1 W2 \<Longrightarrow> quiet W W2"
  by (simp add: quiet_def) (metis channel.surjective channel.update_convs(3) )

lemma at_rest_conn:
  assumes inv: "world_inv view h w" and rest: "\<forall>l\<in>loop_set (srv w). pcs w l = Waiting \<and> pendingFunctors (ios (srv w) l) = []"
    and n: "connections (srv w) n = Some q" and l: "conn_loop (srv w) q = l" and W: "quiet (ios (srv w) l) W"
  shows "conns W = conns (ios (srv w) l)" "conn_inv view (used_chans h (rests w) (srv w) l) q W"
    "c_state (conns W q) \<noteq> kDisconnected"
proof -
  let ?L = "ios (srv w) l"
  note i = world_invD(1) [OF inv]
  note o = at_rest_open [OF inv rest n, unfolded l]
  have cr: "created h (srv w) q" using srv_invD(5) [OF i n] by simp
  show cs: "conns W = conns ?L" using W by (simp add: quiet_def)
  have "ios (upd_loop l W (srv w)) m = ios (srv w) m \<or> quiet (ios (srv w) m) (ios (upd_loop l W (srv w)) m)" for m
    using W by simp
  note Q = quiet_same [of "upd_loop l W (srv w)" "srv w", OF this, simplified]
  have "runnable view (used_chans h (rests w) (srv w) l) q ?L"
    using inv_runnable(1) [OF i _ cr l [symmetric]] o(5) l by (simp add: life_at_def)
  moreover have "wf_in q W = wf_in q ?L" "poller_inv view P W = poller_inv view P ?L" for P
    using Q(3) [of q l] Q(4) [of view P l] by simp_all
  moreover have "life_in q W = life_in q ?L" using Q(1) l by (simp add: life_at_def fun_eq_iff) metis
  ultimately have "runnable view (used_chans h (rests w) (srv w) l) q W" by (simp add: runnable_def)
  moreover show d: "c_state (conns W q) \<noteq> kDisconnected"
    using o(5) unfolding cs by (auto simp: in_defs life_of_def split: if_splits)
  ultimately show "conn_inv view (used_chans h (rests w) (srv w) l) q W" by (rule runnable_live(2))
qed

text \<open>The first connection of \<open>ready_server\<close> at rest, with five bytes its socket would not take.\<close>

definition holding :: "(int \<rightharpoonup> epoll_event) world \<Rightarrow> bool" where
  "holding w \<longleftrightarrow> (\<exists>w0. stage w0 [''web-0.0.0.0:80#1'' \<mapsto> 3] [] [] w) \<and> wire (conns (ios (srv w) 1) 3) = []
     \<and> contents (outputBuffer (conns (ios (srv w) 1) 3)) = ''hello'' \<and> \<not> wr_shut (conns (ios (srv w) 1) 3)"

lemma holding_reachable: "\<exists>w. holding w"
proof -
  note One_nat_def [simp del]
  let ?step = "server_step list_ctl (\<lambda>k. k)" and ?n = "''web-0.0.0.0:80#1''" and ?t = "SendInLoopStr 3 ''hello''"
  let ?E = "\<lparr>e_readv = \<lambda>_. ROk [], e_write = \<lambda>_. WErr EWOULDBLOCK, e_accept = AcErr 0\<rparr>"
  obtain w0 where "settled w0" using settled_reachable by blast
  then have s: "server_reachable list_ctl (\<lambda>k. k) ready_server w0" "connections (srv w0) = [?n \<mapsto> 3]" "conn_loop (srv w0) 3 = 1"
    "loop_set (srv w0) = {0, 1}" "s_loop (srv w0) = 0"
    "\<forall>l\<in>loop_set (srv w0). pcs w0 l = Waiting \<and> pendingFunctors (ios (srv w0) l) = [] \<and> length (evlist (ios (srv w0) l)) = 16"
    "c_state (conns (ios (srv w0) 1) 3) = kConnected" "untouched (conns (ios (srv w0) 1) 3)"
    by (simp_all add: settled_def)
  note inv = reachable_inv [OF list_ctl_documented ready_server_ready s(1)]
  let ?L = "ios (srv w0) 1" and ?tid = "threadId (ios (srv w0) 1) + 1"
  have rest: "\<forall>l\<in>loop_set (srv w0). pcs w0 l = Waiting \<and> pendingFunctors (ios (srv w0) l) = []"
    and n: "connections (srv w0) ?n = Some 3" and l: "1 \<in> loop_set (srv w0)" using s by simp_all
  have u: "contents (outputBuffer (conns ?L 3)) = []" "length (store (outputBuffer (conns ?L 3))) = 1032" "wire (conns ?L 3) = []"
    "\<not> wr_shut (conns ?L 3)" "\<not> highWaterMarkCallback (conns ?L 3)" using s(8) by (simp_all add: untouched_def)
  define w1 where "w1 = w0\<lparr>srv := upd_loop 1 (queueInLoop ?tid ?t ?L) (srv w0)\<rparr>"
  have 1: "?step w0 w1" unfolding w1_def
    by (rule foreign_send [where l = 1 and w = w0, OF l n s(3)]) (simp_all add: s(7))
  have r1: "server_reachable list_ctl (\<lambda>k. k) ready_server w1" by (rule server_reachable.step [OF s(1) 1])
  have l1: "1 \<in> loop_set (srv w1)" "pcs w1 1 = Waiting" "length (evlist (ios (srv w1) 1)) < 2 ^ 31"
    "pendingFunctors (ios (srv w1) 1) = [?t]" using s(4,6) by (simp_all add: w1_def queue_defs)
  have ok: "task_ok ?E ?t (srv w1)"
    using u(2) s(3) by (simp add: w1_def write_documented_def vec_max_size_def)
  from one_round [OF r1 l1(1-4) ok] obtain W S' H where W: "pendingFunctors W = []" "evlist W = evlist (ios (srv w1) 1)"
      "quiet (ios (srv w1) 1) W" "run_task list_ctl 1 ?E ?t (upd_loop 1 W (srv w1)) = Inr S'"
      "?step\<^sup>*\<^sup>* w1 (w1\<lparr>srv := upd_loop 1 (pending_end (ios S' 1)) S', hist := H\<rparr>)"
    by (elim exE conjE)
  have "quiet ?L W" by (rule quiet_trans [OF _ W(3)]) (simp add: w1_def quiet_refl_upd)
  note c = at_rest_conn [OF inv rest n s(3) this]
  obtain W' where W': "sendInLoop list_ctl (\<lambda>_. WErr EWOULDBLOCK) ''hello'' 3 W = Inr W'" "S' = upd_loop 1 W' (upd_loop 1 W (srv w1))"
    using W(4) s(3) by (auto simp: upd_io_def upd_loop_def rbind_eq_Inr)
  note k = send_blocked [OF W'(1)]
  have "sent 3 W' = sent 3 W @ ''hello''" "wr_shut (conns W' 3) = wr_shut (conns W 3)"
    using sendInLoop_ok [where data = "''hello''" and w = "\<lambda>_. WErr EWOULDBLOCK", OF list_ctl_documented c(2) _ _ _ _ c(3)] W'(1) u(2) c(1)
    by (auto simp: write_documented_def peer_alive_def vec_max_size_def EWOULDBLOCK_def EPIPE_def ECONNRESET_def)
  moreover define w2 where "w2 = w1\<lparr>srv := upd_loop 1 (pending_end (ios S' 1)) S', hist := H\<rparr>"
  moreover have "?step\<^sup>*\<^sup>* w0 w2" unfolding w2_def using 1 W(5) by (rule converse_rtranclp_into_rtranclp)
  moreover from this have "server_reachable list_ctl (\<lambda>k. k) ready_server w2" by (rule steps_reachable [OF s(1)])
  ultimately have "stage w0 [?n \<mapsto> 3] [] [] w2 \<and> wire (conns (ios (srv w2) 1) 3) = []
     \<and> contents (outputBuffer (conns (ios (srv w2) 1) 3)) = ''hello'' \<and> \<not> wr_shut (conns (ios (srv w2) 1) 3)"
    using s u k W(1,2) c(1) unfolding stage_def
    by (simp add: w1_def W'(2) pending_end_def sent_def queue_defs)
  then show ?thesis unfolding holding_def by blast
qed

section \<open>Properties\<close>

text \<open>
  C8: buffered bytes can always get out.  In every interleaving in which no connection closes between the test and the
  acts of a call from another thread on it, whenever the loops wait and no functor is
  queued, the bytes in the output buffer of an open connection can reach its socket: the loop is woken when
  the socket is writable, writes them all in order, and tells the user if he asked for it; the connection
  stays in the state it was in.
\<close>

theorem server_can_flush:
  assumes "epoll_documented ctl view" and "server_ready view S" and "server_reachable ctl view S w"
    and "\<forall>l\<in>loop_set (srv w). pcs w l = Waiting \<and> pendingFunctors (ios (srv w) l) = []"
    and "connections (srv w) n = Some q" and "l = conn_loop (srv w) q" and "\<not> wr_shut (conns (ios (srv w) l) q)"
    and "0 < length (evlist (ios (srv w) l))" and "length (evlist (ios (srv w) l)) < 2 ^ 31"
  shows "let c = conns (ios (srv w) l) q in \<exists>w'. (server_step ctl view)\<^sup>*\<^sup>* w w'
     \<and> (let c' = conns (ios (srv w') l) q in
        wire c' = wire c @ contents (outputBuffer c) \<and> contents (outputBuffer c') = [] \<and> c_state c' = c_state c)
     \<and> pendingFunctors (ios (srv w') l)
       = (if contents (outputBuffer c) \<noteq> [] \<and> writeCompleteCallback c then [WriteCompleteTask q] else [])"
proof (cases "contents (outputBuffer (conns (ios (srv w) l) q)) = []")
  case True
  note inv = reachable_inv [OF assms(1-3)]
  have "pendingFunctors (ios (srv w) l) = []" using at_rest_open(2) [OF inv assms(4,5)] assms(4,6) by simp
  with True show ?thesis by (auto simp: Let_def intro!: exI [of _ w])
next
  case False
  let ?step = "server_step ctl view" and ?L = "ios (srv w) l" and ?E = "\<lparr>e_readv = \<lambda>_. ROk [], e_write = \<lambda>ds. WOk (length ds), e_accept = AcErr 0\<rparr>"
  note inv = reachable_inv [OF assms(1-3)]
  note i = world_invD(1) [OF inv]
  note o = at_rest_open [OF inv assms(4,5), folded assms(6)]
  have "writeCallback (chans ?L q) = Some (ConnHandleWrite q)"
    using o(4,5) by (simp add: in_defs conn_wf_def conn_bound_def)
  then have d: "handleEventWithGuard ((chans ?L q)\<lparr>ch_revents := 4\<rparr>) = [ConnHandleWrite q]"
    by (simp add: handleEventWithGuard_def invoke_def epoll_bits)
  obtain W where W: "quiet ?L W" "pendingFunctors W = []"
      "?step\<^sup>*\<^sup>* w (w\<lparr>srv := upd_loop l W (srv w), pcs := (pcs w)(l := Dispatching [ConnHandleWrite q] [])\<rparr>)"
    using event_dispatch [where r = 4 and ctl = ctl, OF inv assms(4,5) assms(6) [symmetric] assms(8,9)] unfolding d by blast
  note cw = at_rest_conn [OF inv assms(4,5) assms(6) [symmetric] W(1)]
  obtain W' where W': "handleWrite ctl (e_write ?E) q W = Inr W'"
      "conns W' = (conns W)(q := (conns W q)\<lparr>outputBuffer := retrieveAll (outputBuffer (conns W q)),
          wire := wire (conns W q) @ contents (outputBuffer (conns W q))\<rparr>)"
      "pendingFunctors W' = pendingFunctors W @ (if writeCompleteCallback (conns W q) then [WriteCompleteTask q] else [])"
      "contents (outputBuffer (conns W' q)) = []"
    using handleWrite_drain [where w = "e_write ?E", OF assms(1) cw(2) refl] False cw(1) by auto
  define w1 where "w1 = w\<lparr>srv := upd_loop l W (srv w), pcs := (pcs w)(l := Dispatching [ConnHandleWrite q] [])\<rparr>"
  have e: "env_ok (alive w1) ?E (ConnHandleWrite q) (srv w1)" by (simp add: write_documented_def)
  have "run_callback ctl l ?E (ConnHandleWrite q) (srv w1) = Inr (upd_loop l W' (srv w1))"
    using W'(1) assms(6) by (simp add: w1_def upd_io_def) (simp add: upd_loop_def)
  then have "?step w1 (w1\<lparr>srv := upd_loop l W' (srv w1), pcs := (pcs w1)(l := Dispatching [] [])\<rparr>)"
    by (intro callback_step [OF _ _ e]) (use o(2) in \<open>simp_all add: w1_def\<close>)
  with W(3) have "?step\<^sup>*\<^sup>* w (w1\<lparr>srv := upd_loop l W' (srv w1), pcs := (pcs w1)(l := Dispatching [] [])\<rparr>)"
    unfolding w1_def by (rule rtranclp.rtrancl_into_rtrancl)
  then show ?thesis using W'(2-4) W(2) False cw(1)
    by (auto simp: Let_def intro!: exI [of _ "w1\<lparr>srv := upd_loop l W' (srv w1), pcs := (pcs w1)(l := Dispatching [] [])\<rparr>"])
qed

lemma server_can_flush_witness:
  "\<exists>w w'. server_reachable list_ctl (\<lambda>k. k) ready_server w \<and> (server_step list_ctl (\<lambda>k. k))\<^sup>*\<^sup>* w w'
     \<and> wire (conns (ios (srv w) 1) 3) = [] \<and> wire (conns (ios (srv w') 1) 3) = ''hello''"
proof -
  obtain w0 w where w: "stage w0 [''web-0.0.0.0:80#1'' \<mapsto> 3] [] [] w" "wire (conns (ios (srv w) 1) 3) = []"
      "contents (outputBuffer (conns (ios (srv w) 1) 3)) = ''hello''" "\<not> wr_shut (conns (ios (srv w) 1) 3)"
    using holding_reachable unfolding holding_def by blast
  note d = stageD [OF w(1)]
  have rest: "\<forall>l\<in>loop_set (srv w). pcs w l = Waiting \<and> pendingFunctors (ios (srv w) l) = []" using d by simp
  have n: "connections (srv w) ''web-0.0.0.0:80#1'' = Some 3" using d(3) by simp
  have sz: "0 < length (evlist (ios (srv w) 1))" "length (evlist (ios (srv w) 1)) < 2 ^ 31" using d(12) by simp_all
  from server_can_flush [OF list_ctl_documented ready_server_ready d(2) rest n d(4) [symmetric] w(4) sz]
  show ?thesis using d(2) w(2,3) by (auto simp: Let_def)
qed

end
