(* ===== verification/Server_Calls.thy ===== *)
theory Server_Calls
  imports Server_Spec
begin

text \<open>
  What the user is told.  The calls of the user's callbacks about one connection are read as a word, and a
  small automaton, whose states are those of the phases of the connection, says which words the running
  server may produce.
\<close>

section \<open>The words of a connection\<close>

fun call_obj :: "user_call \<Rightarrow> obj" where
  "call_obj (ConnectionCall q s) = q"
| "call_obj (MessageCall q) = q"
| "call_obj (WriteCompleteCall q) = q"
| "call_obj (HighWaterMarkCall q n) = q"

text \<open>Nothing said yet; said that it is connected; said that it is not any more.\<close>

datatype talk = Silent | Told | Over

fun talk_step :: "talk \<Rightarrow> user_call \<Rightarrow> talk option" where
  "talk_step Silent (ConnectionCall q s) = (if s = kConnected then Some Told else None)"
| "talk_step Silent _ = None"
| "talk_step Told (ConnectionCall q s) = (if s = kDisconnected then Some Over else None)"
| "talk_step Told _ = Some Told"
| "talk_step Over (ConnectionCall q s) = (if s = kDisconnected then Some Over else None)"
| "talk_step Over _ = Some Over"

fun says :: "talk \<Rightarrow> user_call list \<Rightarrow> talk option" where
  "says a [] = Some a"
| "says a (u # us) = (case talk_step a u of None \<Rightarrow> None | Some b \<Rightarrow> says b us)"

lemma says_append: "says a us = Some b \<Longrightarrow> says a (us @ vs) = says b vs"
  by (induction us arbitrary: a) (auto split: option.splits)

fun life_talk :: "life \<Rightarrow> talk" where
  "life_talk Fresh = Silent"
| "life_talk Live = Told"
| "life_talk Closing = Over"
| "life_talk Gone = Over"

definition heard :: "obj \<Rightarrow> 'k io \<Rightarrow> user_call list" where
  "heard q W = filter (\<lambda>u. call_obj u = q) (calls W)"

text \<open>The words the automaton accepts: the announcement, what happens meanwhile, the farewell and what comes after it.\<close>

definition is_conn_call :: "user_call \<Rightarrow> bool" where
  "is_conn_call u \<longleftrightarrow> (\<exists>q s. u = ConnectionCall q s)"

lemma says_over:
  assumes "says Over us = Some a" "\<forall>u\<in>set us. call_obj u = q"
  shows "a = Over \<and> (\<forall>u\<in>set us. is_conn_call u \<longrightarrow> u = ConnectionCall q kDisconnected)"
  using assms
proof (induction us)
  case (Cons u us)
  then show ?case by (cases u) (auto simp: is_conn_call_def split: if_splits)
qed simp

lemma says_told:
  assumes "says Told us = Some a" "\<forall>u\<in>set us. call_obj u = q"
  shows "a = Told \<and> (\<forall>u\<in>set us. \<not> is_conn_call u)
    \<or> a = Over \<and> (\<exists>ms ns. us = ms @ ConnectionCall q kDisconnected # ns \<and> (\<forall>u\<in>set ms. \<not> is_conn_call u)
        \<and> (\<forall>u\<in>set ns. is_conn_call u \<longrightarrow> u = ConnectionCall q kDisconnected))"
  using assms
proof (induction us)
  case (Cons u us)
  show ?case
  proof (cases "is_conn_call u")
    case True
    then have u: "u = ConnectionCall q kDisconnected" "says Over us = Some a"
      using Cons.prems by (auto simp: is_conn_call_def split: if_splits)
    with says_over [OF u(2), of q] Cons.prems(2) show ?thesis
      by (intro disjI2 conjI exI [of _ "[]"] exI [of _ us]) auto
  next
    case False
    then have "says Told us = Some a" using Cons.prems(1) by (cases u) (auto simp: is_conn_call_def)
    from Cons.IH [OF this] Cons.prems(2) consider "a = Told" "\<forall>u\<in>set us. \<not> is_conn_call u"
      | ms ns where "a = Over" "us = ms @ ConnectionCall q kDisconnected # ns" "\<forall>u\<in>set ms. \<not> is_conn_call u"
          "\<forall>u\<in>set ns. is_conn_call u \<longrightarrow> u = ConnectionCall q kDisconnected" by auto
    then show ?thesis
    proof cases
      case 1
      then show ?thesis using False by simp
    next
      case 2
      then show ?thesis using False by (intro disjI2 conjI exI [of _ "u # ms"] exI [of _ ns]) simp_all
    qed
  qed
qed simp

lemma says_silent:
  assumes "says Silent us = Some a" "\<forall>u\<in>set us. call_obj u = q"
  shows "us = [] \<and> a = Silent \<or> (\<exists>vs. us = ConnectionCall q kConnected # vs \<and> says Told vs = Some a)"
  using assms by (cases us; cases "hd us") (auto split: if_splits)

section \<open>Who hears what, and the notices still queued\<close>

definition heard_inv :: "nat \<Rightarrow> (nat \<Rightarrow> task list) \<Rightarrow> 'k server \<Rightarrow> bool" where
  "heard_inv h R S \<longleftrightarrow>
     (\<forall>q. created h S q \<longrightarrow> says Silent (heard q (ios S (conn_loop S q))) = Some (life_talk (life_at S q)))
     \<and> (\<forall>l\<in>loop_set S. (\<forall>u\<in>set (calls (ios S l)). created h S (call_obj u) \<and> conn_loop S (call_obj u) = l)
          \<and> (\<forall>t\<in>set (todo R S l). \<forall>q. notice q t \<longrightarrow> created h S q \<and> conn_loop S q = l \<and> life_at S q \<noteq> Fresh))"

lemma heard_invD:
  assumes "heard_inv h R S"
  shows "created h S q \<Longrightarrow> says Silent (heard q (ios S (conn_loop S q))) = Some (life_talk (life_at S q))"
    "l \<in> loop_set S \<Longrightarrow> u \<in> set (calls (ios S l)) \<Longrightarrow> created h S (call_obj u) \<and> conn_loop S (call_obj u) = l"
    "l \<in> loop_set S \<Longrightarrow> t \<in> set (todo R S l) \<Longrightarrow> notice q t \<Longrightarrow> created h S q \<and> conn_loop S q = l \<and> life_at S q \<noteq> Fresh"
  using assms unfolding heard_inv_def by blast+

text \<open>A step in which no user callback is called and no connection moves on.\<close>

lemma heard_frame:
  assumes i: "heard_inv h R S"
    and S': "loop_set S' = loop_set S" "created h S' = created h S" "conn_loop S' = conn_loop S" "life_at S' = life_at S"
      "\<And>l. calls (ios S' l) = calls (ios S l)"
    and t: "\<And>l t q. l \<in> loop_set S \<Longrightarrow> t \<in> set (todo R' S' l) \<Longrightarrow> notice q t \<Longrightarrow> t \<in> set (todo R S l)"
  shows "heard_inv h R' S'"
proof -
  have "heard q (ios S' l) = heard q (ios S l)" for q l by (simp add: heard_def S'(5))
  moreover have "created h S q \<and> conn_loop S q = l \<and> life_at S q \<noteq> Fresh"
    if "l \<in> loop_set S" "t \<in> set (todo R' S' l)" "notice q t" for l t q
    using heard_invD(3) [OF i that(1) t [OF that] that(3)] .
  ultimately show ?thesis using heard_invD(1,2) [OF i] unfolding heard_inv_def S' by simp
qed

text \<open>A step of one connection in its own loop.\<close>

lemma heard_own:
  assumes i: "heard_inv h R S" and o1: "created h S o1" and l: "l = conn_loop S o1" "l \<in> loop_set S"
    and f: "framed o1 (ios S l) W" and c: "calls W = calls (ios S l) @ us" "\<forall>u\<in>set us. call_obj u = o1"
    and e: "says (life_talk (life_at S o1)) us = Some (life_talk (life_in o1 W))" "life_in o1 W \<noteq> Fresh"
    and R: "\<And>m. set (R' m) \<subseteq> set (R m)"
  shows "heard_inv h R' (S\<lparr>ios := (ios S)(l := W)\<rparr>)" (is "heard_inv h R' ?S")
proof -
  have os: "others_same o1 S ?S" by (rule framed_others [OF f])
  have le: "life_at ?S o1 = life_in o1 W" using l by (simp add: life_at_def)
  have lo: "life_at ?S q = life_at S q" if "q \<noteq> o1" for q by (rule others_same_life(1) [OF os]) (use that in simp_all)
  have ls: "loop_set ?S = loop_set S" and cr: "created h ?S = created h S" by (simp_all add: loop_set_def created_def fun_eq_iff)
  have fus: "filter (\<lambda>u. call_obj u = q) us = (if q = o1 then us else [])" for q
    using c(2) by (induction us) auto
  have hd: "heard q (ios ?S m) = heard q (ios S m) @ (if m = l \<and> q = o1 then us else [])" for q m
    by (simp add: heard_def c(1) fus)
  have "says Silent (heard q (ios ?S (conn_loop ?S q))) = Some (life_talk (life_at ?S q))" if q: "created h ?S q" for q
  proof (cases "q = o1")
    case True
    have "says Silent (heard o1 (ios S l)) = Some (life_talk (life_at S o1))"
      using heard_invD(1) [OF i o1] l(1) by simp
    from says_append [OF this, of us] e(1) show ?thesis
      unfolding hd by (simp only: True le) (simp add: l(1))
  next
    case False
    then show ?thesis using heard_invD(1) [OF i] q unfolding hd by (simp add: lo cr)
  qed
  moreover have "created h ?S (call_obj u) \<and> conn_loop ?S (call_obj u) = m" if "m \<in> loop_set ?S" "u \<in> set (calls (ios ?S m))" for m u
    using that heard_invD(2) [OF i] o1 c l(1) unfolding cr ls by (auto split: if_splits)
  moreover have "created h ?S q \<and> conn_loop ?S q = m \<and> life_at ?S q \<noteq> Fresh"
    if m: "m \<in> loop_set ?S" "t \<in> set (todo R' ?S m)" and n: "notice q t" for m t q
  proof -
    obtain ts where ts: "pendingFunctors W = pendingFunctors (ios S l) @ ts" "\<forall>t\<in>set ts. notice o1 t"
      using f by (auto simp: framed_def)
    have "t \<in> set (todo R S m) \<or> m = l \<and> t \<in> set ts"
      using m(2) R [of m] ts(1) by (auto simp: todo_def split: if_splits)
    then show ?thesis
    proof
      assume "t \<in> set (todo R S m)"
      then have "created h S q \<and> conn_loop S q = m \<and> life_at S q \<noteq> Fresh" using heard_invD(3) [OF i] m(1) n ls by blast
      then show ?thesis using cr lo [of q] le e(2) by (cases "q = o1") auto
    next
      assume a: "m = l \<and> t \<in> set ts"
      then have "q = o1" using ts(2) n by (auto simp: notice_def)
      then show ?thesis using a o1 l(1) e(2) cr le by simp
    qed
  qed
  ultimately show ?thesis unfolding heard_inv_def by blast
qed

lemma heard_quiet:
  assumes i: "heard_inv h R S" and q: "quiet (ios S l) W" and c: "calls W = calls (ios S l)"
    and t: "\<And>m t q. m \<in> loop_set S \<Longrightarrow> t \<in> set (todo R' (S\<lparr>ios := (ios S)(l := W)\<rparr>) m) \<Longrightarrow> notice q t \<Longrightarrow> t \<in> set (todo R S m)"
  shows "heard_inv h R' (S\<lparr>ios := (ios S)(l := W)\<rparr>)"
proof (rule heard_frame [OF i _ _ _ _ _ t])
  let ?S = "S\<lparr>ios := (ios S)(l := W)\<rparr>"
  have "ios ?S m = ios S m \<or> quiet (ios S m) (ios ?S m)" for m using q by simp
  then show "life_at ?S = life_at S" by (rule quiet_same(1)) simp
qed (use c in \<open>simp_all add: loop_set_def created_def fun_eq_iff\<close>)

lemma heard_quiet_same:
  assumes "heard_inv h R S" "quiet (ios S l) W" "calls W = calls (ios S l)"
    and "\<And>t q. t \<in> set (pendingFunctors W) \<Longrightarrow> notice q t \<Longrightarrow> t \<in> set (pendingFunctors (ios S l))"
  shows "heard_inv h R (S\<lparr>ios := (ios S)(l := W)\<rparr>)"
  by (rule heard_quiet [OF assms(1-3)]) (use assms(4) in \<open>auto simp: todo_def split: if_splits\<close>)

lemma life_in_queue [simp]: "life_in q (queueInLoop tid t W) = life_in q W"
  by (simp add: queue_defs in_defs)

lemma heard_queue:
  assumes i: "heard_inv h R S" and t: "\<And>q. \<not> notice q t" and R: "\<And>m. set (R' m) \<subseteq> set (R m)"
  shows "heard_inv h R' (S\<lparr>connections := c, ios := (ios S)(l := queueInLoop tid t (ios S l))\<rparr>)"
    "heard_inv h R' (S\<lparr>ios := (ios S)(l := queueInLoop tid t (ios S l))\<rparr>)"
  by (rule heard_frame [OF i]; use t R in \<open>auto simp: loop_set_def created_def fun_eq_iff life_at_def todo_def split: if_splits\<close>)+

lemma heard_removeConnectionInLoop:
  assumes "heard_inv h R S" "\<And>m. set (R' m) \<subseteq> set (R m)" "removeConnectionInLoop tid o1 S = Inr S'"
  shows "heard_inv h R' S'"
proof -
  have "\<not> notice q (ConnectDestroyed o1)" for q by (simp add: notice_def)
  from heard_queue(1) [OF assms(1) this assms(2)] show ?thesis
    using assms(3) by (auto simp: removeConnectionInLoop_def Let_def upd_io_def)
qed

lemma heard_removeConnection:
  assumes "heard_inv h R S" "removeConnection tid o1 S = Inr S'"
  shows "heard_inv h R S'"
proof (cases "isInLoopThread tid (ios S (s_loop S))")
  case True
  then have "removeConnectionInLoop tid o1 S = Inr S'" using assms(2) by (simp add: removeConnection_def run_in_def)
  from heard_removeConnectionInLoop [OF assms(1) subset_refl this] show ?thesis .
next
  case False
  have "\<not> notice q (RemoveConnectionInLoop o1)" for q by (simp add: notice_def)
  from heard_queue(2) [OF assms(1) this subset_refl] show ?thesis
    using assms(2) False by (auto simp: removeConnection_def run_in_def upd_io_def)
qed

section \<open>The handlers call nobody but through their callbacks\<close>

lemma change_events_calls:
  fixes W W' :: "('k, 'z) io_scheme"
  assumes "change_events ctl f p W = Inr W'"
  shows "calls W' = calls W"
  using change_events_more [OF assms] by (cases W; cases W'; simp)

lemmas event_ops_calls = change_events_calls [where f = ev_enableReading, folded enableReading_def]
  change_events_calls [where f = ev_enableWriting, folded enableWriting_def]
  change_events_calls [where f = ev_disableWriting, folded disableWriting_def]
  change_events_calls [where f = ev_disableAll, folded disableAll_def]

lemma shutdownInLoop_calls [simp]: "calls (shutdownInLoop o1 W) = calls W"
  by (simp add: shutdownInLoop_def)

lemma handleWrite_calls:
  assumes "handleWrite ctl w o1 W = Inr W'"
  shows "calls W' = calls W"
proof (cases "isWriting (conn_channel o1 W)")
  case True
  let ?ob = "outputBuffer (conns W o1)"
  obtain ds r where r: "GetBufferAllAsString ?ob = Inr ds" "writeFd w ?ob = Inr r"
    using assms True by (auto simp: handleWrite_def Let_def rbind_eq_Inr)
  show ?thesis
  proof (cases "\<exists>n. r = WOk n \<and> 0 < n")
    case True
    then obtain n where "r = WOk n" "0 < n" by blast
    then show ?thesis using assms \<open>isWriting (conn_channel o1 W)\<close> r
      by (auto simp: handleWrite_def Let_def rbind_eq_Inr dest!: event_ops_calls split: if_splits)
  qed (use assms True r in \<open>auto simp: handleWrite_def Let_def split: wr_result.splits\<close>)
qed (use assms in \<open>simp add: handleWrite_def\<close>)

lemma sendInLoop_calls:
  assumes "sendInLoop ctl w ds o1 W = Inr W'"
  shows "calls W' = calls W"
proof (cases "c_state (conns W o1) = kDisconnected")
  case False
  obtain n r f W1 where d: "send_direct w ds o1 W = (n, r, f, W1)" by (cases "send_direct w ds o1 W") auto
  have q: "send_queue ctl ds n r f o1 W1 = Inr W'" using assms False d by (simp add: sendInLoop_def)
  have "calls W1 = calls W" using d by (auto simp: send_direct_def Let_def split: if_splits wr_result.splits)
  moreover have "calls W' = calls W1"
    using q by (auto simp: send_queue_def Let_def rbind_eq_Inr dest!: event_ops_calls split: if_splits)
  ultimately show ?thesis by simp
qed (use assms in \<open>simp add: sendInLoop_def\<close>)

lemma user_step_calls:
  assumes "user_step ctl o1 a W = Inr W'"
  shows "calls W' = calls W"
proof (cases a)
  case (USend w ds)
  then show ?thesis using assms sendInLoop_calls
    by (auto simp: send_string_def runInLoop_def isInLoopThread_def Let_def split: if_splits)
next
  case UShutdown
  then show ?thesis using assms
    by (auto simp: conn_shutdown_def runInLoop_def isInLoopThread_def setState_def split: if_splits)
qed (use assms in auto)

lemma user_session_calls:
  assumes "run_all (user_step ctl o1) as W = Inr W'"
  shows "calls W' = calls W"
  using assms by (induction as arbitrary: W) (auto simp: rbind_eq_Inr dest: user_step_calls)

section \<open>Callbacks\<close>

lemma says_notices: "a \<noteq> Silent \<Longrightarrow> \<forall>u\<in>set us. \<not> is_conn_call u \<Longrightarrow> says a us = Some a"
proof (induction us)
  case (Cons u us)
  then have "talk_step a u = Some a" by (cases a; cases u) (auto simp: is_conn_call_def)
  then show ?case using Cons by simp
qed simp

lemma life_talk_silent: "life_talk e = Silent \<longleftrightarrow> e = Fresh"
  by (cases e) simp_all

text \<open>A step that stays in a phase past the announcement, and calls at most the callbacks of that phase.\<close>

lemma heard_same_life:
  assumes i: "heard_inv h R S" and o1: "created h S o1" and l: "l = conn_loop S o1" "l \<in> loop_set S"
    and f: "same_life o1 (ios S l) W" and c: "calls W = calls (ios S l) @ us" "\<forall>u\<in>set us. call_obj u = o1 \<and> \<not> is_conn_call u"
    and e: "life_at S o1 \<noteq> Fresh" and R: "\<And>m. set (R' m) \<subseteq> set (R m)"
  shows "heard_inv h R' (S\<lparr>ios := (ios S)(l := W)\<rparr>)"
proof (rule heard_own [OF i o1 l _ c(1)])
  have le: "life_in o1 W = life_at S o1" using f l(1) by (simp add: same_life_def life_at_def)
  have "life_talk (life_at S o1) \<noteq> Silent" using e life_talk_silent by blast
  then show "says (life_talk (life_at S o1)) us = Some (life_talk (life_in o1 W))"
    unfolding le by (rule says_notices) (use c(2) in blast)
  show "life_in o1 W \<noteq> Fresh" using e le by simp
qed (use f c(2) R in \<open>simp_all add: same_life_def\<close>)

lemma heard_handleClose:
  assumes doc: "epoll_documented ctl view" and inv: "srv_inv view h {} R S" and i: "heard_inv h R S" and o1: "created h S o1"
    and e: "life_at S o1 \<in> {Live, Closing}" and S': "server_handleClose ctl tid o1 S = Inr S'"
  shows "heard_inv h R S'"
proof -
  let ?W = "ios S (conn_loop S o1)"
  note r = inv_runnable [OF inv _ o1 refl e, simplified]
  obtain W where W: "handleClose ctl (\<lambda>_. Inr) o1 ?W = Inr W"
      "removeConnection tid o1 (S\<lparr>ios := (ios S)(conn_loop S o1 := W)\<rparr>) = Inr S'"
    using S' by (auto simp: server_handleClose_def upd_io_def rbind_eq_Inr)
  have f: "framed o1 ?W W" "calls W = calls ?W @ [ConnectionCall o1 kDisconnected]" "life_in o1 W = Closing"
    using handleClose_closing [OF doc r(1)] W(1) by simp_all
  have "says (life_talk (life_at S o1)) [ConnectionCall o1 kDisconnected] = Some (life_talk (life_in o1 W))"
    using e f(3) by auto
  then have "heard_inv h R (S\<lparr>ios := (ios S)(conn_loop S o1 := W)\<rparr>)"
    by (intro heard_own [OF i o1 refl r(2) f(1,2)]) (simp_all add: f(3))
  then show ?thesis using W(2) by (rule heard_removeConnection)
qed

lemma heard_handleRead:
  assumes doc: "epoll_documented ctl view" and inv: "srv_inv view h {} R S" and i: "heard_inv h R S" and o1: "created h S o1"
    and e: "life_at S o1 \<in> {Live, Closing}" and b: "buffer_inv (inputBuffer (conns (ios S (conn_loop S o1)) o1))"
    and f: "readv_documented f" "f (iov_lens (inputBuffer (conns (ios S (conn_loop S o1)) o1))) = ROk ds"
    and room: "length (store (inputBuffer (conns (ios S (conn_loop S o1)) o1))) + kExtraSize \<le> vec_max_size"
    and S': "server_handleRead ctl tid f o1 S = Inr S'"
  shows "heard_inv h R S'"
proof -
  let ?l = "conn_loop S o1"
  note r = inv_runnable [OF inv _ o1 refl e, simplified]
  obtain b' where b': "readFd f (inputBuffer (conns (ios S ?l) o1)) = Inr (of_nat (length ds), None, b')" "buffer_inv b'"
    using readFd_sint(1) [OF b f room] by blast
  define W where "W = set_conn o1 (\<lambda>c. c\<lparr>inputBuffer := b'\<rparr>) (ios S ?l)"
  define S1 where "S1 = S\<lparr>ios := (ios S)(?l := W)\<rparr>"
  have W: "runnable view (used_chans h R S ?l) o1 W" "same_life o1 (ios S ?l) W"
    using set_conn_runnable [OF r(1), of "\<lambda>c. c\<lparr>inputBuffer := b'\<rparr>"] b'(2) unfolding W_def by simp_all
  have i1: "srv_inv view h {} R S1" "step_of o1 S S1" unfolding S1_def using inv_same_life [OF inv o1 refl W, of R] by simp_all
  have c: "calls W = calls (ios S ?l) @ []" by (simp add: W_def)
  have h1: "heard_inv h R S1" unfolding S1_def
    by (rule heard_same_life [OF i o1 refl r(2) W(2) c]) (use e in auto)
  have o2: "created h S1 o1" "life_at S1 o1 \<in> {Live, Closing}" "conn_loop S1 o1 = ?l" "?l \<in> loop_set S1"
    using o1 i1(2) e r(2) by (auto simp: S1_def created_def step_of_def loop_set_def)
  let ?n = "sint (of_nat (length ds) :: size_t)" and ?f = "\<lambda>W. call_user (messageCallback (conns W o1)) (MessageCall o1) W"
  have "upd_io ?l (\<lambda>W. Inr (set_conn o1 (\<lambda>c. c\<lparr>inputBuffer := b'\<rparr>) W)) S = Inr S1"
    by (simp add: upd_io_def S1_def W_def)
  then have "server_handleRead ctl tid f o1 S = (if 0 < ?n then upd_io ?l ?f S1
      else if ?n = 0 then server_handleClose ctl tid o1 S1 else Inr S1)"
    by (simp add: server_handleRead_def Let_def b'(1))
  then consider "upd_io ?l ?f S1 = Inr S'" | "server_handleClose ctl tid o1 S1 = Inr S'" | "S' = S1"
    using if_res [OF _ S'] by blast
  then show ?thesis
  proof cases
    case 1
    then obtain V where V: "?f (ios S1 ?l) = Inr V" "S' = S1\<lparr>ios := (ios S1)(?l := V)\<rparr>"
      unfolding upd_io_Inr by blast
    then have v: "V = (ios S1 ?l)\<lparr>calls := calls (ios S1 ?l) @ [MessageCall o1]\<rparr>" by (auto simp: call_user_def split: if_splits)
    have "same_life o1 (ios S1 ?l) V" unfolding v by (rule same_life_calls) simp
    then show ?thesis unfolding V(2)
      by (rule heard_same_life [OF h1 o2(1) o2(3) [symmetric] o2(4), where us = "[MessageCall o1]"])
        (use v o2(2) in \<open>auto simp: is_conn_call_def\<close>)
  next
    case 2
    from heard_handleClose [OF doc i1(1) h1 o2(1,2) 2] show ?thesis .
  qed (use h1 in simp)
qed

lemma heard_handleWrite:
  assumes doc: "epoll_documented ctl view" and inv: "srv_inv view h {} R S" and i: "heard_inv h R S" and o1: "created h S o1"
    and e: "life_at S o1 \<in> {Live, Closing}" and w: "write_documented w"
    and S': "upd_io (conn_loop S o1) (handleWrite ctl w o1) S = Inr S'"
  shows "heard_inv h R S'"
proof -
  note r = inv_runnable [OF inv _ o1 refl e, simplified]
  obtain W where W: "handleWrite ctl w o1 (ios S (conn_loop S o1)) = Inr W" "S' = S\<lparr>ios := (ios S)(conn_loop S o1 := W)\<rparr>"
    using S' unfolding upd_io_Inr by blast
  have f: "same_life o1 (ios S (conn_loop S o1)) W" using handleWrite_runnable [OF doc r(1) w] W(1) by auto
  show ?thesis unfolding W(2)
    by (rule heard_same_life [OF i o1 refl r(2) f, where us = "[]"]) (use handleWrite_calls [OF W(1)] e in auto)
qed

text \<open>A new connection, announced at once when its loop is the server's own.\<close>

lemma heard_grown:
  assumes i: "heard_inv h R S" and g: "grown h S S'" and h: "h \<le> next_obj S" and l: "conn_loop S' (next_obj S) \<in> loop_set S"
    and us: "\<And>m. calls (ios S' m) = calls (ios S m) @ (if m = conn_loop S' (next_obj S) then us else [])"
      "\<forall>u\<in>set us. call_obj u = next_obj S" "says Silent us = Some (life_talk (life_at S' (next_obj S)))"
    and t: "\<And>m t q. t \<in> set (pendingFunctors (ios S' m)) \<Longrightarrow> notice q t \<Longrightarrow> t \<in> set (pendingFunctors (ios S m))"
  shows "heard_inv h R S'"
proof -
  let ?o = "next_obj S"
  have g': "loop_set S' = loop_set S" "next_obj S' = Suc ?o" "\<And>q. created h S q \<Longrightarrow> conn_loop S' q = conn_loop S q"
      "others_same ?o S S'"
    using g by (simp_all add: grown_def)
  have cr: "created h S' q \<longleftrightarrow> created h S q \<or> q = ?o" for q using g'(2) h by (auto simp: created_def)
  have ne: "q \<noteq> ?o" if "created h S q" for q using that by (auto simp: created_def)
  have le: "life_at S' q = life_at S q" if "created h S q" for q
    by (rule others_same_life(1) [OF g'(4) g'(3) [OF that] ne [OF that]])
  have fus: "filter (\<lambda>u. call_obj u = q) us = (if q = ?o then us else [])" for q
    using us(2) by (induction us) auto
  have hd: "heard q (ios S' m) = heard q (ios S m) @ (if m = conn_loop S' ?o \<and> q = ?o then us else [])" for q m
    unfolding heard_def us(1) by (simp add: fus)
  have none: "heard ?o (ios S m) = []" if "m \<in> loop_set S" for m
    using heard_invD(2) [OF i that] ne unfolding heard_def by (auto simp: filter_empty_conv)
  have "says Silent (heard q (ios S' (conn_loop S' q))) = Some (life_talk (life_at S' q))" if "created h S' q" for q
  proof (cases "q = ?o")
    case True
    then show ?thesis using us(3) none [OF l] by (simp add: hd)
  next
    case False
    then have "created h S q" using that cr by simp
    then show ?thesis using False heard_invD(1) [OF i] by (simp add: hd le g'(3))
  qed
  moreover have "created h S' (call_obj u) \<and> conn_loop S' (call_obj u) = m" if "m \<in> loop_set S'" "u \<in> set (calls (ios S' m))" for m u
  proof -
    have "u \<in> set (calls (ios S m)) \<or> u \<in> set us \<and> m = conn_loop S' ?o" using that(2) unfolding us(1) by (auto split: if_splits)
    then show ?thesis
    proof
      assume "u \<in> set (calls (ios S m))"
      from heard_invD(2) [OF i _ this] that(1) show ?thesis by (simp add: g' cr)
    next
      assume "u \<in> set us \<and> m = conn_loop S' ?o"
      then show ?thesis using us(2) by (simp add: cr)
    qed
  qed
  moreover have "created h S' q \<and> conn_loop S' q = m \<and> life_at S' q \<noteq> Fresh"
    if "m \<in> loop_set S'" "t \<in> set (todo R S' m)" "notice q t" for m t q
  proof -
    have "t \<in> set (todo R S m)" using that(2) t [OF _ that(3)] by (auto simp: todo_def)
    then have "created h S q \<and> conn_loop S q = m \<and> life_at S q \<noteq> Fresh" using heard_invD(3) [OF i _ _ that(3)] that(1) g'(1) by simp
    then show ?thesis by (simp add: g'(3) le cr)
  qed
  ultimately show ?thesis unfolding heard_inv_def by blast
qed

lemma established_calls:
  assumes "connectionEstablished ctl o1 W = Inr W'"
  shows "calls W' = calls W @ [ConnectionCall o1 kConnected]"
proof -
  let ?V = "set_chan (c_chan (conns W o1)) (channel_tie o1) (setState kConnected o1 W)"
  obtain W1 where W1: "enableReading ctl (c_chan (conns W o1)) ?V = Inr W1" "call_connection o1 W1 = Inr W'"
    using assms by (auto simp: connectionEstablished_def Let_def rbind_eq_Inr)
  have "c_state (conns W1 o1) = kConnected" "calls W1 = calls W"
    using event_ops_conns(1) [OF W1(1)] event_ops_calls(1) [OF W1(1)] by (simp_all add: setState_def set_chan_def)
  then show ?thesis using W1(2) by (auto simp: call_connection_def call_user_def split: if_splits)
qed

lemma newConnection_shape:
  assumes S': "newConnection ctl tid fd S = Inr S'" and g: "getNextLoop (threadPool S) = Inr (l, pl)"
  shows "threadPool S' = pl" "conn_loop S' = (conn_loop S)(next_obj S := l)" "next_obj S' = Suc (next_obj S)"
    "\<exists>us. (\<forall>m. calls (ios S' m) = calls (ios S m) @ (if m = l then us else [])) \<and> (\<forall>u\<in>set us. call_obj u = next_obj S)
       \<and> says Silent us = Some (life_talk (life_at S' (next_obj S)))"
    "t \<in> set (pendingFunctors (ios S' m)) \<Longrightarrow> notice q t \<Longrightarrow> t \<in> set (pendingFunctors (ios S m))"
proof -
  let ?o = "next_obj S"
  have n: "sint (nextConnId S) < 2 ^ 31 - 1"
  proof -
    have "sint (nextConnId S) \<noteq> 2 ^ 31 - 1" using S' g by (auto simp: newConnection_def Let_def bump_conn_id_def rbind_eq_Inr)
    moreover have "sint (nextConnId S) < 2 ^ 31" using sint_lt [of "nextConnId S"] by simp
    ultimately show ?thesis by simp
  qed
  obtain ib ob where nc: "run_in tid l (ConnectionEstablished ?o) (upd_io l (connectionEstablished ctl ?o)) (made S l pl fd ib ob) = Inr S'"
    using newConnection_made [OF g n, of ctl tid fd] S' by auto
  define M where "M = made S l pl fd ib ob"
  have mc: "calls (ios M m) = calls (ios S m)" for m by (simp add: M_def made_def Let_def set_chan_def)
  have mp: "pendingFunctors (ios M m) = pendingFunctors (ios S m)" for m by (simp add: M_def)
  obtain W where W: "S' = M\<lparr>ios := (ios M)(l := W)\<rparr>"
      "connectionEstablished ctl ?o (ios M l) = Inr W \<or> W = queueInLoop tid (ConnectionEstablished ?o) (ios M l)"
    using nc unfolding M_def [symmetric] run_in_def by (auto simp: upd_io_Inr split: if_splits)
  show "threadPool S' = pl" "conn_loop S' = (conn_loop S)(?o := l)" "next_obj S' = Suc ?o" by (simp_all add: W(1) M_def)
  have le: "life_at S' ?o = life_in ?o W" by (simp add: W(1) life_at_def M_def)
  have fresh: "c_state (conns (ios M l) ?o) = kConnecting" by (simp add: M_def new_conn_of_def)
  from W(2) show "\<exists>us. (\<forall>m. calls (ios S' m) = calls (ios S m) @ (if m = l then us else [])) \<and> (\<forall>u\<in>set us. call_obj u = ?o)
       \<and> says Silent us = Some (life_talk (life_at S' ?o))"
  proof
    assume e: "connectionEstablished ctl ?o (ios M l) = Inr W"
    have "life_in ?o W = Live" using established_conn [OF e] by (simp add: in_defs life_of_def)
    then show ?thesis using established_calls [OF e] mc le
      by (intro exI [of _ "[ConnectionCall ?o kConnected]"]) (simp add: W(1))
  next
    assume q: "W = queueInLoop tid (ConnectionEstablished ?o) (ios M l)"
    have "life_in ?o (ios M l) = Fresh" using fresh by (simp add: in_defs life_of_def)
    then show ?thesis using mc le by (intro exI [of _ "[]"]) (simp add: W(1) q)
  qed
  show "t \<in> set (pendingFunctors (ios S' m)) \<Longrightarrow> notice q t \<Longrightarrow> t \<in> set (pendingFunctors (ios S m))"
    using W(2) mp established_pending [of ctl ?o "ios M l" W] by (auto simp: W(1) notice_def split: if_splits)
qed

lemma heard_newConnection:
  assumes inv: "srv_inv view h {} R S" and i: "heard_inv h R S" and g: "grown h S S'" and S': "newConnection ctl tid fd S = Inr S'"
  shows "heard_inv h R S'"
proof -
  have s: "pool_inv (threadPool S)" "baseLoop (threadPool S) = s_loop S" "h \<le> next_obj S" using inv by (simp_all add: srv_inv_def)
  obtain l pl where n: "getNextLoop (threadPool S) = Inr (l, pl)" "l \<in> loop_set S" using next_loop_in_set [OF s(1,2)] by blast
  note p = newConnection_shape [OF S' n(1)]
  obtain us where us: "\<And>m. calls (ios S' m) = calls (ios S m) @ (if m = l then us else [])" "\<forall>u\<in>set us. call_obj u = next_obj S"
      "says Silent us = Some (life_talk (life_at S' (next_obj S)))"
    using p(4) by blast
  have l: "conn_loop S' (next_obj S) = l" by (simp add: p(2))
  show ?thesis by (rule heard_grown [OF i g s(3)]) (use n(2) us p(5) in \<open>simp_all add: l\<close>)
qed

lemma heard_callback:
  assumes doc: "epoll_documented ctl view" and inv: "srv_inv view h {} R S" and i: "heard_inv h R S" and l: "l \<in> loop_set S"
    and c: "cb_fine h S l c" and env: "env_ok al E c S" and alive: "\<And>q. created h S q \<Longrightarrow> held R S q \<Longrightarrow> al q"
    and S': "run_callback ctl l E c S = Inr S'"
  shows "heard_inv h R S'"
proof (cases c)
  case LoopHandleRead
  have "quiet (ios S l) ((ios S l)\<lparr>wakeups := 0\<rparr>)" by (rule quiet_refl_upd)
  from heard_quiet_same [OF i this] show ?thesis using S' LoopHandleRead by (auto simp: upd_io_def handleWakeup_def)
next
  case AcceptorHandleRead
  show ?thesis
  proof (cases "acceptor_handleRead (e_accept E) (s_acceptor S)")
    case (NewConnection fd peer)
    have "env_ok al E AcceptorHandleRead S" using env AcceptorHandleRead by simp
    from accept_ok [where alive = al and E = E, OF doc inv this alive NewConnection]
    have n: "newConnection ctl (threadId (ios S (s_loop S))) fd S = Inr S'" "grown h S S'"
      using S' c AcceptorHandleRead NewConnection by auto
    from heard_newConnection [OF inv i n(2,1)] show ?thesis .
  qed (use S' AcceptorHandleRead i in simp_all)
next
  case (ConnHandleRead o1)
  then have o1: "created h S o1" "life_at S o1 \<in> {Live, Closing}" using c by (simp_all add: usable_def)
  let ?b = "inputBuffer (conns (ios S (conn_loop S o1)) o1)"
  have "reads_ok E c S" by (rule returned_reads [OF inv c S'])
  then have e: "readv_documented (e_readv E)" "\<exists>ds. e_readv E (iov_lens ?b) = ROk ds" "length (store ?b) + kExtraSize \<le> vec_max_size"
    using env ConnHandleRead by (simp_all add: Let_def reads_ok_def)
  obtain ds where ds: "e_readv E (iov_lens ?b) = ROk ds" using e(2) by blast
  have "obj_inv h R S o1" using srv_invD(4) [OF inv o1(1)] by simp
  then have "buffer_inv ?b" by (simp add: obj_inv_def wf_in_def conn_wf_def)
  from heard_handleRead [OF doc inv i o1 this e(1) ds e(3)] S' show ?thesis using ConnHandleRead by simp
next
  case (ConnHandleWrite o1)
  then have o1: "created h S o1" "life_at S o1 \<in> {Live, Closing}" using c by (simp_all add: usable_def)
  have "write_documented (e_write E)" using env ConnHandleWrite by simp
  from heard_handleWrite [OF doc inv i o1 this] S' show ?thesis using ConnHandleWrite by simp
next
  case (ConnHandleClose o1)
  then have o1: "created h S o1" "life_at S o1 \<in> {Live, Closing}" using c by (simp_all add: usable_def)
  from heard_handleClose [OF doc inv i o1] S' show ?thesis using ConnHandleClose by simp
qed (use c in simp)

section \<open>Functors\<close>

lemma heard_raw_task:
  assumes doc: "epoll_documented ctl view" and inv: "srv_inv view h {} R S" and i: "heard_inv h R S" and l: "l \<in> loop_set S"
    and t: "t \<in> set (todo R S l)" "raw_task o1 t" "task_ok E t S" and R: "\<And>m. set (R' m) \<subseteq> set (R m)"
    and S': "upd_io l (conn_task ctl (e_write E) mem other t) S = Inr S'"
  shows "heard_inv h R' S'"
proof -
  have lt: "life_task o1 t" using t(2) by (simp add: life_task_def)
  note a = life_task_at [OF inv l t(1) lt]
  have e: "l = conn_loop S o1" "life_at S o1 \<in> {Live, Closing}" using a(5) [OF t(2)] by simp_all
  note r = inv_runnable [OF inv _ a(1) refl e(2), simplified]
  note f = srv_invD(3) [OF inv l t(1)]
  obtain W where W: "conn_task ctl (e_write E) mem other t (ios S l) = Inr W" "S' = S\<lparr>ios := (ios S)(l := W)\<rparr>"
    using S' unfolding upd_io_Inr by blast
  have fr: "same_life o1 (ios S l) W"
    using raw_task_runnable [OF doc r(1) t(2) f t(3), of mem other] W(1) e(1) by auto
  have c: "calls W = calls (ios S l)" using W(1) t(2) sendInLoop_calls by (auto simp: raw_task_def)
  show ?thesis unfolding W(2)
    by (rule heard_same_life [OF i a(1) e(1) l fr, where us = "[]"]) (use c e(2) R in auto)
qed

text \<open>A notice is delivered.\<close>

lemma heard_notice:
  assumes i: "heard_inv h R S" and l: "l \<in> loop_set S" and t: "t \<in> set (todo R S l)" "notice q t"
    and u: "call_obj u = q" "\<not> is_conn_call u" and R: "\<And>m. set (R' m) \<subseteq> set (R m)"
  shows "heard_inv h R' (S\<lparr>ios := (ios S)(l := (ios S l)\<lparr>calls := calls (ios S l) @ [u]\<rparr>)\<rparr>)"
proof -
  have q: "created h S q" "conn_loop S q = l" "life_at S q \<noteq> Fresh" using heard_invD(3) [OF i l t] by simp_all
  have "same_life q (ios S l) ((ios S l)\<lparr>calls := calls (ios S l) @ [u]\<rparr>)" by (rule same_life_calls) simp
  then show ?thesis by (rule heard_same_life [OF i q(1) q(2) [symmetric] l, where us = "[u]"]) (use u q(3) R in auto)
qed

lemma heard_task:
  assumes doc: "epoll_documented ctl view" and inv: "srv_inv view h {} R S" and i: "heard_inv h R S" and l: "l \<in> loop_set S"
    and R: "R l = t # ts" and ok: "task_ok E t S" and S': "run_task ctl l E t S = Inr S'"
  shows "heard_inv h (R(l := ts)) S'"
proof -
  have t: "t \<in> set (todo R S l)" using R by (simp add: todo_def)
  note f = srv_invD(3) [OF inv l t]
  have R': "set ((R(l := ts)) m) \<subseteq> set (R m)" for m using R by auto
  show ?thesis
  proof (cases t)
    case (ConnectionEstablished o1)
    note a = established_task [OF inv l t [unfolded ConnectionEstablished]]
    from established_live [OF doc srv_invD(1) [OF inv l] a(6,4,5)] obtain W where W: "S' = S\<lparr>ios := (ios S)(l := W)\<rparr>"
        "life_in o1 W = Live" "framed o1 (ios S l) W" "calls W = calls (ios S l) @ [ConnectionCall o1 kConnected]"
      using S' ConnectionEstablished by (auto simp: upd_io_Inr)
    show ?thesis unfolding W(1) by (rule heard_own [OF i a(1,2) l W(3,4) _ _ _ R']) (simp_all add: W(2) a(3))
  next
    case (ConnectDestroyed o1)
    note a = destroyed_task [OF inv l t [unfolded ConnectDestroyed]]
    from connectDestroyed_gone [OF doc srv_invD(1) [OF inv l] a(6,4,5)] obtain W where W: "S' = S\<lparr>ios := (ios S)(l := W)\<rparr>"
        "life_in o1 W = Gone" "framed o1 (ios S l) W" "calls W = calls (ios S l) @ []"
      using S' ConnectDestroyed by (auto simp: upd_io_Inr)
    show ?thesis unfolding W(1) by (rule heard_own [OF i a(1,2) l W(3,4) _ _ _ R']) (use a(3) W(2) in auto)
  next
    case (RemoveConnectionInLoop o1)
    then have "removeConnectionInLoop (threadId (ios S l)) o1 S = Inr S'" using S' by simp
    from heard_removeConnectionInLoop [OF i R' this] show ?thesis .
  next
    case (SendInLoopStr o1 ds)
    then have raw: "raw_task o1 t" by simp
    have "upd_io l (conn_task ctl (e_write E) (\<lambda>_. None) (\<lambda>_. Inr) t) S = Inr S'" using S' SendInLoopStr by simp
    from heard_raw_task [OF doc inv i l t raw ok R' this] show ?thesis .
  next
    case (ShutdownInLoop o1)
    then have raw: "raw_task o1 t" by simp
    have "upd_io l (conn_task ctl (e_write E) (\<lambda>_. None) (\<lambda>_. Inr) t) S = Inr S'" using S' ShutdownInLoop by simp
    from heard_raw_task [OF doc inv i l t raw ok R' this] show ?thesis .
  next
    case (WriteCompleteTask o1)
    then have "notice o1 t" by (simp add: notice_def)
    from heard_notice [where R' = "R(l := ts)", OF i l t this _ _ R', of "WriteCompleteCall o1"] show ?thesis
      using S' WriteCompleteTask by (simp add: upd_io_def call_user_def is_conn_call_def)
  next
    case (HighWaterMarkTask o1 n)
    then have "notice o1 t" by (simp add: notice_def)
    from heard_notice [where R' = "R(l := ts)", OF i l t this _ _ R', of "HighWaterMarkCall o1 n"] show ?thesis
      using S' HighWaterMarkTask by (simp add: upd_io_def call_user_def is_conn_call_def)
  next
    case (UserTask k)
    then have "S' = S" using S' by (simp add: upd_io_def)
    moreover have "u \<in> set (todo R S m)" if "u \<in> set (todo (R(l := ts)) S m)" for u m
      using that R' [of m] by (auto simp: todo_def simp del: fun_upd_apply)
    ultimately show ?thesis by (intro heard_frame [OF i]) simp_all
  qed (use f in simp_all)
qed

section \<open>Every step of every thread\<close>

lemma heard_session:
  assumes i: "heard_inv h (rests w) (srv w)" and u: "user_session ctl view h w w'"
  shows "heard_inv h (rests w') (srv w')"
proof -
  obtain o1 as W where o1: "created h (srv w) o1" "conn_loop (srv w) o1 \<in> loop_set (srv w)" "life_at (srv w) o1 = Live"
      "run_all (user_step ctl o1) as (ios (srv w) (conn_loop (srv w) o1)) = Inr W"
      "same_life o1 (ios (srv w) (conn_loop (srv w) o1)) W"
      "srv w' = (srv w)\<lparr>ios := (ios (srv w))(conn_loop (srv w) o1 := W)\<rparr>" "rests w' = rests w"
    using u unfolding user_session_def Let_def by blast
  show ?thesis unfolding o1(6,7)
    by (rule heard_same_life [OF i o1(1) refl o1(2,5), where us = "[]"]) (use user_session_calls [OF o1(4)] o1(3) in simp_all)
qed

lemma heard_quiet_step:
  assumes i: "heard_inv h (rests w) (srv w)" and q: "quiet_step w w'"
  shows "heard_inv h (rests w') (srv w')"
proof -
  obtain l W where q: "srv w' = upd_loop l W (srv w)" "quiet (ios (srv w) l) W" "calls W = calls (ios (srv w) l)"
      "\<And>m t. t \<in> set (todo (rests w') (srv w') m) \<Longrightarrow> t \<in> set (todo (rests w) (srv w) m) \<or> (\<forall>q. \<not> notice q t)"
    using q unfolding quiet_step_def by blast
  show ?thesis unfolding q(1) upd_loop_def
    by (rule heard_quiet [OF i q(2,3)]) (use q(1,4) in \<open>auto simp: upd_loop_def\<close>)
qed

lemma heard_step:
  assumes doc: "epoll_documented ctl view" and inv: "world_inv view h w" and st: "server_step ctl view w w'"
    and i: "heard_inv h (rests w) (srv w)"
  shows "heard_inv h (rests w') (srv w')"
proof (cases rule: step_kinds [OF doc inv st, case_names quiet sent callback task user mark])
  case quiet
  from heard_quiet_step [OF i quiet(1)] show ?thesis .
next
  case sent
  from heard_quiet_step [OF i sent(1)] show ?thesis .
next
  case (callback l c E)
  from heard_callback [OF doc world_invD(1) [OF inv] i callback(1-3) alive_ok [OF inv] callback(4)] show ?thesis
    by (simp add: callback(5))
next
  case (task l t ts E)
  from heard_task [OF doc world_invD(1) [OF inv] i task(1-4)] show ?thesis by (simp add: task(5))
next
  case user
  from heard_session [OF i this] show ?thesis .
next
  case mark
  then obtain o1 where s: "life_at (srv w) o1 = Live" "rests w' = rests w" "srv w' = upd_loop (conn_loop (srv w) o1)
      (setState kDisconnecting o1 (ios (srv w) (conn_loop (srv w) o1))) (srv w)"
    unfolding marked_from_outside_def Let_def by blast
  have "life_in q (setState kDisconnecting o1 (ios (srv w) (conn_loop (srv w) o1))) = life_in q (ios (srv w) (conn_loop (srv w) o1))"
    for q using s(1) by (auto simp: life_at_def setState_def in_defs life_of_def split: if_splits)
  then have "life_at (srv w') = life_at (srv w)" by (auto simp: s(3) life_at_def fun_eq_iff)
  then show ?thesis unfolding s(2)
    by (intro heard_frame [OF i]) (auto simp: s(3) created_def fun_eq_iff todo_def notice_def setState_def split: if_splits)
qed

lemma reachable_heard:
  assumes doc: "epoll_documented ctl view" and ready: "server_ready view S" and none: "\<forall>l\<in>loop_set S. calls (ios S l) = []"
    and r: "server_reachable ctl view S w"
  shows "heard_inv (next_obj S) (rests w) (srv w)"
  using r
proof induction
  case start
  have "pendingFunctors (ios S l) = []" if "l \<in> loop_set S" for l using ready that by (simp add: server_ready_def)
  then show ?case using none by (auto simp: heard_inv_def world_start_def created_def todo_def rests_def)
next
  case (step w w')
  show ?case by (rule heard_step [OF doc reachable_inv [OF doc ready step.hyps(1)] step.hyps(2) step.IH])
qed



end
