(* ===== verification/Server_Spread.thy ===== *)
theory Server_Spread
  imports Server_Calls
begin

text \<open>
  In which loop a connection lives: the running server hands out the loops of its pool in turn, and a
  connection stays where it was put.
\<close>

section \<open>What stays and what accepting changes\<close>

definition spread_inv :: "nat \<Rightarrow> nat pool \<Rightarrow> 'k server \<Rightarrow> bool" where
  "spread_inv h P S \<longleftrightarrow>
     (let ls = getAllLoops P; at = (\<lambda>i. (unat (next_idx P) + i) mod length ls) in
      getAllLoops (threadPool S) = ls \<and> unat (next_idx (threadPool S)) = at (next_obj S - h)
      \<and> (\<forall>q. created h S q \<longrightarrow> conn_loop S q = ls ! at (q - h)))"

lemma spread_books:
  assumes "spread_inv h P S" "same_books S S'"
  shows "spread_inv h P S'"
  using assms by (simp add: spread_inv_def same_books_def created_def)

lemma spread_newConnection:
  assumes i: "spread_inv h P S" and inv: "srv_inv view h {} R S" and S': "newConnection ctl tid fd S = Inr S'"
  shows "spread_inv h P S'"
proof -
  let ?ls = "getAllLoops P" and ?at = "\<lambda>i. (unat (next_idx P) + i) mod length (getAllLoops P)"
  have s: "pool_inv (threadPool S)" "h \<le> next_obj S" using inv by (simp_all add: srv_inv_def)
  have j: "getAllLoops (threadPool S) = ?ls" "unat (next_idx (threadPool S)) = ?at (next_obj S - h)"
    "\<And>q. created h S q \<Longrightarrow> conn_loop S q = ?ls ! ?at (q - h)" using i by (simp_all add: spread_inv_def Let_def)
  obtain pl where pl: "getNextLoop (threadPool S) = Inr (?ls ! ?at (next_obj S - h), pl)" "loops pl = loops (threadPool S)"
      "baseLoop pl = baseLoop (threadPool S)" "unat (next_idx pl) = Suc (?at (next_obj S - h)) mod length ?ls"
    using getNextLoop_ok [OF s(1)] unfolding j by blast
  note p = newConnection_shape [OF S' pl(1)]
  have "getAllLoops pl = getAllLoops (threadPool S)" by (simp add: getAllLoops_def pl(2,3))
  then have "getAllLoops pl = ?ls" using j(1) by simp
  moreover have "unat (next_idx pl) = ?at (Suc (next_obj S) - h)"
    using pl(4) s(2) by (simp add: mod_Suc_eq Suc_diff_le)
  moreover have "conn_loop S' q = ?ls ! ?at (q - h)" if "created h S' q" for q
    using that j(3) [of q] p(2,3) by (auto simp: created_def less_Suc_eq)
  ultimately show ?thesis using p(1,3) by (simp add: spread_inv_def Let_def)
qed

lemma spread_step:
  assumes doc: "epoll_documented ctl view" and inv: "world_inv view h w" and st: "server_step ctl view w w'"
    and i: "spread_inv h P (srv w)"
  shows "spread_inv h P (srv w')"
proof -
  have same: "spread_inv h P (srv w')" if "same_books (srv w) (srv w')" using spread_books [OF i that] .
  have upd: "same_books (srv w) (upd_loop l W (srv w))" for l W by (simp add: upd_loop_def)
  show ?thesis
  proof (cases rule: step_kinds [OF doc inv st, case_names quiet sent callback task user mark])
    case quiet
    then show ?thesis using same upd unfolding quiet_step_def by auto
  next
    case sent
    then show ?thesis using same upd unfolding quiet_step_def by auto
  next
    case (callback l c E)
    show ?thesis
    proof (cases "c = AcceptorHandleRead")
      case True
      then have "srv w' = srv w \<or> (\<exists>fd. newConnection ctl (threadId (ios (srv w) l)) fd (srv w) = Inr (srv w'))"
        using callback(4) by (auto split: accept_outcome.splits)
      then show ?thesis using i spread_newConnection [OF i world_invD(1) [OF inv]] by auto
    next
      case False
      show ?thesis by (rule same [OF callback_books [OF callback(4) False]])
    qed
  next
    case (task l t ts E)
    have "t \<in> set (todo (rests w) (srv w) l)" using task(2) by (simp add: todo_def)
    from srv_invD(3) [OF world_invD(1) [OF inv] task(1) this] have "t \<noteq> AcceptorListen" by auto
    then show ?thesis by (rule same [OF task_books [OF task(4)]])
  next
    case user
    then show ?thesis using same unfolding user_session_def Let_def by auto
  next
    case mark
    then show ?thesis using same upd unfolding marked_from_outside_def Let_def by auto
  qed
qed

text \<open>
  C17: connections are spread over the loops.  In every interleaving in which no connection closes between the test and
  the acts of a call from another thread on it, the \<open>i\<close>-th connection accepted since the
  start lives in the loop at position \<open>i\<close>, counted from the pool's index and around the pool, and never leaves
  it; without threads that is the server's own loop.
\<close>

theorem server_spreads_connections:
  assumes "epoll_documented ctl view" and "server_ready view S" and "server_reachable ctl view S w"
    and "next_obj S \<le> q" and "q < next_obj (srv w)"
  shows "conn_loop (srv w) q
    = (let ls = getAllLoops (threadPool S) in ls ! ((unat (next_idx (threadPool S)) + (q - next_obj S)) mod length ls))"
proof -
  have "spread_inv (next_obj S) (threadPool S) (srv w)" using assms(3)
  proof induction
    case start
    have "unat (next_idx (threadPool S)) < length (getAllLoops (threadPool S))"
      using assms(2) by (auto simp: server_ready_def pool_inv_def getAllLoops_def max_def split: if_splits)
    then show ?case by (simp add: spread_inv_def Let_def world_start_def created_def)
  next
    case (step w w')
    show ?case by (rule spread_step [OF assms(1) reachable_inv [OF assms(1,2) step.hyps(1)] step.hyps(2) step.IH])
  qed
  then show ?thesis using assms(4,5) by (simp add: spread_inv_def Let_def created_def)
qed

lemma server_spreads_connections_witness:
  "\<exists>w. server_reachable list_ctl (\<lambda>k. k) ready_server w \<and> connections (srv w) ''web-0.0.0.0:80#1'' = Some 3
     \<and> conn_loop (srv w) 3 = [1] ! (0 mod 1)"
proof -
  obtain w where w: "accepted w" using accept_reachable by blast
  then have r: "server_reachable list_ctl (\<lambda>k. k) ready_server w" "connections (srv w) ''web-0.0.0.0:80#1'' = Some 3"
    by (simp_all add: accepted_def)
  have "created (next_obj ready_server) (srv w) 3"
    using srv_invD(5) [OF world_invD(1) [OF reachable_inv [OF list_ctl_documented ready_server_ready r(1)]] r(2)] by simp
  then have q: "next_obj ready_server \<le> 3" "3 < next_obj (srv w)" by (simp_all add: created_def)
  from server_spreads_connections [OF list_ctl_documented ready_server_ready r(1) q] r show ?thesis
    by (auto simp: getAllLoops_def Let_def)
qed

end
