(* ===== verification/Server_Start.thy ===== *)
theory Server_Start
  imports Server_Run
begin

text \<open>
  From construction to the running server: the loops, the server, its callbacks and \<open>start()\<close> lead to a
  state in which \<open>Server_Run\<close> begins.
\<close>

section \<open>A loop with room for connections\<close>

text \<open>The state of a loop before it has connections; \<open>c\<close> is the memory they will be created in.\<close>

definition io_of :: "(obj \<Rightarrow> conn) \<Rightarrow> ('k, task) eventloop \<Rightarrow> 'k io" where
  "io_of c L = eventloop.extend L \<lparr>conns = c, calls = []\<rparr>"

lemma io_of_simps [simp]:
  "chans (io_of c L) = chans L" "channels (io_of c L) = channels L" "epollfd (io_of c L) = epollfd L"
  "evlist (io_of c L) = evlist L" "threadId (io_of c L) = threadId L" "wakeupChannel (io_of c L) = wakeupChannel L"
  "pendingFunctors (io_of c L) = pendingFunctors L" "conns (io_of c L) = c" "calls (io_of c L) = []"
  by (simp_all add: io_of_def eventloop.extend_def)

lemma poller_inv_io_of [simp]: "poller_inv view P (io_of c L) \<longleftrightarrow> poller_inv view P L"
proof -
  have "interest (io_of c L) = interest L" by (simp add: interest_def fun_eq_iff cong: option.case_cong if_cong)
  then show ?thesis by (simp add: poller_inv_def)
qed

text \<open>
  A loop constructed in thread \<open>tid\<close>, with its wakeup channel at \<open>wp\<close> and the event descriptor \<open>wfd\<close>, on a
  new epoll instance.
\<close>

definition loop_made :: "'k epoll_ctl \<Rightarrow> ('k \<Rightarrow> int \<rightharpoonup> epoll_event) \<Rightarrow> int \<Rightarrow> ptr \<Rightarrow> int \<Rightarrow> 'k io \<Rightarrow> bool" where
  "loop_made ctl view tid wp wfd W \<longleftrightarrow> 0 \<le> wfd \<and> (\<exists>epoll_create k heap c L.
     epoll_create EPOLL_CLOEXEC = Some k \<and> view k = Map.empty
     \<and> eventloop_new ctl False epoll_create None tid wp wfd heap = Inr L \<and> W = io_of c L)"

lemma loop_madeD:
  assumes "epoll_documented ctl view" "loop_made ctl view tid wp wfd W"
  shows "poller_inv view {wp} W" "threadId W = tid" "wakeupChannel W = wp" "pendingFunctors W = []"
    "chans W wp = (channel_new wfd)\<lparr>readCallback := Some LoopHandleRead, ch_events := 3, ch_index := kAdded\<rparr>" "calls W = []"
proof -
  obtain epoll_create :: "int \<Rightarrow> 'a option" and k heap c L where
    l: "epoll_create EPOLL_CLOEXEC = Some k" "view k = Map.empty" "0 \<le> wfd"
      "eventloop_new ctl False epoll_create None tid wp wfd heap = Inr L" "W = io_of c L"
    using assms(2) unfolding loop_made_def by blast
  obtain L' :: "('a, task) eventloop" where L': "eventloop_new ctl False epoll_create None tid wp wfd heap = Inr L'"
    "poller_inv view {wp} L'" "threadId L' = tid" "wakeupChannel L' = wp" "pendingFunctors L' = []"
    "chans L' wp = (channel_new wfd)\<lparr>readCallback := Some LoopHandleRead, ch_events := 3, ch_index := kAdded\<rparr>"
    using eventloop_new_ok [where epoll_create = epoll_create and k = k and view = view, OF assms(1) l(1-3)] by blast
  have "L' = L" using l(4) L'(1) by simp
  then show "poller_inv view {wp} W" "threadId W = tid" "wakeupChannel W = wp" "pendingFunctors W = []"
    "chans W wp = (channel_new wfd)\<lparr>readCallback := Some LoopHandleRead, ch_events := 3, ch_index := kAdded\<rparr>" "calls W = []"
    using L' l(5) by simp_all
qed

section \<open>The acceptor's loop\<close>

text \<open>Constructing the acceptor puts its channel in the loop's store; listening registers it.\<close>

lemma acceptor_up:
  fixes W :: "'k io"
  assumes doc: "epoll_documented ctl view" and inv: "poller_inv view {wp} W" and p: "p \<noteq> wp"
    and fd: "0 \<le> sockfd" "sockfd \<noteq> ch_fd (chans W wp)"
  shows "\<exists>A W1 A' W'. Acceptor_new sockfd True addr reuse p W = Inr (A, W1) \<and> newConnectionCallback A = False
    \<and> threadId W1 = threadId W
    \<and> acceptor_listen ctl True (setNewConnectionCallback True A) W1 = Inr (A', W')
    \<and> poller_inv view {wp, p} W' \<and> chans W' wp = chans W wp \<and> threadId W' = threadId W
    \<and> wakeupChannel W' = wakeupChannel W \<and> pendingFunctors W' = pendingFunctors W \<and> calls W' = calls W
    \<and> chans W' p = (channel_new sockfd)\<lparr>readCallback := Some AcceptorHandleRead, ch_events := 3, ch_index := kAdded\<rparr>
    \<and> acceptChannel A' = p \<and> newConnectionCallback A' \<and> listenning A'"
proof -
  let ?ch = "setReadCallback AcceptorHandleRead (channel_new sockfd)"
  define W1 where "W1 = set_chan p (\<lambda>_. ?ch) W"
  define k where "k = (setReusePort True (setReuseAddr reuse (Socket_new sockfd)))\<lparr>bound_to := Some addr\<rparr>"
  let ?A = "\<lparr>acceptSocket = k, acceptChannel = p, newConnectionCallback = False, listenning = False\<rparr>"
  have new: "Acceptor_new sockfd True addr reuse p W = Inr (?A, W1)"
    using fd(1) by (simp add: Acceptor_new_def createNonblocking_def bindAddress_def Let_def W1_def k_def)
  have i1: "poller_inv view {wp, p} W1"
    using poller_inv_add [OF inv, of p ?ch] p fd(2) by (simp add: W1_def channel_new_def index_defs insert_commute)
  have c1: "chans W1 p = ?ch" "chans W1 wp = chans W wp" using p by (simp_all add: W1_def)
  have "ch_index (chans W1 p) = kNew" by (simp add: c1 channel_new_def index_defs)
  then obtain W' where W': "enableReading ctl p W1 = Inr W'"
      "stepped view {wp, p} p (ev_enableReading (ch_events (chans W1 p))) kAdded W1 W'"
    using register_steps [OF doc i1, of p ev_enableReading] by (auto simp: enableReading_def)
  have e: "ev_enableReading (ch_events (chans W1 p)) = 3"
    by (simp add: c1 channel_new_def ev_defs kReadEvent_def epoll_bits)
  have s: "poller_inv view {wp, p} W'" "chans W' p = (chans W1 p)\<lparr>ch_events := 3, ch_index := kAdded\<rparr>"
    "chans W' wp = chans W1 wp" "poller.more W' = poller.more W1"
    using W'(2) e p by (simp_all add: stepped_def)
  have m: "threadId W' = threadId W" "wakeupChannel W' = wakeupChannel W" "pendingFunctors W' = pendingFunctors W"
    "threadId W1 = threadId W" "calls W' = calls W"
    using s(4) by (cases W; cases W'; simp add: W1_def set_chan_def)+
  let ?A' = "?A\<lparr>newConnectionCallback := True, listenning := True, acceptSocket := k\<lparr>backlog := Some 1024\<rparr>\<rparr>"
  have "acceptor_listen ctl True (setNewConnectionCallback True ?A) W1 = Inr (?A', W')"
    using W'(1) by (simp add: acceptor_listen_def sock_listen_def)
  then show ?thesis using new s m c1
    by (intro exI [of _ ?A] exI [of _ W1] exI [of _ ?A'] exI [of _ W']) simp
qed

section \<open>The server brought up\<close>

text \<open>
  The server as \<open>start()\<close> leaves it, and the part of \<open>server_ready\<close> about the loop \<open>l\<close>: the wakeup channel
  of each loop is the one it was constructed with, and the server's own loop also watches the acceptor's.
\<close>

definition up_server :: "nat \<Rightarrow> string \<Rightarrow> string \<Rightarrow> acceptor \<Rightarrow> nat pool \<Rightarrow> nat \<Rightarrow> (nat \<Rightarrow> 'k io) \<Rightarrow> 'k server" where
  "up_server l0 ip name A pl heap W =
     \<lparr>s_loop = l0, s_ipPort = ip, s_name = name, s_acceptor = A, threadPool = pl, s_connectionCallback = True,
      s_messageCallback = True, s_writeCompleteCallback = False, s_threadInitCallback = False, s_started = Suc 0,
      nextConnId = 1, connections = Map.empty, ios = W, conn_loop = (\<lambda>_. l0), next_obj = heap\<rparr>"

lemma up_server_simps [simp]:
  "s_loop (up_server l0 ip name A pl heap W) = l0" "s_ipPort (up_server l0 ip name A pl heap W) = ip"
  "s_acceptor (up_server l0 ip name A pl heap W) = A" "threadPool (up_server l0 ip name A pl heap W) = pl"
  "s_connectionCallback (up_server l0 ip name A pl heap W)" "s_messageCallback (up_server l0 ip name A pl heap W)"
  "nextConnId (up_server l0 ip name A pl heap W) = 1" "connections (up_server l0 ip name A pl heap W) = Map.empty"
  "ios (up_server l0 ip name A pl heap W) = W" "next_obj (up_server l0 ip name A pl heap W) = heap"
  "loop_set (up_server l0 ip name A pl heap W) = insert l0 (set (loops pl))"
  by (simp_all add: up_server_def loop_set_def)

lemma up_own_loop:
  fixes ip name :: string and pl :: "nat pool"
  assumes w: "loop_made ctl view tid wp wfd W" "wp < heap" "p < heap" "p \<noteq> wp" and doc: "epoll_documented ctl view"
    and W': "poller_inv view {wp, p} W'" "chans W' wp = chans W wp" "wakeupChannel W' = wakeupChannel W"
      "pendingFunctors W' = pendingFunctors W"
      "chans W' p = (channel_new sockfd)\<lparr>readCallback := Some AcceptorHandleRead, ch_events := 3, ch_index := kAdded\<rparr>"
    and A: "acceptChannel A = p" and io: "ws l0 = W'"
  defines "S \<equiv> up_server l0 ip name A pl heap ws"
  shows "poller_inv view (base_chans S l0) (ios S l0) \<and> base_ok (next_obj S) S l0 \<and> pendingFunctors (ios S l0) = []"
  using loop_madeD [OF doc w(1)] w(2-4) W' A by (simp add: S_def io base_chans_def base_ok_def Let_def channel_new_def)

lemma up_other_loop:
  fixes ip name :: string and pl :: "nat pool" and A :: acceptor
  assumes "loop_made ctl view tid wp wfd W" "wp < heap" "epoll_documented ctl view" "ws l = W" "l \<noteq> l0"
  defines "S \<equiv> up_server l0 ip name A pl heap ws"
  shows "poller_inv view (base_chans S l) (ios S l) \<and> base_ok (next_obj S) S l \<and> pendingFunctors (ios S l) = []"
  using loop_madeD [OF assms(3,1)] assms(2,4,5) by (simp add: S_def base_chans_def base_ok_def Let_def channel_new_def)

lemma start_up:
  assumes "Acceptor_new sockfd True addr reuse p (W l0) = Inr (A, W1)" "toIpPort addr = Inr ip" "threadId W1 = tid0"
    and "acceptor_listen ctl True (setNewConnectionCallback True A) W1 = Inr (A', W')"
  shows "\<exists>S. TcpServer_new False l0 addr name reuse sockfd True p heap W = Inr S
    \<and> server_start ctl True spawn tid0 (server_setThreadNum n (server_setMessageCallback True (server_setConnectionCallback True S)))
      = Inr (up_server l0 ip name A' (pool_start spawn False (setThreadNum n (pool_new l0 name))) heap (W(l0 := W')))"
  using assms
  by (simp add: TcpServer_new_def server_start_def server_setThreadNum_def run_in_def isInLoopThread_def server_listen_def
      Let_def up_server_def)

lemma pool_up:
  fixes l0 :: nat and n :: c_int and name :: string and spawn :: "string \<Rightarrow> nat"
  defines "pl \<equiv> pool_start spawn False (setThreadNum n (pool_new l0 name))"
  shows "loops pl = map (\<lambda>i. spawn (pool_thread_name name i)) [0..<nat (sint n)]" "baseLoop pl = l0" "pool_inv pl"
proof -
  have "nat (sint n) < 2 ^ 31" using sint_lt [of n] by simp
  then show "loops pl = map (\<lambda>i. spawn (pool_thread_name name i)) [0..<nat (sint n)]" "baseLoop pl = l0" "pool_inv pl"
    by (simp_all add: pl_def pool_start_def setThreadNum_def pool_new_def pool_inv_def vec_max_size_def Let_def)
qed

section \<open>Properties\<close>

text \<open>
  C19: starting up.  When the loops have been constructed each in its own thread, constructing the server,
  setting its callbacks and the number of threads, and calling \<open>start()\<close> in the thread of the server's loop
  succeeds, with one I/O loop per thread, and leads to a state in which the running server may begin:
  the acceptor listens, every loop watches its own channels and has nothing queued, and no callback of the
  user has been called.
\<close>

theorem server_starts_ready:
  fixes W :: "nat \<Rightarrow> 'k io"
  assumes "epoll_documented ctl view"
    and "ls = map (\<lambda>i. spawn (pool_thread_name name i)) [0..<nat (sint n)]"
    and "\<forall>l\<in>insert l0 (set ls). loop_made ctl view (tid l) (wp l) (wfd l) (W l) \<and> wp l < heap"
    and "inj_on tid (insert l0 (set ls))" and "p < heap" and "p \<noteq> wp l0" and "0 \<le> sockfd" and "sockfd \<noteq> wfd l0"
  shows "\<exists>S S'. TcpServer_new False l0 addr name reuse sockfd True p heap W = Inr S
    \<and> server_start ctl True spawn (tid l0)
        (server_setThreadNum n (server_setMessageCallback True (server_setConnectionCallback True S))) = Inr S'
    \<and> server_ready view S' \<and> loops (threadPool S') = ls \<and> listenning (s_acceptor S')
    \<and> (\<forall>l\<in>loop_set S'. calls (ios S' l) = [])"
proof -
  note made = loop_madeD [OF assms(1)]
  have m: "loop_made ctl view (tid l) (wp l) (wfd l) (W l)" "wp l < heap" if "l \<in> insert l0 (set ls)" for l
    using assms(3) that by blast+
  note m0 = made [OF m(1) [of l0]]
  obtain A W1 A' W' where A: "Acceptor_new sockfd True addr reuse p (W l0) = Inr (A, W1)" "threadId W1 = threadId (W l0)"
      "acceptor_listen ctl True (setNewConnectionCallback True A) W1 = Inr (A', W')"
      "poller_inv view {wp l0, p} W'" "chans W' (wp l0) = chans (W l0) (wp l0)" "threadId W' = threadId (W l0)"
      "wakeupChannel W' = wakeupChannel (W l0)" "pendingFunctors W' = pendingFunctors (W l0)" "calls W' = calls (W l0)"
      "chans W' p = (channel_new sockfd)\<lparr>readCallback := Some AcceptorHandleRead, ch_events := 3, ch_index := kAdded\<rparr>"
      "acceptChannel A' = p" "newConnectionCallback A'" "listenning A'"
    using acceptor_up [OF assms(1), of "wp l0" "W l0" p sockfd addr reuse] m0 assms(6-8) by (auto simp: channel_new_def)
  obtain ip where ip: "toIpPort addr = Inr ip" "length ip \<le> 21" using toIpPort_ok [of addr] toIpPort_length by blast
  define pl where "pl = pool_start spawn False (setThreadNum n (pool_new l0 name))"
  define S' where "S' = up_server l0 ip name A' pl heap (W(l0 := W'))"
  have pl: "loops pl = ls" "baseLoop pl = l0" "pool_inv pl" using pool_up unfolding pl_def assms(2) by blast+
  have "poller_inv view (base_chans S' l) (ios S' l) \<and> base_ok (next_obj S') S' l \<and> pendingFunctors (ios S' l) = []"
    if l: "l \<in> insert l0 (set ls)" for l
  proof (cases "l = l0")
    case True
    have w: "(W(l0 := W')) l0 = W'" by simp
    show ?thesis unfolding True S'_def
      by (rule up_own_loop [where ws = "W(l0 := W')", OF m [OF insertI1] assms(5,6,1) A(4,5,7,8,10,11) w])
  next
    case False
    then have w: "(W(l0 := W')) l = W l" by simp
    show ?thesis unfolding S'_def by (rule up_other_loop [where ws = "W(l0 := W')", OF m [OF l] assms(1) w False])
  qed
  moreover have tid: "threadId ((W(l0 := W')) l) = tid l" if "l \<in> insert l0 (set ls)" for l
    using made(2) [OF m(1) [OF that]] A(6) m0(2) by simp
  then have "inj_on (\<lambda>l. threadId (ios S' l)) (loop_set S')"
    using assms(4) pl(1) by (simp add: S'_def inj_on_def del: fun_upd_apply)
  ultimately have "server_ready view S'"
    using pl ip(2) A(12) unfolding server_ready_def by (simp add: S'_def)
  moreover have "calls ((W(l0 := W')) l) = []" if "l \<in> insert l0 (set ls)" for l
    using made(6) [OF m(1) [OF that]] m0(6) A(9) by simp
  then have "\<forall>l\<in>loop_set S'. calls (ios S' l) = []" using pl(1) by (simp add: S'_def del: fun_upd_apply)
  moreover have "threadId W1 = tid l0" using A(2) m0(2) by simp
  then obtain S where "TcpServer_new False l0 addr name reuse sockfd True p heap W = Inr S"
      "server_start ctl True spawn (tid l0)
        (server_setThreadNum n (server_setMessageCallback True (server_setConnectionCallback True S))) = Inr S'"
    using start_up [where W = W, OF A(1) ip(1) _ A(3)] unfolding S'_def pl_def by blast
  ultimately show ?thesis using pl(1) A(13) by (intro exI [of _ S] exI [of _ S']) (simp add: S'_def)
qed

text \<open>Two loops, on the kernel that is its own interest list.\<close>

lemma loop_made_exists: "0 \<le> wfd \<Longrightarrow> \<exists>W. loop_made list_ctl (\<lambda>k. k) tid wp wfd W"
  using eventloop_new_ok [OF list_ctl_documented, of "\<lambda>_. Some Map.empty" Map.empty wfd tid wp "\<lambda>_. channel_new 0"]
  unfolding loop_made_def by (metis (full_types))

lemma server_starts_ready_witness:
  "\<exists>(W :: nat \<Rightarrow> (int \<rightharpoonup> epoll_event) io) S S'. TcpServer_new False 0 (InetAddress_new 80 []) ''web'' False 5 True 1 3 W = Inr S
    \<and> server_start list_ctl True (\<lambda>_. 1) 0
        (server_setThreadNum 1 (server_setMessageCallback True (server_setConnectionCallback True S))) = Inr S'
    \<and> server_ready (\<lambda>k. k) S' \<and> loops (threadPool S') = [1]"
proof -
  have "\<forall>l :: nat. \<exists>W. loop_made list_ctl (\<lambda>k. k) (int l) (2 * l) (4 + 2 * int l) W" by (simp add: loop_made_exists)
  then obtain W :: "nat \<Rightarrow> (int \<rightharpoonup> epoll_event) io" where W: "loop_made list_ctl (\<lambda>k. k) (int l) (2 * l) (4 + 2 * int l) (W l)" for l
    by metis
  have p: "[1 :: nat] = map (\<lambda>i. (\<lambda>_. 1) (pool_thread_name ''web'' i)) [0..<nat (sint (1 :: c_int))]" by simp
  have m: "\<forall>l\<in>insert 0 (set [1 :: nat]). loop_made list_ctl (\<lambda>k. k) (int l) (2 * l) (4 + 2 * int l) (W l) \<and> 2 * l < 3"
    using W by simp
  have "\<exists>S S'. TcpServer_new False 0 (InetAddress_new 80 []) ''web'' False 5 True 1 3 W = Inr S
    \<and> server_start list_ctl True (\<lambda>_. 1) 0
        (server_setThreadNum 1 (server_setMessageCallback True (server_setConnectionCallback True S))) = Inr S'
    \<and> server_ready (\<lambda>k. k) S' \<and> loops (threadPool S') = [1] \<and> listenning (s_acceptor S') \<and> (\<forall>l\<in>loop_set S'. calls (ios S' l) = [])"
    using server_starts_ready [where p = 1 and sockfd = 5 and addr = "InetAddress_new 80 []" and reuse = False
        and name = "''web''" and tid = int and heap = 3, OF list_ctl_documented p m]
    by (simp add: inj_on_def)
  then show ?thesis by blast
qed

end
