(* ===== verification/Log_Stream.thy ===== *)
theory Log_Stream
  imports Decimal "HOL-Library.Signed_Division"
begin

text \<open>
  \<open>FixedBuffer.h\<close>, \<open>LogStream.h\<close> and \<open>LogStream.cpp\<close>: a buffer of fixed size that drops what does not
  fit, and the stream operators that print into it.  Writes through \<open>cur_\<close> are bounds checked.
\<close>

section \<open>A bounded text\<close>

text \<open>
  The interface of the log lines and the log thread to their buffers: a put is all or nothing, and
  never fails.
\<close>

locale bounded_text =
  fixes put :: "char list \<Rightarrow> 'b \<Rightarrow> 'b res"
    and shown :: "'b \<Rightarrow> char list"
    and invar :: "'b \<Rightarrow> bool"
    and space :: "'b \<Rightarrow> nat"
    and put_limit :: nat
  assumes put_fits: "invar b \<Longrightarrow> length ds < space b
      \<Longrightarrow> \<exists>b'. put ds b = Inr b' \<and> invar b' \<and> shown b' = shown b @ ds \<and> space b' + length ds = space b"
    and put_full: "invar b \<Longrightarrow> space b \<le> length ds \<Longrightarrow> length ds < put_limit \<Longrightarrow> put ds b = Inr b"
begin

primrec puts :: "char list list \<Rightarrow> 'b \<Rightarrow> 'b res" where
  "puts [] b = Inr b"
| "puts (ds # dss) b = rbind (put ds b) (puts dss)"

lemma puts_fit:
  assumes "invar b" "length (concat dss) < space b"
  shows "\<exists>b'. puts dss b = Inr b' \<and> invar b' \<and> shown b' = shown b @ concat dss
    \<and> space b' + length (concat dss) = space b"
  using assms
proof (induction dss arbitrary: b)
  case Nil
  then show ?case by simp
next
  case (Cons ds dss)
  then obtain b1 where b1: "put ds b = Inr b1" "invar b1" "shown b1 = shown b @ ds" "space b1 + length ds = space b"
    using put_fits [of b ds] by auto
  moreover from this Cons.prems have "length (concat dss) < space b1" by simp
  ultimately show ?case using Cons.IH [of b1] by auto
qed

text \<open>Whatever is put, nothing that was in the text is lost and no put fails.\<close>

lemma puts_prefix:
  assumes "invar b" "\<forall>ds\<in>set dss. length ds < put_limit"
  shows "\<exists>b' ds. puts dss b = Inr b' \<and> invar b' \<and> shown b' = shown b @ ds \<and> length ds \<le> length (concat dss)"
  using assms
proof (induction dss arbitrary: b)
  case Nil
  then show ?case by simp
next
  case (Cons x xs)
  obtain b1 d where b1: "put x b = Inr b1" "invar b1" "shown b1 = shown b @ d" "length d \<le> length x"
    using put_fits [of b x] put_full [of b x] Cons.prems by (cases "length x < space b") auto
  moreover obtain b' e where "puts xs b1 = Inr b'" "invar b'" "shown b' = shown b1 @ e" "length e \<le> length (concat xs)"
    using Cons.IH [OF b1(2)] Cons.prems(2) by auto
  ultimately show ?case by auto
qed

end

section \<open>The fixed buffer\<close>

text \<open>\<open>fb_data\<close> is the array, of \<open>SIZE\<close> bytes, and \<open>fb_cur\<close> the offset of \<open>cur_\<close> in it.\<close>

record fixed_buffer =
  fb_data :: "char list"
  fb_cur :: nat

definition kSmallBuffer :: nat where "kSmallBuffer = 4000"
definition kLargeBuffer :: nat where "kLargeBuffer = 4000000"

definition fb_new :: "char list \<Rightarrow> fixed_buffer" where
  "fb_new raw = \<lparr>fb_data = raw, fb_cur = 0\<rparr>"

definition fb_avail :: "fixed_buffer \<Rightarrow> int" where
  "fb_avail b = int (length (fb_data b)) - int (fb_cur b)"

text \<open>\<open>length()\<close> subtracts \<open>data_\<close> from \<open>end()\<close>, not from \<open>cur_\<close>.\<close>

definition fb_length :: "fixed_buffer \<Rightarrow> int" where
  "fb_length b = int (length (fb_data b))"

text \<open>\<open>append\<close> compares sizes as \<open>size_t\<close>.\<close>

definition fb_append :: "char list \<Rightarrow> fixed_buffer \<Rightarrow> fixed_buffer res" where
  "fb_append ds b =
     (if (of_nat (length ds) :: size_t) < word_of_int (fb_avail b)
      then rbind (vec_write (fb_data b) (fb_cur b) ds)
             (\<lambda>s. Inr (b\<lparr>fb_data := s, fb_cur := fb_cur b + length ds\<rparr>))
      else Inr b)"

definition fb_add :: "nat \<Rightarrow> fixed_buffer \<Rightarrow> fixed_buffer" where
  "fb_add n b = b\<lparr>fb_cur := fb_cur b + n\<rparr>"

definition fb_reset :: "fixed_buffer \<Rightarrow> fixed_buffer" where
  "fb_reset b = b\<lparr>fb_cur := 0\<rparr>"

definition fb_bzero :: "fixed_buffer \<Rightarrow> fixed_buffer" where
  "fb_bzero b = b\<lparr>fb_data := replicate (length (fb_data b)) (CHR 0x00)\<rparr>"

definition fb_toString :: "fixed_buffer \<Rightarrow> char list" where
  "fb_toString b = take (nat (fb_length b)) (fb_data b)"

text \<open>The text written so far.\<close>

definition fb_text :: "fixed_buffer \<Rightarrow> char list" where
  "fb_text b = take (fb_cur b) (fb_data b)"

definition fb_inv :: "fixed_buffer \<Rightarrow> bool" where
  "fb_inv b \<longleftrightarrow> fb_cur b \<le> length (fb_data b) \<and> length (fb_data b) < 2 ^ 31"

definition fb_space :: "fixed_buffer \<Rightarrow> nat" where
  "fb_space b = length (fb_data b) - fb_cur b"

lemma fb_avail_space: "fb_inv b \<Longrightarrow> fb_avail b = int (fb_space b)"
  by (simp add: fb_avail_def fb_space_def fb_inv_def)

lemma fb_space_less: "fb_inv b \<Longrightarrow> fb_space b < 2 ^ 31"
  unfolding fb_inv_def fb_space_def by linarith

lemma write_at_cur:
  assumes "fb_inv b" "n \<le> length ds" "length ds \<le> fb_space b"
  shows "\<exists>s. vec_write (fb_data b) (fb_cur b) ds = Inr s \<and> length s = length (fb_data b)
    \<and> fb_inv (b\<lparr>fb_data := s, fb_cur := fb_cur b + n\<rparr>)
    \<and> fb_text (b\<lparr>fb_data := s, fb_cur := fb_cur b + n\<rparr>) = fb_text b @ take n ds"
  using assms by (auto simp: vec_write_def fb_inv_def fb_space_def fb_text_def)

lemma fb_append_cases:
  assumes inv: "fb_inv b" and len: "length ds < 2 ^ 64"
  shows "(of_nat (length ds) :: size_t) < word_of_int (fb_avail b) \<longleftrightarrow> length ds < fb_space b"
proof -
  have "fb_space b < 2 ^ 64" using fb_space_less [OF inv] by simp
  then have "unat (of_nat (fb_space b) :: size_t) = fb_space b" by (rule unat_of_nat_fits)
  moreover have "unat (of_nat (length ds) :: size_t) = length ds" using len by (rule unat_of_nat_fits)
  moreover have "(word_of_int (fb_avail b) :: size_t) = of_nat (fb_space b)"
    using fb_avail_space [OF inv] by simp
  ultimately show ?thesis by (simp add: word_less_nat_alt)
qed

lemma fb_append_fits:
  assumes "fb_inv b" "length ds < fb_space b"
  shows "\<exists>b'. fb_append ds b = Inr b' \<and> fb_inv b' \<and> fb_text b' = fb_text b @ ds \<and> fb_space b' + length ds = fb_space b"
proof -
  have l: "length ds < 2 ^ 64" using assms(2) fb_space_less [OF assms(1)] by simp
  obtain s where "vec_write (fb_data b) (fb_cur b) ds = Inr s" "length s = length (fb_data b)"
      "fb_inv (b\<lparr>fb_data := s, fb_cur := fb_cur b + length ds\<rparr>)"
      "fb_text (b\<lparr>fb_data := s, fb_cur := fb_cur b + length ds\<rparr>) = fb_text b @ ds"
    using write_at_cur [of b "length ds" ds] assms by auto
  then show ?thesis using assms fb_append_cases [OF assms(1) l] by (simp add: fb_append_def fb_space_def)
qed

interpretation fbt: bounded_text fb_append fb_text fb_inv fb_space "2 ^ 64"
proof unfold_locales
  fix b and ds :: "char list"
  assume "fb_inv b" "length ds < fb_space b"
  then show "\<exists>b'. fb_append ds b = Inr b' \<and> fb_inv b' \<and> fb_text b' = fb_text b @ ds \<and> fb_space b' + length ds = fb_space b"
    by (rule fb_append_fits)
next
  fix b and ds :: "char list"
  assume "fb_inv b" "fb_space b \<le> length ds" "length ds < 2 ^ 64"
  then show "fb_append ds b = Inr b" using fb_append_cases [of b ds] by (simp add: fb_append_def)
qed

section \<open>Printing integers\<close>

definition kMaxNumericSize :: nat where "kMaxNumericSize = 48"

text \<open>\<open>zero[remainder]\<close> with \<open>zero = digits + 9\<close>; remainders of negative numbers are negative.\<close>

definition digits_table :: string where
  "digits_table = ''9876543210123456789''"

definition zero_at :: "int \<Rightarrow> char" where
  "zero_at r = digits_table ! nat (9 + r)"

function format_loop :: "int \<Rightarrow> string" where
  "format_loop num =
     zero_at (num smod 10) # (if num sdiv 10 = 0 then [] else format_loop (num sdiv 10))"
  by auto

termination format_loop
proof (relation "measure (\<lambda>i. nat \<bar>i\<bar>)")
  fix num :: int
  assume "num sdiv 10 \<noteq> 0"
  then show "(num sdiv 10, num) \<in> measure (\<lambda>i. nat \<bar>i\<bar>)"
    by (auto simp: signed_divide_int_def sgn_if split: if_splits)
qed simp

declare format_loop.simps [simp del]

text \<open>The characters \<open>formatInteger\<close> leaves at \<open>start\<close>: the loop's, the sign, reversed.\<close>

definition format_chars :: "int \<Rightarrow> string" where
  "format_chars num = rev (format_loop num @ (if num < 0 then ''-'' else []))"

definition formatInteger :: "int \<Rightarrow> fixed_buffer \<Rightarrow> fixed_buffer res" where
  "formatInteger num b =
     (if int kMaxNumericSize \<le> fb_avail b
      then rbind (vec_write (fb_data b) (fb_cur b) (format_chars num @ [CHR 0x00]))
             (\<lambda>s. Inr (fb_add (length (format_chars num)) (b\<lparr>fb_data := s\<rparr>)))
      else Inr b)"

lemma zero_at_digit:
  assumes "\<bar>r\<bar> < 10"
  shows "zero_at r = digit (nat \<bar>r\<bar>)"
proof -
  have "\<forall>i\<in>set [- 9..9]. zero_at i = digit (nat \<bar>i\<bar>)" by code_simp
  moreover have "r \<in> set [- 9..9]" using assms by (simp only: set_upto) auto
  ultimately show ?thesis by blast
qed

lemma sdiv_smod_abs:
  "nat \<bar>num sdiv 10\<bar> = nat \<bar>num\<bar> div 10" "nat \<bar>num smod 10\<bar> = nat \<bar>num\<bar> mod 10" "\<bar>num smod 10\<bar> < 10"
  for num :: int
proof -
  have d: "\<bar>num sdiv 10\<bar> = \<bar>num\<bar> div 10" and m: "\<bar>num smod 10\<bar> = \<bar>num\<bar> mod 10"
    by (simp_all add: signed_divide_int_def signed_modulo_int_def sgn_if minus_mult_div_eq_mod)
  then show "nat \<bar>num sdiv 10\<bar> = nat \<bar>num\<bar> div 10" "nat \<bar>num smod 10\<bar> = nat \<bar>num\<bar> mod 10" "\<bar>num smod 10\<bar> < 10"
    by (simp_all add: nat_div_distrib nat_mod_distrib)
qed

lemma format_loop_show: "rev (format_loop num) = show_nat (nat \<bar>num\<bar>)"
proof (induction num rule: format_loop.induct)
  case (1 num)
  note a = sdiv_smod_abs [of num]
  have z: "zero_at (num smod 10) = digit (nat \<bar>num\<bar> mod 10)"
    using zero_at_digit [OF a(3)] a(2) by simp
  have "num sdiv 10 = 0 \<longleftrightarrow> nat \<bar>num\<bar> div 10 = 0" using a(1) by auto
  then have "num sdiv 10 = 0 \<longleftrightarrow> nat \<bar>num\<bar> < 10" by (simp add: div_eq_0_iff)
  then show ?case using 1 a(1) z
    by (subst format_loop.simps, subst show_nat.simps) auto
qed

lemma format_chars_show: "format_chars num = show_int num"
  using format_loop_show [of num] by (simp add: format_chars_def show_int_def)

section \<open>The operators\<close>

text \<open>
  What a statement streams.  All integer types end in \<open>formatInteger\<close>; \<open>LDouble\<close> carries the text
  \<open>%.12g\<close> makes of the value; \<open>LPtr\<close> is the overload for \<open>const void *\<close>, \<open>LStr\<close> for C strings,
  \<open>None\<close> being the null pointer.  \<open>cstr\<close> reads the C string at an address, \<open>None\<close> where there is none.
\<close>

datatype log_arg = LInt int | LDouble string | LChar char | LPtr nat | LStr "string option"
  | LString string | LBuf fixed_buffer | LGeneral string

definition put_cstring :: "string option \<Rightarrow> fixed_buffer \<Rightarrow> fixed_buffer res" where
  "put_cstring str b = (case str of Some s \<Rightarrow> fb_append s b | None \<Rightarrow> fb_append ''(null)'' b)"

definition put_double :: "string \<Rightarrow> fixed_buffer \<Rightarrow> fixed_buffer res" where
  "put_double s b =
     (if int kMaxNumericSize \<le> fb_avail b
      then rbind (vec_write (fb_data b) (fb_cur b) (snprintf kMaxNumericSize s @ [CHR 0x00]))
             (\<lambda>d. Inr (fb_add (length s) (b\<lparr>fb_data := d\<rparr>)))
      else Inr b)"

fun log_put :: "(nat \<Rightarrow> string option) \<Rightarrow> log_arg \<Rightarrow> fixed_buffer \<Rightarrow> fixed_buffer res" where
  "log_put cstr (LInt i) b = formatInteger i b"
| "log_put cstr (LDouble s) b = put_double s b"
| "log_put cstr (LChar c) b = fb_append [c] b"
| "log_put cstr (LPtr a) b =
     (if a = 0 then put_cstring None b
      else case cstr a of None \<Rightarrow> Inl UndefinedBehaviour | Some s \<Rightarrow> put_cstring (Some s) b)"
| "log_put cstr (LStr str) b = put_cstring str b"
| "log_put cstr (LString s) b = fb_append s b"
| "log_put cstr (LBuf b2) b = fb_append (fb_toString b2) b"
| "log_put cstr (LGeneral s) b = fb_append s b"

fun log_puts :: "(nat \<Rightarrow> string option) \<Rightarrow> log_arg list \<Rightarrow> fixed_buffer \<Rightarrow> fixed_buffer res" where
  "log_puts cstr [] b = Inr b"
| "log_puts cstr (a # as) b = rbind (log_put cstr a b) (log_puts cstr as)"

text \<open>The stream's own access to its buffer, \<open>append\<close> and \<open>resetBuffer\<close>.\<close>

definition log_append :: "char list \<Rightarrow> fixed_buffer \<Rightarrow> fixed_buffer res" where
  "log_append = fb_append"

definition log_resetBuffer :: "fixed_buffer \<Rightarrow> fixed_buffer" where
  "log_resetBuffer = fb_reset"

text \<open>The text an argument should leave; a number needs 48 free bytes whatever its length.\<close>

fun arg_text :: "log_arg \<Rightarrow> string" where
  "arg_text (LInt i) = show_int i"
| "arg_text (LDouble s) = s"
| "arg_text (LChar c) = [c]"
| "arg_text (LPtr a) = []"
| "arg_text (LStr None) = ''(null)''"
| "arg_text (LStr (Some s)) = s"
| "arg_text (LString s) = s"
| "arg_text (LBuf b) = fb_toString b"
| "arg_text (LGeneral s) = s"

fun arg_fine :: "log_arg \<Rightarrow> bool" where
  "arg_fine (LInt i) \<longleftrightarrow> - (2 ^ 63) \<le> i \<and> i < 2 ^ 64"
| "arg_fine (LDouble s) \<longleftrightarrow> length s < 48"
| "arg_fine (LPtr a) \<longleftrightarrow> False"
| "arg_fine _ \<longleftrightarrow> True"

lemma put_number:
  assumes inv: "fb_inv b" and room: "kMaxNumericSize \<le> fb_space b" and len: "length s < 48"
  shows "\<exists>b'. rbind (vec_write (fb_data b) (fb_cur b) (s @ [CHR 0x00])) (\<lambda>d. Inr (fb_add (length s) (b\<lparr>fb_data := d\<rparr>))) = Inr b'
    \<and> fb_inv b' \<and> fb_text b' = fb_text b @ s \<and> fb_space b' + length s = fb_space b"
proof -
  have "length (s @ [CHR 0x00]) \<le> fb_space b" using room len by (simp add: kMaxNumericSize_def)
  from write_at_cur [OF inv _ this, of "length s"] obtain d where
    "vec_write (fb_data b) (fb_cur b) (s @ [CHR 0x00]) = Inr d" "length d = length (fb_data b)"
    "fb_inv (b\<lparr>fb_data := d, fb_cur := fb_cur b + length s\<rparr>)"
    "fb_text (b\<lparr>fb_data := d, fb_cur := fb_cur b + length s\<rparr>) = fb_text b @ s" by auto
  moreover have "fb_add (length s) (b\<lparr>fb_data := d\<rparr>) = b\<lparr>fb_data := d, fb_cur := fb_cur b + length s\<rparr>"
    by (simp add: fb_add_def)
  ultimately show ?thesis using room len by (simp add: fb_space_def kMaxNumericSize_def)
qed

lemma int_text_short:
  assumes "- (2 ^ 63) \<le> i" "i < 2 ^ 64"
  shows "length (show_int i) < 48"
proof -
  have "length (show_int i) \<le> Suc 20" by (rule show_int_length) (use assms in simp_all)
  then show ?thesis by simp
qed

lemma formatInteger_ok:
  assumes "fb_inv b" "kMaxNumericSize \<le> fb_space b" "- (2 ^ 63) \<le> i" "i < 2 ^ 64"
  shows "\<exists>b'. formatInteger i b = Inr b' \<and> fb_inv b' \<and> fb_text b' = fb_text b @ show_int i
    \<and> fb_space b' + length (show_int i) = fb_space b"
  using put_number [OF assms(1,2) int_text_short [OF assms(3,4)]] assms(2) fb_avail_space [OF assms(1)]
  by (simp add: formatInteger_def format_chars_show)

lemma log_put_fits:
  assumes "fb_inv b" "arg_fine a" "length (arg_text a) < fb_space b" "kMaxNumericSize \<le> fb_space b"
  shows "\<exists>b'. log_put cstr a b = Inr b' \<and> fb_inv b' \<and> fb_text b' = fb_text b @ arg_text a
    \<and> fb_space b' + length (arg_text a) = fb_space b"
proof (cases a)
  case (LInt i)
  then show ?thesis using formatInteger_ok [OF assms(1,4), of i] assms(2) by simp
next
  case (LDouble s)
  then have "length s < 48" using assms(2) by simp
  with put_number [OF assms(1,4) this] LDouble assms(4) fb_avail_space [OF assms(1)] show ?thesis
    by (simp add: put_double_def snprintf_def kMaxNumericSize_def)
next
  case (LStr str)
  then show ?thesis using fbt.put_fits [OF assms(1,3)] by (cases str) (simp_all add: put_cstring_def)
next
  case (LPtr p)
  then show ?thesis using assms(2) by simp
qed (use fbt.put_fits [OF assms(1,3)] in simp_all)

lemma log_puts_fit:
  assumes "fb_inv b" "\<forall>a\<in>set as. arg_fine a" "length (concat (map arg_text as)) + kMaxNumericSize \<le> fb_space b"
  shows "\<exists>b'. log_puts cstr as b = Inr b' \<and> fb_inv b' \<and> fb_text b' = fb_text b @ concat (map arg_text as)
    \<and> fb_space b' + length (concat (map arg_text as)) = fb_space b"
  using assms
proof (induction as arbitrary: b)
  case Nil
  then show ?case by simp
next
  case (Cons a as)
  have "arg_fine a" "length (arg_text a) < fb_space b" "kMaxNumericSize \<le> fb_space b"
    using Cons.prems by (simp_all add: kMaxNumericSize_def)
  from log_put_fits [OF Cons.prems(1) this] obtain b1 where b1: "log_put cstr a b = Inr b1" "fb_inv b1"
      "fb_text b1 = fb_text b @ arg_text a" "fb_space b1 + length (arg_text a) = fb_space b" by blast
  have "\<exists>b'. log_puts cstr as b1 = Inr b' \<and> fb_inv b' \<and> fb_text b' = fb_text b1 @ concat (map arg_text as)
    \<and> fb_space b' + length (concat (map arg_text as)) = fb_space b1"
    by (rule Cons.IH) (use b1 Cons.prems in simp_all)
  with b1 show ?case by auto
qed

text \<open>
  The array behind the text: a number leaves its final NUL there, and nothing else is touched, so that what
  was in the memory before stays.
\<close>

definition behind :: "char list \<Rightarrow> fixed_buffer \<Rightarrow> bool" where
  "behind raw b \<longleftrightarrow> length (fb_data b) = length raw \<and> drop (Suc (fb_cur b)) (fb_data b) = drop (Suc (fb_cur b)) raw"

lemma write_behind:
  assumes "behind raw b" "vec_write (fb_data b) (fb_cur b) ds = Inr d" "length ds \<le> Suc n"
  shows "behind raw (b\<lparr>fb_data := d, fb_cur := fb_cur b + n\<rparr>)"
proof -
  have d: "d = take (fb_cur b) (fb_data b) @ ds @ drop (fb_cur b + length ds) (fb_data b)"
    "fb_cur b + length ds \<le> length (fb_data b)"
    using assms(2) by (simp_all add: vec_write_def split: if_splits)
  have "drop (Suc (fb_cur b + n)) d = drop (Suc (fb_cur b + n)) (fb_data b)"
    using assms(3) d(2) unfolding d(1) by (simp add: min_absorb2 add.commute)
  also have "\<dots> = drop n (drop (Suc (fb_cur b)) (fb_data b))" by (simp add: add.commute)
  also have "\<dots> = drop (Suc (fb_cur b + n)) raw" using assms(1) by (simp add: behind_def add.commute)
  finally show ?thesis using assms(1) d by (simp add: behind_def)
qed

lemma fb_append_behind:
  assumes "behind raw b" "fb_append ds b = Inr b'"
  shows "behind raw b'"
  using assms write_behind [OF assms(1), of ds _ "length ds"] by (auto simp: fb_append_def rbind_eq_Inr split: if_splits)

lemma log_put_behind:
  assumes "arg_fine a" "behind raw b" "log_put cstr a b = Inr b'"
  shows "behind raw b'"
  using assms fb_append_behind [OF assms(2), of _ b'] write_behind [OF assms(2)]
  by (cases a) (auto simp: formatInteger_def put_double_def put_cstring_def snprintf_def kMaxNumericSize_def fb_add_def rbind_eq_Inr
      split: if_splits option.splits)

lemma log_puts_behind:
  assumes "\<forall>a\<in>set as. arg_fine a" "behind raw b" "log_puts cstr as b = Inr b'"
  shows "behind raw b'"
  using assms by (induction as arbitrary: b) (auto simp: rbind_eq_Inr intro: log_put_behind)

lemma log_puts_snoc: "log_puts cstr (as @ [a]) b = rbind (log_puts cstr as b) (log_put cstr a)"
proof (induction as arbitrary: b)
  case Nil
  show ?case by (cases "log_put cstr a b") simp_all
next
  case (Cons x xs)
  show ?case by (cases "log_put cstr x b") (simp_all add: Cons.IH)
qed

text \<open>A statement ends with a character, which covers the NUL of a number before it.\<close>

lemma log_puts_ends:
  assumes "fb_inv (fb_new raw)" "\<forall>a\<in>set as. arg_fine a" "length (concat (map arg_text (as @ [LChar c]))) + kMaxNumericSize \<le> length raw"
  shows "\<exists>b. log_puts cstr (as @ [LChar c]) (fb_new raw) = Inr b
    \<and> fb_data b = concat (map arg_text (as @ [LChar c])) @ drop (length (concat (map arg_text (as @ [LChar c])))) raw"
proof -
  let ?text = "concat (map arg_text as)"
  have s: "fb_space (fb_new raw) = length raw" "fb_text (fb_new raw) = []" by (simp_all add: fb_space_def fb_new_def fb_text_def)
  obtain b1 where b1: "log_puts cstr as (fb_new raw) = Inr b1" "fb_inv b1" "fb_text b1 = ?text" "fb_space b1 + length ?text = length raw"
    using log_puts_fit [OF assms(1,2), of cstr] assms(3) s by auto
  have bh: "behind raw b1" using log_puts_behind [OF assms(2) _ b1(1), of raw] by (simp add: behind_def fb_new_def)
  have "length (fb_text b1) = fb_cur b1" using b1(2) by (simp add: fb_text_def fb_inv_def)
  then have cur: "fb_cur b1 = length ?text" by (simp add: b1(3))
  have "length [c] < fb_space b1" using b1(4) assms(3) by (simp add: kMaxNumericSize_def)
  then obtain b where b: "fb_append [c] b1 = Inr b" "fb_text b = ?text @ [c]" using fb_append_fits [OF b1(2)] b1(3) by metis
  have "(of_nat (length [c]) :: size_t) < word_of_int (fb_avail b1)"
    using \<open>length [c] < fb_space b1\<close> fb_append_cases [OF b1(2), of "[c]"] by simp
  then obtain d where d: "vec_write (fb_data b1) (fb_cur b1) [c] = Inr d" "b = b1\<lparr>fb_data := d, fb_cur := Suc (fb_cur b1)\<rparr>"
    using b(1) by (auto simp: fb_append_def rbind_eq_Inr)
  then have "drop (Suc (fb_cur b1)) d = drop (Suc (fb_cur b1)) (fb_data b1)" by (auto simp: vec_write_def split: if_splits)
  then have "fb_data b = fb_text b @ drop (Suc (length ?text)) raw"
    using bh d(2) cur append_take_drop_id [of "Suc (fb_cur b1)" d] by (simp add: behind_def fb_text_def)
  then show ?thesis using b b1(1) by (intro exI [of _ b]) (simp add: log_puts_snoc)
qed

section \<open>Properties\<close>

text \<open>
  C26: integers in log lines.  Every value of every integer type, from the least \<open>long long\<close> to the
  greatest \<open>unsigned long long\<close>, is printed as its decimal representation, with C's truncating
  division on negative numbers and no special case for the least one; with fewer than 48 bytes left
  nothing is printed.
\<close>

theorem log_integer_decimal:
  assumes "fb_inv b" and "- (2 ^ 63) \<le> i" and "i < 2 ^ 64"
  shows "\<exists>b'. formatInteger i b = Inr b' \<and> fb_inv b'
    \<and> fb_text b' = fb_text b @ (if kMaxNumericSize \<le> fb_space b then show_int i else [])"
proof (cases "kMaxNumericSize \<le> fb_space b")
  case True
  then show ?thesis using formatInteger_ok [OF assms(1) True assms(2,3)] by auto
next
  case False
  then show ?thesis using assms(1) by (simp add: formatInteger_def fb_avail_space)
qed

definition blank_line :: "nat \<Rightarrow> fixed_buffer" where
  "blank_line n = fb_new (replicate n (CHR ''#''))"

lemma log_integer_decimal_witness:
  "\<exists>b'. formatInteger (- 9223372036854775808) (blank_line 60) = Inr b' \<and> fb_text b' = ''-9223372036854775808''"
proof -
  have "fb_inv (blank_line 60)" "kMaxNumericSize \<le> fb_space (blank_line 60)" "fb_text (blank_line 60) = []"
    by (simp_all add: fb_inv_def fb_space_def fb_text_def blank_line_def fb_new_def kMaxNumericSize_def)
  moreover have "show_int (- 9223372036854775808) = ''-9223372036854775808''"
    by (simp add: show_eval digit_values [unfolded One_nat_def])
  ultimately show ?thesis using log_integer_decimal [of "blank_line 60" "- 9223372036854775808"] by auto
qed

text \<open>
  An append is all or nothing.  \<open>FixedBuffer::append\<close> never writes outside the array: text that is
  shorter than the free space is added whole, any other is dropped whole and silently.
\<close>

theorem fixed_buffer_append_atomic:
  assumes "fb_inv b" and "length ds < 2 ^ 64"
  shows "\<exists>b'. fb_append ds b = Inr b' \<and> fb_inv b'
    \<and> fb_text b' = fb_text b @ (if length ds < fb_space b then ds else [])"
  using fbt.put_fits [OF assms(1), of ds] fbt.put_full [OF assms(1), of ds] assms
  by (cases "length ds < fb_space b") auto

lemma fixed_buffer_append_atomic_witness:
  "(\<exists>b'. fb_append ''abc'' (blank_line 4) = Inr b' \<and> fb_text b' = ''abc'')
   \<and> (\<exists>b'. fb_append ''abcd'' (blank_line 4) = Inr b' \<and> fb_text b' = [])"
proof -
  have "fb_inv (blank_line 4)" "fb_space (blank_line 4) = 4" "fb_text (blank_line 4) = []"
    by (simp_all add: fb_inv_def fb_space_def fb_text_def blank_line_def fb_new_def)
  then show ?thesis
    using fixed_buffer_append_atomic [of "blank_line 4" "''abc''"] fixed_buffer_append_atomic [of "blank_line 4" "''abcd''"]
    by auto
qed

text \<open>
  \<open>toString()\<close> and \<open>length()\<close> are about the array, not the text.  A buffer streamed into another
  adds all \<open>SIZE\<close> bytes, the unwritten rest included; into a line of the same size it never fits, so
  it is dropped.
\<close>

theorem fixed_buffer_length_is_size:
  assumes "fb_inv b" and "length (fb_data b2) = length (fb_data b)"
  shows "fb_toString b2 = fb_data b2 \<and> log_put cstr (LBuf b2) b = Inr b"
proof -
  have "fb_toString b2 = fb_data b2" by (simp add: fb_toString_def fb_length_def)
  moreover have "fb_append (fb_data b2) b = Inr b"
    by (rule fbt.put_full [OF assms(1)]) (use assms in \<open>simp_all add: fb_space_def fb_inv_def\<close>)
  ultimately show ?thesis by simp
qed

lemma fixed_buffer_length_is_size_witness:
  "log_put (\<lambda>_. None) (LBuf (blank_line 100)) (blank_line 100) = Inr (blank_line 100)"
  using fixed_buffer_length_is_size [of "blank_line 100" "blank_line 100"]
  by (simp add: fb_inv_def blank_line_def fb_new_def fb_toString_def fb_length_def)

text \<open>
  Streaming a pointer does not print the address: the overload for \<open>const void *\<close> treats the pointer as
  a C string and reads the object behind it.
\<close>

lemma log_pointer_reads_memory:
  "a \<noteq> 0 \<Longrightarrow> cstr a = Some s \<Longrightarrow> log_put cstr (LPtr a) b = fb_append s b"
  "a \<noteq> 0 \<Longrightarrow> cstr a = None \<Longrightarrow> log_put cstr (LPtr a) b = Inl UndefinedBehaviour"
  by (simp_all add: put_cstring_def)

end
