(* ===== verification/Base_Threads.thy ===== *)
theory Base_Threads
  imports Decimal Timestamps
begin

text \<open>
  The base library: \<open>CurrentThread\<close>, \<open>Thread\<close> and \<open>ThreadPool\<close>.  The kernel's thread
  numbers are arguments; the threads of a pool and the threads that use it interleave
  in a step relation.
\<close>

section \<open>Thread numbers\<close>

text \<open>\<open>t_cachedTid\<close> is passed in and out; 0 means not cached.\<close>

definition cacheTid :: "int \<Rightarrow> int \<Rightarrow> int" where
  "cacheTid gettid cached = (if cached = 0 then gettid else cached)"

definition current_tid :: "int \<Rightarrow> int \<Rightarrow> int \<times> int" where
  "current_tid gettid cached = (let c = (if cached = 0 then cacheTid gettid cached else cached) in (c, c))"

section \<open>Thread\<close>

text \<open>\<open>th_handle\<close> is the \<open>std::thread\<close> behind \<open>thread_\<close>, if there is one, and whether it is joinable.\<close>

record thread =
  th_started :: bool
  th_joined :: bool
  th_handle :: "bool option"
  th_tid :: int
  th_name :: string

definition setDefaultName :: "nat \<Rightarrow> string \<Rightarrow> nat \<times> string" where
  "setDefaultName numCreated name =
     (let num = Suc numCreated in
      (num, if name = [] then snprintf 22 (''Thread'' @ show_int (int num)) else name))"

definition Thread_new :: "string \<Rightarrow> nat \<Rightarrow> thread \<times> nat" where
  "Thread_new name numCreated =
     (let (num, nm) = setDefaultName numCreated name in
      (\<lparr>th_started = False, th_joined = False, th_handle = None, th_tid = 0, th_name = nm\<rparr>, num))"

text \<open>\<open>start\<close> returns only after the new thread has stored its number, which the semaphore waits for.\<close>

definition Thread_start :: "int \<Rightarrow> thread \<Rightarrow> thread" where
  "Thread_start tid t = t\<lparr>th_started := True, th_handle := Some True, th_tid := tid\<rparr>"

definition Thread_join :: "thread \<Rightarrow> thread res" where
  "Thread_join t =
     (let t1 = t\<lparr>th_joined := True\<rparr> in
      case th_handle t1 of None \<Rightarrow> Inl UndefinedBehaviour
      | Some joinable \<Rightarrow> if joinable then Inr (t1\<lparr>th_handle := Some False\<rparr>) else Inl SystemError)"

definition Thread_destroy :: "thread \<Rightarrow> thread res" where
  "Thread_destroy t =
     (if th_started t \<and> \<not> th_joined t
      then (case th_handle t of None \<Rightarrow> Inl UndefinedBehaviour
            | Some joinable \<Rightarrow> if joinable then Inr (t\<lparr>th_handle := Some False\<rparr>) else Inl SystemError)
      else Inr t)"

text \<open>Default names are pairwise different; a thread started and then destroyed or joined once is clean.\<close>

lemma default_name:
  assumes "num < 10 ^ 14"
  shows "th_name (fst (Thread_new [] num)) = ''Thread'' @ show_nat (Suc num)"
proof -
  have "length (show_nat (Suc num)) \<le> 15" by (rule show_nat_length) (use assms in simp_all)
  then show ?thesis
    by (simp add: Thread_new_def setDefaultName_def show_int_def snprintf_def nat_add_distrib del: of_nat_Suc)
qed

section \<open>The thread pool\<close>

text \<open>
  \<open>tp_inits\<close> counts the calls of the initialisation callback, by each worker, or by \<open>start\<close> without
  workers; \<open>tp_live\<close> counts the workers inside \<open>runInThread\<close>; \<open>tp_done\<close> are the tasks taken out, in order,
  \<open>tp_submitted\<close> those ever added.
\<close>

record 'f tpool =
  tp_name :: string
  tp_running :: bool
  tp_queue :: "'f list"
  tp_size :: nat
  tp_live :: nat
  tp_threads :: "string list"
  tp_done :: "'f list"
  tp_init_set :: bool
  tp_inits :: nat
  tp_submitted :: "'f list"

definition ThreadPool_new :: "string \<Rightarrow> nat \<Rightarrow> 'f tpool" where
  "ThreadPool_new name uninitialised_size = \<lparr>tp_name = name, tp_running = False, tp_queue = [],
     tp_size = uninitialised_size, tp_live = 0, tp_threads = [], tp_done = [],
     tp_init_set = False, tp_inits = 0, tp_submitted = []\<rparr>"

definition setThreadSize :: "nat \<Rightarrow> 'f tpool \<Rightarrow> 'f tpool" where
  "setThreadSize n p = p\<lparr>tp_size := n\<rparr>"

definition setThreadInitCallback :: "'f tpool \<Rightarrow> 'f tpool" where
  "setThreadInitCallback p = p\<lparr>tp_init_set := True\<rparr>"

definition ThreadPool_start :: "'f tpool \<Rightarrow> 'f tpool" where
  "ThreadPool_start p = p\<lparr>tp_running := False,
     tp_threads := tp_threads p @ map (\<lambda>i. tp_name p @ snprintf 32 (show_int (int i + 1))) [0..<tp_size p],
     tp_live := tp_live p + tp_size p,
     tp_inits := tp_inits p + (if tp_init_set p then if tp_size p = 0 then 1 else tp_size p else 0)\<rparr>"

definition ThreadPool_stop :: "'f tpool \<Rightarrow> 'f tpool" where
  "ThreadPool_stop p = p\<lparr>tp_running := False\<rparr>"

text \<open>The destructor joins every worker; \<open>None\<close> while one of them has not returned.\<close>

definition ThreadPool_destroy :: "'f tpool \<Rightarrow> 'f tpool option" where
  "ThreadPool_destroy p = (let p1 = ThreadPool_stop p in if tp_live p1 = 0 then Some p1 else None)"

definition queueSize :: "'f tpool \<Rightarrow> nat" where
  "queueSize p = length (tp_queue p)"

definition ThreadPool_add :: "'f \<Rightarrow> 'f tpool \<Rightarrow> 'f tpool" where
  "ThreadPool_add f p = p\<lparr>tp_queue := tp_queue p @ [f], tp_submitted := tp_submitted p @ [f]\<rparr>"

text \<open>What a worker holding the lock does: take a task, return, or wait.\<close>

datatype 'f worker_choice = TakeTask 'f | ReturnFromRun | WaitForWork

definition worker_choice :: "'f tpool \<Rightarrow> 'f worker_choice" where
  "worker_choice p = (case tp_queue p of [] \<Rightarrow> if \<not> tp_running p then ReturnFromRun else WaitForWork
     | f # fs \<Rightarrow> TakeTask f)"

inductive tp_step :: "'f tpool \<Rightarrow> 'f tpool \<Rightarrow> bool" where
  tp_add: "tp_step p (ThreadPool_add f p)"
| tp_stop: "tp_step p (ThreadPool_stop p)"
| tp_take: "0 < tp_live p \<Longrightarrow> worker_choice p = TakeTask f
    \<Longrightarrow> tp_step p (p\<lparr>tp_queue := tl (tp_queue p), tp_done := tp_done p @ [f]\<rparr>)"
| tp_throw: "0 < tp_live p \<Longrightarrow> worker_choice p = TakeTask f
    \<Longrightarrow> tp_step p (p\<lparr>tp_queue := tl (tp_queue p), tp_done := tp_done p @ [f], tp_live := tp_live p - 1\<rparr>)"
| tp_return: "0 < tp_live p \<Longrightarrow> worker_choice p = ReturnFromRun \<Longrightarrow> tp_step p (p\<lparr>tp_live := tp_live p - 1\<rparr>)"

inductive tp_reachable :: "'f tpool \<Rightarrow> bool" where
  tp_init: "tp_reachable (ThreadPool_start (setThreadSize n (ThreadPool_new name junk)))"
| tp_next: "tp_reachable p \<Longrightarrow> tp_step p q \<Longrightarrow> tp_reachable q"

definition tp_inv :: "'f tpool \<Rightarrow> bool" where
  "tp_inv p \<longleftrightarrow> \<not> tp_running p \<and> tp_done p @ tp_queue p = tp_submitted p"

lemma tp_step_inv: "tp_step p q \<Longrightarrow> tp_inv p \<Longrightarrow> tp_inv q"
  by (induction rule: tp_step.induct)
    (auto simp: tp_inv_def ThreadPool_add_def ThreadPool_stop_def worker_choice_def append.assoc [symmetric]
      simp del: append.assoc split: list.splits if_splits)

lemma tp_reachable_inv: "tp_reachable p \<Longrightarrow> tp_inv p"
proof (induction rule: tp_reachable.induct)
  case (tp_init n name junk)
  then show ?case by (simp add: tp_inv_def ThreadPool_start_def setThreadSize_def ThreadPool_new_def)
next
  case (tp_next p q)
  then show ?case by (blast intro: tp_step_inv)
qed

section \<open>Properties\<close>

text \<open>
  C36: the pool runs tasks in the order they were added, each once: in every reachable interleaving the
  tasks taken so far followed by the queue are exactly the tasks added.
\<close>

theorem threadpool_fifo:
  assumes "tp_reachable p"
  shows "tp_done p @ tp_queue p = tp_submitted p"
  using tp_reachable_inv [OF assms] by (simp add: tp_inv_def)

definition pool_of :: "nat \<Rightarrow> nat tpool" where
  "pool_of n = ThreadPool_start (setThreadSize n (ThreadPool_new ''pool'' 0))"

lemma pool_of_reachable: "tp_reachable (pool_of n)"
  unfolding pool_of_def by (rule tp_init)

lemma threadpool_fifo_witness:
  "\<exists>p :: nat tpool. tp_reachable p \<and> tp_submitted p = [7, 8] \<and> tp_queue p = [8] \<and> tp_done p = [7]"
proof -
  let ?p1 = "ThreadPool_add 8 (ThreadPool_add 7 (pool_of 1))"
  let ?p2 = "?p1\<lparr>tp_queue := tl (tp_queue ?p1), tp_done := tp_done ?p1 @ [7]\<rparr>"
  have d: "tp_queue ?p1 = [7, 8]" "tp_submitted ?p1 = [7, 8]" "0 < tp_live ?p1"
    by (simp_all add: ThreadPool_add_def pool_of_def ThreadPool_start_def setThreadSize_def ThreadPool_new_def)
  have "tp_reachable ?p1" by (rule tp_next [OF tp_next [OF pool_of_reachable tp_add] tp_add])
  moreover have "tp_step ?p1 ?p2" by (rule tp_take) (use d in \<open>simp_all add: worker_choice_def\<close>)
  ultimately have r: "tp_reachable ?p2" by (rule tp_next)
  have "tp_done ?p2 @ tp_queue ?p2 = tp_submitted ?p2" by (rule threadpool_fifo [OF r])
  then show ?thesis using r d by (intro exI [of _ ?p2]) simp
qed

text \<open>
  The pool never waits for work.  \<open>start()\<close> sets \<open>running_\<close> to false and nothing sets it to true, so
  in every reachable state a worker that finds the queue empty returns instead of waiting; once the
  last worker has returned, no later step runs a task, and tasks added then stay in the queue.
\<close>

theorem threadpool_never_waits:
  assumes "tp_reachable p" and "tp_step\<^sup>*\<^sup>* p q" and "tp_live p = 0"
  shows "worker_choice p \<noteq> WaitForWork \<and> tp_live q = 0 \<and> tp_done q = tp_done p
    \<and> (\<exists>fs. tp_queue q = tp_queue p @ fs)"
proof -
  have "\<not> tp_running p" using tp_reachable_inv [OF assms(1)] by (simp add: tp_inv_def)
  then have "worker_choice p \<noteq> WaitForWork" by (auto simp: worker_choice_def split: list.split)
  moreover have "tp_live q = 0 \<and> tp_done q = tp_done p \<and> (\<exists>fs. tp_queue q = tp_queue p @ fs)"
    using assms(2)
  proof (induction rule: rtranclp_induct)
    case base
    then show ?case using assms(3) by simp
  next
    case (step q r)
    from step(2) show ?case
      by cases (use step(3) in \<open>auto simp: ThreadPool_add_def ThreadPool_stop_def\<close>)
  qed
  ultimately show ?thesis by blast
qed

lemma threadpool_never_waits_witness:
  "\<exists>p q :: nat tpool. tp_reachable p \<and> tp_step\<^sup>*\<^sup>* p q \<and> tp_queue q = [5] \<and> tp_done q = []
     \<and> tp_live q = 0"
proof -
  let ?p = "(pool_of 1)\<lparr>tp_live := tp_live (pool_of 1) - 1\<rparr>"
  have d: "tp_live (pool_of 1) = 1" "tp_queue (pool_of 1) = []" "\<not> tp_running (pool_of 1)" "tp_done (pool_of 1) = []"
    by (simp_all add: pool_of_def ThreadPool_start_def setThreadSize_def ThreadPool_new_def)
  have "tp_step (pool_of 1) ?p" by (rule tp_return) (use d in \<open>simp_all add: worker_choice_def\<close>)
  with pool_of_reachable have r: "tp_reachable ?p" by (rule tp_next)
  have st: "tp_step\<^sup>*\<^sup>* ?p (ThreadPool_add 5 ?p)" by (rule r_into_rtranclp) (rule tp_add)
  from threadpool_never_waits [OF r st] d r st show ?thesis
    by (intro exI [of _ ?p] exI [of _ "ThreadPool_add 5 ?p"]) (simp add: ThreadPool_add_def)
qed

end
