(* ===== verification/Logging.thy ===== *)
theory Logging
  imports Log_Stream Base_Threads
begin

text \<open>
  \<open>include/logger/Logging.h\<close> and \<open>src/logger/Logging.cpp\<close>: one \<open>Logger\<close> object per statement, which
  streams the time, the level and the user's arguments into its buffer and hands the buffer to the
  output function when it is destroyed.  The clock and \<open>localtime\<close> are arguments.
\<close>

section \<open>Levels and source files\<close>

datatype LogLevel = TRACE | DEBUG | INFO | WARN | ERROR | FATAL

fun level_value :: "LogLevel \<Rightarrow> nat" where
  "level_value TRACE = 0" | "level_value DEBUG = 1" | "level_value INFO = 2" | "level_value WARN = 3"
| "level_value ERROR = 4" | "level_value FATAL = 5"

instantiation LogLevel :: linorder
begin

definition less_eq_LogLevel :: "LogLevel \<Rightarrow> LogLevel \<Rightarrow> bool" where
  "less_eq_LogLevel a b \<longleftrightarrow> level_value a \<le> level_value b"

definition less_LogLevel :: "LogLevel \<Rightarrow> LogLevel \<Rightarrow> bool" where
  "less_LogLevel a b \<longleftrightarrow> level_value a < level_value b"

instance
proof
  fix a b :: LogLevel
  show "a \<le> b \<Longrightarrow> b \<le> a \<Longrightarrow> a = b"
    by (cases a; cases b; simp add: less_eq_LogLevel_def)
qed (auto simp: less_eq_LogLevel_def less_LogLevel_def)

end

fun getLevelName :: "LogLevel \<Rightarrow> string" where
  "getLevelName TRACE = ''TRACE ''" | "getLevelName DEBUG = ''DEBUG ''" | "getLevelName INFO = ''INFO  ''"
| "getLevelName WARN = ''WARN  ''" | "getLevelName ERROR = ''ERROR ''" | "getLevelName FATAL = ''FATAL ''"

text \<open>\<open>SourceFile\<close> keeps what follows the last slash, which \<open>strrchr\<close> finds.\<close>

definition SourceFile :: "string \<Rightarrow> string" where
  "SourceFile filename =
     (if CHR ''/'' \<in> set filename then rev (takeWhile (\<lambda>c. c \<noteq> CHR ''/'') (rev filename)) else filename)"

section \<open>The time stamp of a line\<close>

record tm =
  tm_year :: int
  tm_mon :: int
  tm_mday :: int
  tm_hour :: int
  tm_min :: int
  tm_sec :: int

definition fmt_zero :: "nat \<Rightarrow> int \<Rightarrow> string" where
  "fmt_zero w i = (if i < 0 then CHR ''-'' # pad (CHR ''0'') (w - 1) (show_nat (nat (- i)))
     else pad (CHR ''0'') w (show_nat (nat i)))"

definition time_text :: "tm \<Rightarrow> string" where
  "time_text t = pad (CHR '' '') 4 (show_int (tm_year t + 1900)) @ ''/'' @ fmt_zero 2 (tm_mon t + 1) @ ''/''
     @ fmt_zero 2 (tm_mday t) @ '' '' @ fmt_zero 2 (tm_hour t) @ '':'' @ fmt_zero 2 (tm_min t) @ '':''
     @ fmt_zero 2 (tm_sec t)"

text \<open>\<open>formatTime\<close> streams 17 characters of the time and 7 of the microseconds.\<close>

definition formatTime :: "(int \<Rightarrow> tm) \<Rightarrow> int \<Rightarrow> log_arg list" where
  "formatTime localtime now =
     (let seconds = now sdiv 1000000; microseconds = now smod 1000000 in
      [LGeneral (take 17 (snprintf 64 (time_text (localtime seconds)))),
       LGeneral (take 7 (snprintf 32 (fmt_zero 6 microseconds @ '' '')))])"

text \<open>
  \<open>Timestamp::toFormattedString\<close> fills its buffer in the same way but has no \<open>return\<close>; the number it
  prints as microseconds is the number of seconds.
\<close>

definition toFormattedString :: "(int \<Rightarrow> tm) \<Rightarrow> bool \<Rightarrow> timestamp \<Rightarrow> string res" where
  "toFormattedString localtime showMicroseconds ts =
     (let seconds = secondsSinceEpoch ts; t = localtime seconds;
          microseconds = sint (word_of_int (sint (micros ts) sdiv MicroSecondsPerSecond) :: c_int);
          buf = (if showMicroseconds then snprintf 64 (time_text t @ ''.'' @ fmt_zero 6 microseconds)
                 else snprintf 64 (time_text t))
      in Inl UndefinedBehaviour)"

section \<open>A logging statement\<close>

text \<open>
  What the constructor of \<open>Impl\<close> streams, then the constructor with a function name; \<open>errmsg\<close> is
  \<open>getErrnoMsg\<close>.  All public constructors pass 0 for \<open>savedErrno\<close>.
\<close>

definition Impl_args :: "(int \<Rightarrow> tm) \<Rightarrow> (int \<Rightarrow> string) \<Rightarrow> LogLevel \<Rightarrow> int \<Rightarrow> int \<Rightarrow> log_arg list" where
  "Impl_args localtime errmsg level savedErrno now =
     formatTime localtime now @ [LGeneral (take 6 (getLevelName level))]
     @ (if savedErrno \<noteq> 0
        then [LStr (Some (errmsg savedErrno)), LStr (Some '' (errno=''), LInt savedErrno, LStr (Some '') '')] else [])"

definition Logger_args :: "(int \<Rightarrow> tm) \<Rightarrow> (int \<Rightarrow> string) \<Rightarrow> LogLevel \<Rightarrow> string option \<Rightarrow> int \<Rightarrow> log_arg list" where
  "Logger_args localtime errmsg level func now =
     Impl_args localtime errmsg level 0 now
     @ (case func of Some f \<Rightarrow> [LStr (Some f), LChar (CHR '' '')] | None \<Rightarrow> [])"

definition finish_args :: "string \<Rightarrow> int \<Rightarrow> log_arg list" where
  "finish_args file line =
     [LStr (Some '' - ''), LGeneral (SourceFile file), LChar (CHR '':''), LInt line, LChar (CHR 0x0A)]"

text \<open>
  The logging state of the process: the level, the two functions the user may replace, and the sink
  \<open>log_sink\<close> they act on, of any type \<open>'s\<close>.
\<close>

record 's log_env =
  g_logLevel :: LogLevel
  g_output :: "string \<Rightarrow> 's \<Rightarrow> 's"
  g_flush :: "'s \<Rightarrow> 's"
  log_sink :: 's

definition setLogLevel :: "LogLevel \<Rightarrow> 's log_env \<Rightarrow> 's log_env" where
  "setLogLevel level E = E\<lparr>g_logLevel := level\<rparr>"

definition setOutput :: "(string \<Rightarrow> 's \<Rightarrow> 's) \<Rightarrow> 's log_env \<Rightarrow> 's log_env" where
  "setOutput out E = E\<lparr>g_output := out\<rparr>"

definition setFlush :: "('s \<Rightarrow> 's) \<Rightarrow> 's log_env \<Rightarrow> 's log_env" where
  "setFlush flush E = E\<lparr>g_flush := flush\<rparr>"

definition initLogLevel :: LogLevel where "initLogLevel = INFO"

text \<open>The defaults write to \<open>stdout\<close>: the bytes written and how many of them are flushed.\<close>

definition defaultOutput :: "string \<Rightarrow> string \<times> nat \<Rightarrow> string \<times> nat" where
  "defaultOutput data = (\<lambda>(out, flushed). (out @ data, flushed))"

definition defaultFlush :: "string \<times> nat \<Rightarrow> string \<times> nat" where
  "defaultFlush = (\<lambda>(out, flushed). (out, length out))"

definition log_init :: "(string \<times> nat) log_env" where
  "log_init = \<lparr>g_logLevel = initLogLevel, g_output = defaultOutput, g_flush = defaultFlush, log_sink = ([], 0)\<rparr>"

text \<open>The destructor outputs \<open>length()\<close> bytes; after a \<open>FATAL\<close> line it flushes and aborts.\<close>

definition Logger_destroy :: "LogLevel \<Rightarrow> fixed_buffer \<Rightarrow> 's log_env \<Rightarrow> 's log_env \<times> unit res" where
  "Logger_destroy level b E =
     (let E1 = E\<lparr>log_sink := g_output E (take (nat (fb_length b)) (fb_data b)) (log_sink E)\<rparr> in
      if level = FATAL then (E1\<lparr>log_sink := g_flush E1 (log_sink E1)\<rparr>, Inl FatalAbort) else (E1, Inr ()))"

text \<open>
  A statement of the macros: \<open>LOG_DEBUG\<close> and \<open>LOG_INFO\<close> test the level, the others do not; only
  \<open>LOG_DEBUG\<close> passes the function's name.  \<open>raw\<close> is what the stack held where the buffer is.
\<close>

definition macro_enabled :: "LogLevel \<Rightarrow> 's log_env \<Rightarrow> bool" where
  "macro_enabled level E \<longleftrightarrow> (if level \<in> {DEBUG, INFO} then g_logLevel E \<le> level else True)"

definition log_statement :: "(int \<Rightarrow> tm) \<Rightarrow> (int \<Rightarrow> string) \<Rightarrow> (nat \<Rightarrow> string option) \<Rightarrow> string \<Rightarrow> int \<Rightarrow> LogLevel
    \<Rightarrow> string \<Rightarrow> int \<Rightarrow> string \<Rightarrow> log_arg list \<Rightarrow> 's log_env \<Rightarrow> 's log_env \<times> unit res" where
  "log_statement localtime errmsg cstr raw now level file line func args E =
     (if macro_enabled level E then
        (case log_puts cstr (Logger_args localtime errmsg level (if level = DEBUG then Some func else None) now
             @ args @ finish_args file line) (fb_new raw) of
           Inl e \<Rightarrow> (E, Inl e)
         | Inr b \<Rightarrow> Logger_destroy level b E)
      else (E, Inr ()))"

section \<open>Lemmas\<close>

definition tm_ok :: "tm \<Rightarrow> bool" where
  "tm_ok t \<longleftrightarrow> 0 \<le> tm_year t \<and> tm_year t \<le> 8099 \<and> 0 \<le> tm_mon t \<and> tm_mon t \<le> 11 \<and> 1 \<le> tm_mday t \<and> tm_mday t \<le> 31
     \<and> 0 \<le> tm_hour t \<and> tm_hour t \<le> 23 \<and> 0 \<le> tm_min t \<and> tm_min t \<le> 59 \<and> 0 \<le> tm_sec t \<and> tm_sec t \<le> 60"

lemma length_pad: "length s \<le> w \<Longrightarrow> length (pad c w s) = w"
  by (simp add: pad_def)

lemma fmt_zero_length:
  assumes "0 \<le> i" "i < 10 ^ w" "0 < w"
  shows "length (fmt_zero w i) = w"
proof -
  have "length (show_nat (nat i)) \<le> w" by (rule show_nat_length) (use assms in \<open>simp_all add: nat_less_iff\<close>)
  then show ?thesis using assms by (simp add: fmt_zero_def length_pad)
qed

text \<open>A valid time has 19 characters; the last two are the seconds.\<close>

lemma time_text_parts:
  assumes "tm_ok t"
  shows "\<exists>p. time_text t = p @ fmt_zero 2 (tm_sec t) \<and> length p = 17
    \<and> (\<forall>s. time_text (t\<lparr>tm_sec := s\<rparr>) = p @ fmt_zero 2 s)"
proof -
  have y: "length (pad (CHR '' '') 4 (show_int (tm_year t + 1900))) = 4"
  proof (rule length_pad)
    have "length (show_nat (nat (tm_year t + 1900))) \<le> 4"
      by (rule show_nat_length) (use assms in \<open>simp_all add: tm_ok_def nat_less_iff\<close>)
    then show "length (show_int (tm_year t + 1900)) \<le> 4" using assms by (simp add: show_int_def tm_ok_def)
  qed
  have z: "length (fmt_zero 2 i) = 2" if "0 \<le> i" "i < 100" for i
    by (rule fmt_zero_length) (use that in simp_all)
  have "length (fmt_zero 2 (tm_mon t + 1)) = 2" "length (fmt_zero 2 (tm_mday t)) = 2"
    "length (fmt_zero 2 (tm_hour t)) = 2" "length (fmt_zero 2 (tm_min t)) = 2"
    by (rule z; use assms in \<open>simp add: tm_ok_def\<close>)+
  with y show ?thesis by (intro exI [of _ "pad (CHR '' '') 4 (show_int (tm_year t + 1900)) @ ''/''
     @ fmt_zero 2 (tm_mon t + 1) @ ''/'' @ fmt_zero 2 (tm_mday t) @ '' '' @ fmt_zero 2 (tm_hour t) @ '':''
     @ fmt_zero 2 (tm_min t) @ '':''"]) (simp add: time_text_def)
qed

lemma time_text_length: "tm_ok t \<Longrightarrow> length (time_text t) = 19"
proof -
  assume t: "tm_ok t"
  have "length (fmt_zero 2 (tm_sec t)) = 2" by (rule fmt_zero_length) (use t in \<open>simp_all add: tm_ok_def\<close>)
  with time_text_parts [OF t] show ?thesis by auto
qed

lemma SourceFile_no_slash: "CHR ''/'' \<notin> set (SourceFile s)"
  by (auto simp: SourceFile_def dest: set_takeWhileD)

lemma SourceFile_suffix:
  assumes "CHR ''/'' \<in> set s"
  shows "\<exists>dir. s = dir @ CHR ''/'' # SourceFile s"
proof -
  let ?P = "\<lambda>c. c \<noteq> CHR ''/''"
  have "dropWhile ?P (rev s) \<noteq> []" using assms by (auto simp: dropWhile_eq_Nil_conv)
  then obtain r where r: "dropWhile ?P (rev s) = CHR ''/'' # r"
    using hd_dropWhile [of ?P "rev s"] by (cases "dropWhile ?P (rev s)") auto
  then have "rev s = takeWhile ?P (rev s) @ CHR ''/'' # r" by (metis takeWhile_dropWhile_id)
  then have "s = rev r @ CHR ''/'' # rev (takeWhile ?P (rev s))"
    by (metis append.assoc append_Cons append_Nil rev.simps(2) rev_append rev_rev_ident)
  then show ?thesis using assms by (auto simp: SourceFile_def)
qed

text \<open>What a statement that is let through and fits its buffer does.\<close>

lemma log_statement_outputs:
  assumes "macro_enabled level E" and "level \<noteq> FATAL" and "length raw = kSmallBuffer"
    and "parts = Logger_args localtime errmsg level (if level = DEBUG then Some func else None) now
           @ args @ finish_args file line"
    and "\<forall>a\<in>set parts. arg_fine a" and "length (concat (map arg_text parts)) + kMaxNumericSize \<le> kSmallBuffer"
  shows "log_statement localtime errmsg cstr raw now level file line func args E
    = (E\<lparr>log_sink := g_output E (concat (map arg_text parts) @ drop (length (concat (map arg_text parts))) raw) (log_sink E)\<rparr>, Inr ())"
proof -
  let ?init = "Logger_args localtime errmsg level (if level = DEBUG then Some func else None) now
      @ args @ [LStr (Some '' - ''), LGeneral (SourceFile file), LChar (CHR '':''), LInt line]"
  have p: "parts = ?init @ [LChar (CHR 0x0A)]" using assms(4) by (simp add: finish_args_def)
  have "fb_inv (fb_new raw)" using assms(3) by (simp add: fb_inv_def fb_new_def kSmallBuffer_def)
  moreover have "\<forall>a\<in>set ?init. arg_fine a" using assms(5) p by simp
  moreover have "length (concat (map arg_text (?init @ [LChar (CHR 0x0A)]))) + kMaxNumericSize \<le> length raw"
    using assms(3,6) p by simp
  ultimately obtain b where b: "log_puts cstr parts (fb_new raw) = Inr b"
      "fb_data b = concat (map arg_text parts) @ drop (length (concat (map arg_text parts))) raw"
    using log_puts_ends [of raw ?init "CHR 0x0A" cstr] unfolding p by blast
  have "take (nat (fb_length b)) (fb_data b) = fb_data b" by (simp add: fb_length_def)
  then show ?thesis using b assms(1,2) by (simp add: log_statement_def assms(4) [symmetric] Logger_destroy_def)
qed

section \<open>Properties\<close>

text \<open>
  C39: a line.  When the parts of a statement leave 48 bytes of the buffer free, \<open>g_output\<close> is called
  once, and the message starts with exactly the time, the level, the arguments in order, the base
  name of the file, the line number and the newline; but the message is always the whole array of 4000
  bytes: what the stack held behind the text, \<open>raw\<close> from there on, is output too.
\<close>

theorem logger_line:
  assumes "macro_enabled level E" and "level \<noteq> FATAL" and "length raw = kSmallBuffer"
    and "parts = Logger_args localtime errmsg level (if level = DEBUG then Some func else None) now
           @ args @ finish_args file line"
    and "\<forall>a\<in>set parts. arg_fine a" and "length (concat (map arg_text parts)) + kMaxNumericSize \<le> kSmallBuffer"
  shows "log_statement localtime errmsg cstr raw now level file line func args E
    = (E\<lparr>log_sink := g_output E (concat (map arg_text parts) @ drop (length (concat (map arg_text parts))) raw) (log_sink E)\<rparr>, Inr ())"
  using log_statement_outputs [OF assms] .

definition noon :: tm where
  "noon = \<lparr>tm_year = 124, tm_mon = 0, tm_mday = 2, tm_hour = 12, tm_min = 0, tm_sec = 5\<rparr>"

lemma noon_text: "time_text noon = ''2024/01/02 12:00:05''"
  by (simp add: time_text_def noon_def fmt_zero_def pad_def show_eval digit_values [unfolded One_nat_def])

lemma logger_line_witness:
  "log_statement (\<lambda>_. noon) (\<lambda>_. []) (\<lambda>_. None) (replicate 4000 (CHR ''#'')) 1704196805000042 WARN
      ''src/net/Socket.cpp'' 18 ''f'' [LStr (Some ''fd=''), LInt 7] log_init
    = (log_init\<lparr>log_sink := (''2024/01/02 12:00:000042 WARN  fd=7 - Socket.cpp:18'' @ [CHR 0x0A] @ replicate 3949 (CHR ''#''), 0)\<rparr>, Inr ())"
proof -
  let ?parts = "Logger_args (\<lambda>_. noon) (\<lambda>_. []) WARN None 1704196805000042
     @ [LStr (Some ''fd=''), LInt 7] @ finish_args ''src/net/Socket.cpp'' 18"
  have e: "1704196805000042 smod 1000000 = (42 :: int)" by (simp add: signed_modulo_int_def signed_divide_int_def)
  have r: "replicate 4 (CHR ''0'') = ''0000''" by code_simp
  have us: "fmt_zero 6 42 = ''000042''"
    by (simp add: r fmt_zero_def pad_def show_eval digit_values [unfolded One_nat_def])
  have n: "show_int 7 = ''7''" "show_int 18 = ''18''" by (simp_all add: show_eval digit_values [unfolded One_nat_def])
  have f: "SourceFile ''src/net/Socket.cpp'' = ''Socket.cpp''" by (simp add: SourceFile_def)
  have t: "concat (map arg_text ?parts) = ''2024/01/02 12:00:000042 WARN  fd=7 - Socket.cpp:18'' @ [CHR 0x0A]"
    by (simp add: Logger_args_def Impl_args_def formatTime_def finish_args_def noon_text e us n f snprintf_def)
  let ?E = log_init
  have fine: "\<forall>a\<in>set ?parts. arg_fine a"
    by (simp add: Logger_args_def Impl_args_def formatTime_def finish_args_def)
  have len: "length (concat (map arg_text ?parts)) + kMaxNumericSize \<le> kSmallBuffer"
    unfolding t by (simp add: kSmallBuffer_def kMaxNumericSize_def)
  have "macro_enabled WARN ?E" "WARN \<noteq> FATAL" "length (replicate 4000 (CHR ''#'')) = kSmallBuffer"
    by (simp_all add: macro_enabled_def kSmallBuffer_def)
  moreover have "?parts = Logger_args (\<lambda>_. noon) (\<lambda>_. []) WARN (if WARN = DEBUG then Some ''f'' else None) 1704196805000042
     @ [LStr (Some ''fd=''), LInt 7] @ finish_args ''src/net/Socket.cpp'' 18" by simp
  ultimately have "log_statement (\<lambda>_. noon) (\<lambda>_. []) (\<lambda>_. None) (replicate 4000 (CHR ''#'')) 1704196805000042 WARN
      ''src/net/Socket.cpp'' 18 ''f'' [LStr (Some ''fd=''), LInt 7] ?E
    = (?E\<lparr>log_sink := g_output ?E (concat (map arg_text ?parts) @ drop (length (concat (map arg_text ?parts))) (replicate 4000 (CHR ''#''))) (log_sink ?E)\<rparr>, Inr ())"
    by (rule logger_line [OF _ _ _ _ fine len])
  then show ?thesis unfolding t by (simp add: log_init_def defaultOutput_def)
qed

text \<open>
  The seconds are cut off.  A formatted time has 19 characters and \<open>formatTime\<close> streams 17 of
  them: two times that differ only in their seconds, with the same microseconds, give the same text.
\<close>

theorem logger_time_lacks_seconds:
  assumes "tm_ok (localtime (now sdiv 1000000))"
    and "localtime (now' sdiv 1000000) = (localtime (now sdiv 1000000))\<lparr>tm_sec := s\<rparr>"
    and "now' smod 1000000 = now smod 1000000"
  shows "formatTime localtime now' = formatTime localtime now"
proof -
  obtain p where p: "time_text (localtime (now sdiv 1000000)) = p @ fmt_zero 2 (tm_sec (localtime (now sdiv 1000000)))"
      "length p = 17" "time_text (localtime (now' sdiv 1000000)) = p @ fmt_zero 2 s"
    using time_text_parts [OF assms(1)] assms(2) by auto
  then show ?thesis using assms(3) by (simp add: formatTime_def snprintf_def Let_def)
qed

lemma logger_time_lacks_seconds_witness:
  "formatTime (\<lambda>s. noon\<lparr>tm_sec := s mod 60\<rparr>) 7000042 = formatTime (\<lambda>s. noon\<lparr>tm_sec := s mod 60\<rparr>) 59000042"
proof -
  have e: "59000042 sdiv 1000000 = (59 :: int)" "7000042 sdiv 1000000 = (7 :: int)"
    "7000042 smod 1000000 = (59000042 smod 1000000 :: int)"
    by (simp_all add: signed_divide_int_def signed_modulo_int_def)
  show ?thesis
    by (rule logger_time_lacks_seconds [where s = 7]) (simp_all add: e noon_def tm_ok_def)
qed

text \<open>
  Filtering and aborting.  A \<open>LOG_DEBUG\<close> or \<open>LOG_INFO\<close> below the level does nothing at all; the
  other macros ignore the level, even one set above them; a \<open>LOG_FATAL\<close> whose text fits outputs its
  message first, then flushes, then aborts.
\<close>

theorem logger_filter_and_abort:
  assumes "\<forall>a\<in>set args. arg_fine a" and "- (2 ^ 31) \<le> line" and "line < 2 ^ 31" and "length raw = kSmallBuffer"
    and "length (concat (map arg_text args)) + length file \<le> 3800"
  shows "(level \<in> {DEBUG, INFO} \<longrightarrow> level < g_logLevel E \<longrightarrow>
      log_statement localtime errmsg cstr raw now level file line func args E = (E, Inr ()))
    \<and> (\<exists>msg. log_statement localtime errmsg cstr raw now FATAL file line func args E
        = (E\<lparr>log_sink := g_flush E (g_output E msg (log_sink E))\<rparr>, Inl FatalAbort))"
proof -
  have quiet: "log_statement localtime errmsg cstr raw now level file line func args E = (E, Inr ())"
    if "level \<in> {DEBUG, INFO}" "level < g_logLevel E"
  proof -
    have "\<not> macro_enabled level E" using that by (simp add: macro_enabled_def)
    then show ?thesis by (simp add: log_statement_def)
  qed
  let ?parts = "Logger_args localtime errmsg FATAL None now @ args @ finish_args file line"
  have "length (SourceFile file) \<le> length file"
    using length_takeWhile_le [of _ "rev file"] by (simp add: SourceFile_def)
  moreover have "length (show_int line) \<le> Suc 10"
    by (rule show_int_length) (use assms(2,3) in simp_all)
  ultimately have "length (concat (map arg_text ?parts)) + kMaxNumericSize \<le> kSmallBuffer"
    using assms(5) by (simp add: Logger_args_def Impl_args_def formatTime_def finish_args_def kMaxNumericSize_def
        kSmallBuffer_def Let_def)
  moreover have "\<forall>a\<in>set ?parts. arg_fine a"
    using assms(1-3) by (auto simp: Logger_args_def Impl_args_def formatTime_def finish_args_def Let_def)
  moreover have "fb_inv (fb_new raw)" "fb_space (fb_new raw) = kSmallBuffer"
    using assms(4) by (simp_all add: fb_inv_def fb_new_def fb_space_def kSmallBuffer_def)
  ultimately obtain b where b: "log_puts cstr ?parts (fb_new raw) = Inr b"
    using log_puts_fit [of "fb_new raw" ?parts cstr] by auto
  then have "log_statement localtime errmsg cstr raw now FATAL file line func args E
      = (E\<lparr>log_sink := g_flush E (g_output E (take (nat (fb_length b)) (fb_data b)) (log_sink E))\<rparr>, Inl FatalAbort)"
    by (simp add: log_statement_def macro_enabled_def Logger_destroy_def)
  with quiet show ?thesis by blast
qed

lemma logger_filter_and_abort_witness:
  "log_statement (\<lambda>_. noon) (\<lambda>_. []) (\<lambda>_. None) (replicate 4000 (CHR ''#'')) 5 INFO ''a.cpp'' 1 ''f'' [LInt 3]
      (setLogLevel WARN log_init) = (setLogLevel WARN log_init, Inr ())
   \<and> (\<exists>msg. log_statement (\<lambda>_. noon) (\<lambda>_. []) (\<lambda>_. None) (replicate 4000 (CHR ''#'')) 5 FATAL ''a.cpp'' 1 ''f'' [LInt 3]
      (setLogLevel WARN log_init) = ((setLogLevel WARN log_init)\<lparr>log_sink := (msg, length msg)\<rparr>, Inl FatalAbort))"
proof -
  have "show_int 3 = ''3''" by code_simp
  then show ?thesis
    using logger_filter_and_abort [of "[LInt 3]" 1 "replicate 4000 (CHR ''#'')" "''a.cpp''" INFO
        "setLogLevel WARN log_init" "\<lambda>_. noon" "\<lambda>_. []" "\<lambda>_. None" 5 "''f''"]
    by (simp add: kSmallBuffer_def less_LogLevel_def log_init_def setLogLevel_def defaultOutput_def defaultFlush_def)
qed

text \<open>
  The file name of a line.  It has no slash, and it is the whole path or the part of it after a
  slash.
\<close>

theorem logger_source_basename:
  "CHR ''/'' \<notin> set (SourceFile s) \<and> (SourceFile s = s \<or> (\<exists>dir. s = dir @ CHR ''/'' # SourceFile s))"
proof (cases "CHR ''/'' \<in> set s")
  case True
  then show ?thesis using SourceFile_suffix SourceFile_no_slash by blast
next
  case False
  then show ?thesis by (simp add: SourceFile_def)
qed

end
