(* ===== verification/Log_Files.thy ===== *)
theory Log_Files
  imports Logging
begin

text \<open>
  The way of a log message to the disk: \<open>FileUtil\<close> writes to one file, \<open>LogFile\<close> rolls from file to
  file, \<open>AsyncLogging\<close> collects the messages of all threads and has one thread write them.
\<close>

section \<open>FileUtil\<close>

text \<open>
  \<open>fu_data\<close> are the bytes \<open>fwrite_unlocked\<close> has taken, \<open>fu_flushed\<close> how many of them were flushed.
  \<open>fopen\<close> may fail; the constructor then passes the null pointer to \<open>setbuffer\<close>.
\<close>

record file_util =
  fu_name :: string
  fu_data :: "char list"
  fu_flushed :: nat
  fu_written :: int

definition FileUtil_new :: "bool \<Rightarrow> string \<Rightarrow> file_util res" where
  "FileUtil_new fopen_ok fileName =
     (if fopen_ok then Inr \<lparr>fu_name = fileName, fu_data = [], fu_flushed = 0, fu_written = 0\<rparr>
      else Inl UndefinedBehaviour)"

definition fu_flush :: "file_util \<Rightarrow> file_util" where
  "fu_flush f = f\<lparr>fu_flushed := length (fu_data f)\<rparr>"

text \<open>The destructor closes the file, which leaves on disk everything written.\<close>

definition fu_close :: "file_util \<Rightarrow> char list" where
  [simp]: "fu_close f = fu_data f"

text \<open>
  The loop of \<open>append\<close>; \<open>fw i n\<close> is what the \<open>i\<close>-th call of \<open>fwrite_unlocked\<close> returns for \<open>n\<close> bytes.
  The loop tests nothing but \<open>written != len\<close>, so it may run forever: \<open>None\<close>.
\<close>

partial_function (option) fu_append_loop :: "(nat \<Rightarrow> nat \<Rightarrow> nat) \<Rightarrow> nat \<Rightarrow> char list \<Rightarrow> nat
    \<Rightarrow> file_util \<Rightarrow> (nat \<times> file_util) option" where
  "fu_append_loop fw i ds written f =
     (if written = length ds then Some (written, f)
      else let n = fw i (length ds - written) in
        fu_append_loop fw (Suc i) ds (written + n)
          (f\<lparr>fu_data := fu_data f @ take n (drop written ds)\<rparr>))"

definition fu_append :: "(nat \<Rightarrow> nat \<Rightarrow> nat) \<Rightarrow> char list \<Rightarrow> file_util \<Rightarrow> file_util option" where
  "fu_append fw ds f =
     (case fu_append_loop fw 0 ds 0 f of None \<Rightarrow> None
      | Some (written, f1) \<Rightarrow> Some (f1\<lparr>fu_written := fu_written f1 + int written\<rparr>))"

text \<open>\<open>fwrite\<close> never takes more than it is given.\<close>

definition fwrite_documented :: "(nat \<Rightarrow> nat \<Rightarrow> nat) \<Rightarrow> bool" where
  "fwrite_documented fw \<longleftrightarrow> (\<forall>i n. fw i n \<le> n)"

lemma fu_append_loop_progress:
  assumes fw: "fwrite_documented fw" and pos: "\<forall>i n. 0 < n \<longrightarrow> 0 < fw i n" and w: "written \<le> length ds"
  shows "fu_append_loop fw i ds written f = Some (length ds, f\<lparr>fu_data := fu_data f @ drop written ds\<rparr>)"
  using w
proof (induction "length ds - written" arbitrary: i written f rule: less_induct)
  case less
  show ?case
  proof (cases "written = length ds")
    case True
    then show ?thesis by (subst fu_append_loop.simps) simp
  next
    case False
    let ?n = "fw i (length ds - written)"
    have n: "0 < ?n" "?n \<le> length ds - written" using False less.prems pos fw
      by (simp_all add: fwrite_documented_def)
    have "fu_append_loop fw (Suc i) ds (written + ?n) (f\<lparr>fu_data := fu_data f @ take ?n (drop written ds)\<rparr>)
        = Some (length ds, (f\<lparr>fu_data := fu_data f @ take ?n (drop written ds)\<rparr>)\<lparr>fu_data :=
            fu_data (f\<lparr>fu_data := fu_data f @ take ?n (drop written ds)\<rparr>) @ drop (written + ?n) ds\<rparr>)"
      by (rule less.hyps) (use n False less.prems in simp_all)
    moreover have "take ?n (drop written ds) @ drop (written + ?n) ds = drop written ds"
      by (metis add.commute append_take_drop_id drop_drop)
    ultimately show ?thesis using False by (subst fu_append_loop.simps) (simp add: Let_def)
  qed
qed

text \<open>While every write is short the loop does not return.\<close>

lemma fu_append_loop_short:
  assumes "fu_append_loop fw i ds written f = Some r"
  shows "(\<forall>i n. 0 < n \<longrightarrow> fw i n < n) \<longrightarrow> length ds \<le> written"
  using assms
proof (rule fu_append_loop.raw_induct
    [where P = "\<lambda>fw i ds written f r. (\<forall>i n. 0 < n \<longrightarrow> fw i n < n) \<longrightarrow> length ds \<le> written", rotated])
  fix loop :: "(nat \<Rightarrow> nat \<Rightarrow> nat) \<Rightarrow> nat \<Rightarrow> char list \<Rightarrow> nat \<Rightarrow> file_util \<Rightarrow> (nat \<times> file_util) option"
  fix fw :: "nat \<Rightarrow> nat \<Rightarrow> nat" and i ds written f r
  assume IH: "\<And>fw i ds written f r. loop fw i ds written f = Some r
      \<Longrightarrow> (\<forall>i n. 0 < n \<longrightarrow> fw i n < n) \<longrightarrow> length ds \<le> written"
    and r: "(if written = length ds then Some (written, f)
      else let n = fw i (length ds - written) in
        loop fw (Suc i) ds (written + n) (f\<lparr>fu_data := fu_data f @ take n (drop written ds)\<rparr>)) = Some r"
  show "(\<forall>i n. 0 < n \<longrightarrow> fw i n < n) \<longrightarrow> length ds \<le> written"
  proof (intro impI, rule ccontr)
    assume short: "\<forall>i n. 0 < n \<longrightarrow> fw i n < n" and lt: "\<not> length ds \<le> written"
    then have n: "fw i (length ds - written) < length ds - written" by simp
    have "loop fw (Suc i) ds (written + fw i (length ds - written))
        (f\<lparr>fu_data := fu_data f @ take (fw i (length ds - written)) (drop written ds)\<rparr>) = Some r"
      using r lt by (simp add: Let_def split: if_splits)
    from IH [OF this] short n show False by simp
  qed
qed

section \<open>LogFile\<close>

text \<open>\<open>lf_closed\<close> are the contents of the files rolled away, oldest first.\<close>

record log_file =
  lf_basename :: string
  lf_rollSize :: int
  lf_flushInterval :: int
  lf_checkEveryN :: int
  lf_count :: int
  startOfPeriod :: int
  lastRoll :: int
  lastFlush :: int
  lf_file :: "file_util option"
  lf_closed :: "char list list"

definition kRollPerSeconds :: int where "kRollPerSeconds = 60 * 60 * 24"

definition period_of :: "int \<Rightarrow> int" where
  "period_of now = now sdiv kRollPerSeconds * kRollPerSeconds"

text \<open>\<open>strftime\<close> with \<open>.%Y%m%D-%H%M%S\<close>; \<open>%D\<close> stands for \<open>%m/%d/%y\<close>.\<close>

definition getLogFileName :: "(int \<Rightarrow> tm) \<Rightarrow> string \<Rightarrow> int \<Rightarrow> string" where
  "getLogFileName localtime basename now =
     (let t = localtime now in
      basename @ ''.'' @ show_int (tm_year t + 1900) @ fmt_zero 2 (tm_mon t + 1)
        @ (fmt_zero 2 (tm_mon t + 1) @ ''/'' @ fmt_zero 2 (tm_mday t) @ ''/'' @ fmt_zero 2 ((tm_year t + 1900) mod 100))
        @ ''-'' @ fmt_zero 2 (tm_hour t) @ fmt_zero 2 (tm_min t) @ fmt_zero 2 (tm_sec t) @ ''.log'')"

text \<open>\<open>rollFile\<close>: \<open>opens\<close> tells which names \<open>fopen\<close> can open; \<open>now\<close> is the clock when it runs.\<close>

definition rollFile :: "(int \<Rightarrow> tm) \<Rightarrow> (string \<Rightarrow> bool) \<Rightarrow> int \<Rightarrow> log_file \<Rightarrow> (bool \<times> log_file) res" where
  "rollFile localtime opens now L =
     (let filename = getLogFileName localtime (lf_basename L) now; start = period_of now in
      if lastRoll L < now then
        rbind (FileUtil_new (opens filename) filename) (\<lambda>f.
          Inr (True, L\<lparr>lastRoll := now, lastFlush := now, startOfPeriod := start, lf_file := Some f,
            lf_closed := lf_closed L @ (case lf_file L of None \<Rightarrow> [] | Some g \<Rightarrow> [fu_close g])\<rparr>))
      else Inr (False, L))"

definition LogFile_new :: "(int \<Rightarrow> tm) \<Rightarrow> (string \<Rightarrow> bool) \<Rightarrow> int \<Rightarrow> string \<Rightarrow> int \<Rightarrow> int \<Rightarrow> int \<Rightarrow> log_file res" where
  "LogFile_new localtime opens now basename rollSize flushInterval checkEveryN =
     rbind (rollFile localtime opens now \<lparr>lf_basename = basename, lf_rollSize = rollSize, lf_flushInterval = flushInterval,
         lf_checkEveryN = checkEveryN, lf_count = 0, startOfPeriod = 0, lastRoll = 0, lastFlush = 0, lf_file = None,
         lf_closed = []\<rparr>) (\<lambda>(_, L). Inr L)"

text \<open>
  What \<open>appendInLock\<close> does after the write, with \<open>now\<close> the clock of its own check and \<open>now2\<close> that
  of a roll.
\<close>

definition after_write :: "(int \<Rightarrow> tm) \<Rightarrow> (string \<Rightarrow> bool) \<Rightarrow> int \<Rightarrow> int \<Rightarrow> file_util \<Rightarrow> log_file \<Rightarrow> log_file res" where
  "after_write localtime opens now now2 f L =
     (if lf_rollSize L < fu_written f then rbind (rollFile localtime opens now2 L) (\<lambda>(_, L1). Inr L1)
      else let L1 = L\<lparr>lf_count := lf_count L + 1\<rparr> in
        if lf_checkEveryN L1 \<le> lf_count L1 then
          let L2 = L1\<lparr>lf_count := 0\<rparr>; thisPeriod = period_of now in
          if thisPeriod \<noteq> startOfPeriod L2 then rbind (rollFile localtime opens now2 L2) (\<lambda>(_, L3). Inr L3)
          else if lf_flushInterval L2 < now - lastFlush L2
          then Inr (L2\<lparr>lastFlush := now, lf_file := Some (fu_flush f)\<rparr>) else Inr L2
        else Inr L1)"

definition LogFile_append :: "(nat \<Rightarrow> nat \<Rightarrow> nat) \<Rightarrow> (int \<Rightarrow> tm) \<Rightarrow> (string \<Rightarrow> bool) \<Rightarrow> int \<Rightarrow> int \<Rightarrow> char list
    \<Rightarrow> log_file \<Rightarrow> log_file res option" where
  "LogFile_append fw localtime opens now now2 ds L =
     (case lf_file L of None \<Rightarrow> Some (Inl UndefinedBehaviour)
      | Some f \<Rightarrow> (case fu_append fw ds f of None \<Rightarrow> None
          | Some f1 \<Rightarrow> Some (after_write localtime opens now now2 f1 (L\<lparr>lf_file := Some f1\<rparr>))))"

definition LogFile_flush :: "log_file \<Rightarrow> log_file res" where
  "LogFile_flush L =
     (case lf_file L of None \<Rightarrow> Inl UndefinedBehaviour | Some f \<Rightarrow> Inr (L\<lparr>lf_file := Some (fu_flush f)\<rparr>))"

text \<open>Everything logged, in all files; and the invariant of the period, the counter and the size.\<close>

definition lf_all :: "log_file \<Rightarrow> char list" where
  "lf_all L = concat (lf_closed L) @ (case lf_file L of None \<Rightarrow> [] | Some f \<Rightarrow> fu_data f)"

definition logfile_inv :: "log_file \<Rightarrow> bool" where
  "logfile_inv L \<longleftrightarrow> startOfPeriod L = period_of (lastRoll L) \<and> 1 \<le> lf_checkEveryN L
     \<and> 0 \<le> lf_count L \<and> lf_count L < lf_checkEveryN L \<and> lastRoll L \<le> lastFlush L
     \<and> (\<exists>f. lf_file L = Some f \<and> fu_written f = int (length (fu_data f)))"

lemma rollFile_ok:
  assumes inv: "logfile_inv L" and opens: "\<forall>s. opens s"
  shows "\<exists>b L'. rollFile localtime opens now L = Inr (b, L') \<and> logfile_inv L' \<and> lf_all L' = lf_all L
    \<and> (b \<longleftrightarrow> lastRoll L < now) \<and> lf_rollSize L' = lf_rollSize L \<and> lf_count L' = lf_count L"
  using assms by (auto simp: rollFile_def Let_def FileUtil_new_def logfile_inv_def lf_all_def)

lemma fu_append_ok:
  assumes "fwrite_documented fw" "\<forall>i n. 0 < n \<longrightarrow> 0 < fw i n"
  shows "fu_append fw ds f = Some (f\<lparr>fu_data := fu_data f @ ds, fu_written := fu_written f + int (length ds)\<rparr>)"
  using fu_append_loop_progress [OF assms, of 0 ds 0 f] by (simp add: fu_append_def)

lemma period_of_le: "0 \<le> now \<Longrightarrow> period_of now = now - now mod kRollPerSeconds"
  by (simp add: period_of_def kRollPerSeconds_def signed_divide_int_def sgn_if minus_mod_eq_div_mult)

lemma after_write_ok:
  assumes inv: "logfile_inv L" and f: "lf_file L = Some f" and opens: "\<forall>s. opens s"
    and clock: "lastRoll L \<le> now" "lastRoll L \<le> now2"
  shows "\<exists>L'. after_write localtime opens now now2 f L = Inr L' \<and> logfile_inv L' \<and> lf_all L' = lf_all L"
proof -
  have step: "\<exists>L'. rbind (rollFile localtime opens now2 M) (\<lambda>(_, L1). Inr L1) = Inr L' \<and> logfile_inv L' \<and> lf_all L' = lf_all M"
    if "logfile_inv M" for M
    using rollFile_ok [OF that opens, of localtime now2] by auto
  have z: "logfile_inv (L\<lparr>lf_count := 0\<rparr>)" "lf_all (L\<lparr>lf_count := 0\<rparr>) = lf_all L"
    using inv by (simp_all add: logfile_inv_def lf_all_def)
  have fl: "logfile_inv (L\<lparr>lf_count := 0, lastFlush := now, lf_file := Some (fu_flush f)\<rparr>)"
    "lf_all (L\<lparr>lf_count := 0, lastFlush := now, lf_file := Some (fu_flush f)\<rparr>) = lf_all L"
    using inv f clock by (simp_all add: logfile_inv_def lf_all_def fu_flush_def)
  have c: "logfile_inv (L\<lparr>lf_count := lf_count L + 1\<rparr>) \<and> lf_all (L\<lparr>lf_count := lf_count L + 1\<rparr>) = lf_all L"
    if "lf_count L + 1 < lf_checkEveryN L"
    using that inv by (simp add: logfile_inv_def lf_all_def)
  show ?thesis
    using step [OF inv] step [OF z(1)] z fl c
    by (auto simp: after_write_def Let_def simp del: z)
qed

lemma LogFile_append_ok:
  assumes "logfile_inv L" and "fwrite_documented fw" and "\<forall>i n. 0 < n \<longrightarrow> 0 < fw i n" and "\<forall>s. opens s"
    and "lastRoll L \<le> now" and "lastRoll L \<le> now2"
  shows "\<exists>L'. LogFile_append fw localtime opens now now2 ds L = Some (Inr L') \<and> logfile_inv L'
    \<and> lf_all L' = lf_all L @ ds"
proof -
  obtain f where f: "lf_file L = Some f" using assms(1) by (auto simp: logfile_inv_def)
  let ?f = "f\<lparr>fu_data := fu_data f @ ds, fu_written := fu_written f + int (length ds)\<rparr>"
  have a: "fu_append fw ds f = Some ?f" by (rule fu_append_ok [OF assms(2,3)])
  have i: "logfile_inv (L\<lparr>lf_file := Some ?f\<rparr>)" "lf_all (L\<lparr>lf_file := Some ?f\<rparr>) = lf_all L @ ds"
    using assms(1) f by (simp_all add: logfile_inv_def lf_all_def)
  then obtain L' where "after_write localtime opens now now2 ?f (L\<lparr>lf_file := Some ?f\<rparr>) = Inr L'" "logfile_inv L'"
      "lf_all L' = lf_all L @ ds"
    using after_write_ok [OF i(1), of ?f opens now now2 localtime] assms(4-6) by auto
  then show ?thesis using f a by (simp add: LogFile_append_def)
qed

section \<open>Properties\<close>

text \<open>
  C25: log files lose nothing.  While \<open>fwrite\<close> makes progress and files can be opened, \<open>append\<close> returns,
  and the contents of the rolled files followed by the current one are everything appended, in
  order; the period of the current file stays that of its creation.
\<close>

theorem logfile_append_keeps_all:
  assumes "logfile_inv L" and "fwrite_documented fw" and "\<forall>i n. 0 < n \<longrightarrow> 0 < fw i n" and "\<forall>s. opens s"
    and "lastRoll L \<le> now" and "lastRoll L \<le> now2"
  shows "\<exists>L'. LogFile_append fw localtime opens now now2 ds L = Some (Inr L') \<and> logfile_inv L'
    \<and> lf_all L' = lf_all L @ ds"
  using assms by (rule LogFile_append_ok)

definition day_one :: log_file where
  "day_one = \<lparr>lf_basename = ''log'', lf_rollSize = 3, lf_flushInterval = 3, lf_checkEveryN = 2, lf_count = 0,
     startOfPeriod = 86400, lastRoll = 86401, lastFlush = 86401,
     lf_file = Some \<lparr>fu_name = ''log'', fu_data = ''ab'', fu_flushed = 0, fu_written = 2\<rparr>, lf_closed = [''x'']\<rparr>"

lemma day_one_inv: "logfile_inv day_one"
  by (simp add: logfile_inv_def day_one_def period_of_def kRollPerSeconds_def signed_divide_int_def)

lemma logfile_append_keeps_all_witness:
  "\<exists>L'. LogFile_append (\<lambda>_ n. n) (\<lambda>_. noon) (\<lambda>_. True) 86402 86403 ''cd'' day_one = Some (Inr L') \<and> lf_all L' = ''xabcd''"
  using logfile_append_keeps_all [OF day_one_inv, of "\<lambda>_ n. n" "\<lambda>_. True" 86402 86403 "\<lambda>_. noon" "''cd''"]
  by (auto simp: fwrite_documented_def day_one_def lf_all_def)

text \<open>
  C38: a full disk hangs the logger.  \<open>FileUtil::append\<close> tests only whether everything is written and
  never whether a write failed: if every write comes back short, the call does not return, and with it the
  \<open>LogFile::append\<close> that holds the lock.
\<close>

theorem file_append_hangs:
  assumes "\<forall>i n. 0 < n \<longrightarrow> fw i n < n" and "ds \<noteq> []" and "lf_file L = Some f"
  shows "fu_append fw ds f = None \<and> LogFile_append fw localtime opens now now2 ds L = None"
proof -
  have "fu_append_loop fw 0 ds 0 f = None"
    using fu_append_loop_short [of fw 0 ds 0 f] assms(1,2) by (cases "fu_append_loop fw 0 ds 0 f") auto
  then show ?thesis using assms(3) by (simp add: fu_append_def LogFile_append_def)
qed

lemma file_append_hangs_witness:
  "LogFile_append (\<lambda>i n. min 1 (n - 1)) (\<lambda>_. noon) (\<lambda>_. True) 86402 86403 ''cd'' day_one = None"
proof (rule file_append_hangs [THEN conjunct2])
  show "\<forall>i n :: nat. 0 < n \<longrightarrow> min 1 (n - 1) < n" by auto
  show "lf_file day_one = Some \<lparr>fu_name = ''log'', fu_data = ''ab'', fu_flushed = 0, fu_written = 2\<rparr>"
    by (simp add: day_one_def)
qed simp

text \<open>
  When a file is rolled.  After a write by \<open>append\<close>, with every name openable and the clock past
  the last roll, a new file is started exactly if the current one is over the roll size, or every
  \<open>checkEveryN\<close> writes when the day has changed; the new period starts at a multiple of a day.
\<close>

theorem logfile_rolls_when:
  assumes "\<forall>s. opens s" and "lastRoll L < now2" and "lf_file L = Some f" and "0 \<le> now2"
  shows "\<exists>L'. after_write localtime opens now now2 f L = Inr L'
    \<and> (lf_closed L' \<noteq> lf_closed L \<longleftrightarrow> lf_rollSize L < fu_written f
        \<or> lf_checkEveryN L \<le> lf_count L + 1 \<and> period_of now \<noteq> startOfPeriod L)
    \<and> (lf_closed L' \<noteq> lf_closed L \<longrightarrow> lf_closed L' = lf_closed L @ [fu_data f] \<and> lastRoll L' = now2
        \<and> startOfPeriod L' = now2 - now2 mod kRollPerSeconds)"
proof -
  have p: "period_of now2 = now2 - now2 mod kRollPerSeconds" by (rule period_of_le [OF assms(4)])
  show ?thesis
    by (cases "lf_rollSize L < fu_written f";
        cases "lf_checkEveryN L \<le> lf_count L + 1"; cases "period_of now = startOfPeriod L";
        cases "lf_flushInterval L < now - lastFlush L")
      (use assms(1-3) p in \<open>simp_all add: after_write_def rollFile_def FileUtil_new_def Let_def\<close>)
qed

lemma logfile_rolls_when_witness:
  "\<exists>L'. after_write (\<lambda>_. noon) (\<lambda>_. True) 172900 172901
      \<lparr>fu_name = ''log'', fu_data = ''ab'', fu_flushed = 0, fu_written = 2\<rparr> (day_one\<lparr>lf_count := 1\<rparr>) = Inr L'
    \<and> lf_closed L' = [''x'', ''ab''] \<and> startOfPeriod L' = 172800"
proof -
  let ?f = "\<lparr>fu_name = ''log'', fu_data = ''ab'', fu_flushed = 0, fu_written = 2\<rparr>"
  have p: "period_of 172900 = 172800"
    by (simp add: period_of_def kRollPerSeconds_def signed_divide_int_def)
  have "lf_file (day_one\<lparr>lf_count := 1\<rparr>) = Some ?f" "lastRoll (day_one\<lparr>lf_count := 1\<rparr>) < 172901"
    by (simp_all add: day_one_def)
  from logfile_rolls_when [OF _ this(2,1), of "\<lambda>_. True" "\<lambda>_. noon" 172900] obtain L' where
    "after_write (\<lambda>_. noon) (\<lambda>_. True) 172900 172901 ?f (day_one\<lparr>lf_count := 1\<rparr>) = Inr L'"
    "lf_closed L' = [''x'', ''ab'']" "startOfPeriod L' = 172901 - 172901 mod kRollPerSeconds"
    using p by (auto simp: day_one_def)
  then show ?thesis by (simp add: kRollPerSeconds_def)
qed

text \<open>
  The name of a log file.  Because of \<open>%D\<close> it has two slashes behind the base name, so it names a
  file in directories nobody creates; when such a name cannot be opened, the constructor of
  \<open>LogFile\<close> hands the null pointer to \<open>setbuffer\<close>.
\<close>

theorem logfile_name_has_slashes:
  assumes "tm_ok (localtime now)" and "0 < now" and "\<forall>s. count_list s (CHR ''/'') = 2 \<longrightarrow> \<not> opens s"
    and "CHR ''/'' \<notin> set basename"
  shows "count_list (getLogFileName localtime basename now) (CHR ''/'') = 2
    \<and> LogFile_new localtime opens now basename rollSize flushInterval checkEveryN = Inl UndefinedBehaviour"
proof -
  have n: "count_list (show_nat k) (CHR ''/'') = 0" for k
    by (rule count_notin, rule show_nat_no) (simp add: is_digit_def)
  have z: "count_list (fmt_zero w i) (CHR ''/'') = 0" for w i
    using n by (auto simp: fmt_zero_def pad_def count_list_0_iff)
  have s: "count_list (show_int i) (CHR ''/'') = 0" for i
    using n by (simp add: show_int_def)
  have "count_list (getLogFileName localtime basename now) (CHR ''/'') = 2"
    using assms(4) by (simp add: getLogFileName_def Let_def count_list_append z s count_notin)
  then show ?thesis
    using assms(2,3) by (simp add: LogFile_new_def rollFile_def FileUtil_new_def Let_def)
qed

lemma logfile_name_has_slashes_witness:
  "LogFile_new (\<lambda>_. noon) (\<lambda>s. CHR ''/'' \<notin> set s) 5 ''log'' 100 3 1024 = Inl UndefinedBehaviour"
proof -
  have "\<forall>s. count_list s (CHR ''/'') = 2 \<longrightarrow> \<not> CHR ''/'' \<notin> set s"
    by (metis count_notin zero_neq_numeral)
  from logfile_name_has_slashes [OF _ _ this, of "\<lambda>_. noon" 5 "''log''"] show ?thesis
    by (simp add: noon_def tm_ok_def)
qed

end
