(* ===== verification/AsyncLogging.thy ===== *)
theory AsyncLogging
  imports Log_Files
begin

text \<open>
  \<open>AsyncLogging\<close>: the threads of the program append lines to a current buffer under a lock; one logging
  thread swaps the filled buffers out and writes them.  The interleavings are a step relation; a
  moved-from \<open>unique_ptr\<close> is \<open>None\<close>, and using one is undefined behaviour.
\<close>

section \<open>State\<close>

text \<open>
  The logging thread is at the head of its loop, has found \<open>running_\<close> set and is on its way to the buffers
  (taking the lock, or in \<open>wait_for\<close>), has collected the buffers in \<open>to_write\<close>, has written them, or has left.  \<open>written\<close> are the buffers handed to \<open>LogFile::append\<close>; \<open>logged\<close> is kept for the
  statements only: the lines accepted so far.
\<close>

datatype writer_pc = AtHead | Entered | Collected | Written | Left

record async =
  a_running :: bool
  currentBuffer :: "fixed_buffer option"
  nextBuffer :: "fixed_buffer option"
  buffers :: "fixed_buffer list"
  newBuffer1 :: "fixed_buffer option"
  newBuffer2 :: "fixed_buffer option"
  to_write :: "fixed_buffer list"
  written :: "fixed_buffer list"
  writer :: writer_pc
  logged :: string

section \<open>Operations\<close>

text \<open>\<open>append\<close>; \<open>raw\<close> is the memory of the buffer it may allocate.\<close>

definition async_append :: "char list \<Rightarrow> char list \<Rightarrow> async \<Rightarrow> async res" where
  "async_append raw line s =
     (case currentBuffer s of None \<Rightarrow> Inl UndefinedBehaviour
      | Some cur \<Rightarrow>
          if int (length line) < fb_avail cur then
            rbind (fb_append line cur) (\<lambda>b. Inr (s\<lparr>currentBuffer := Some b\<rparr>))
          else
            let s1 = s\<lparr>buffers := buffers s @ [cur]\<rparr>;
                (nxt, s2) = (case nextBuffer s1 of
                    Some b \<Rightarrow> (b, s1\<lparr>nextBuffer := None\<rparr>) | None \<Rightarrow> (fb_new raw, s1))
            in rbind (fb_append line nxt) (\<lambda>b. Inr (s2\<lparr>currentBuffer := Some b\<rparr>)))"

definition async_stop :: "async \<Rightarrow> async" where
  "async_stop s = s\<lparr>a_running := False\<rparr>"

definition async_destroy :: "async \<Rightarrow> async" where
  "async_destroy s = (if a_running s then async_stop s else s)"

text \<open>The section of \<open>ThreadFunc\<close> under the lock.\<close>

definition async_collect :: "async \<Rightarrow> async res" where
  "async_collect s =
     (case currentBuffer s of None \<Rightarrow> Inl UndefinedBehaviour
      | Some cur \<Rightarrow>
          let s1 = s\<lparr>buffers := buffers s @ [cur]\<rparr>;
              s2 = s1\<lparr>currentBuffer := newBuffer1 s1, newBuffer1 := None\<rparr>;
              s3 = s2\<lparr>to_write := buffers s2, buffers := to_write s2\<rparr>
          in Inr (if nextBuffer s3 = None then s3\<lparr>nextBuffer := newBuffer2 s3, newBuffer2 := None\<rparr> else s3))"

definition async_write :: "async \<Rightarrow> async" where
  "async_write s = s\<lparr>written := written s @ to_write s\<rparr>"

text \<open>What the log file is given: \<open>data()\<close> and \<open>length()\<close> of each buffer.\<close>

definition output_bytes :: "fixed_buffer \<Rightarrow> char list" where
  "output_bytes b = take (nat (fb_length b)) (fb_data b)"

text \<open>Refilling the two spare buffers; \<open>back()\<close> of an empty vector is undefined.\<close>

definition take_back :: "fixed_buffer option \<Rightarrow> fixed_buffer list \<Rightarrow> (fixed_buffer option \<times> fixed_buffer list) res" where
  "take_back slot bs =
     (case slot of Some b \<Rightarrow> Inr (Some b, bs)
      | None \<Rightarrow> if bs = [] then Inl UndefinedBehaviour else Inr (Some (fb_reset (last bs)), butlast bs))"

definition async_recycle :: "async \<Rightarrow> async res" where
  "async_recycle s =
     (let bs = (if 2 < length (to_write s) then take 2 (to_write s) else to_write s) in
      rbind (take_back (newBuffer1 s) bs) (\<lambda>(n1, bs1).
      rbind (take_back (newBuffer2 s) bs1) (\<lambda>(n2, bs2).
        Inr (s\<lparr>newBuffer1 := n1, newBuffer2 := n2, to_write := []\<rparr>))))"

text \<open>
  The steps.  The flag is tested at the head of the loop and not again before the buffers are collected: a
  thread in \<open>wait_for\<close> collects when it is notified, when the time is up or for no reason at all, whatever
  the flag is by then.
\<close>

inductive async_step :: "async \<Rightarrow> async \<Rightarrow> bool" where
  line_appended: "length line < 2 ^ 31 \<Longrightarrow> length raw = kLargeBuffer \<Longrightarrow> async_append raw line s = Inr t
    \<Longrightarrow> async_step s (t\<lparr>logged := logged t @ (if length line < kLargeBuffer then line else [])\<rparr>)"
| stopped: "async_step s (async_stop s)"
| entered: "writer s = AtHead \<Longrightarrow> a_running s \<Longrightarrow> async_step s (s\<lparr>writer := Entered\<rparr>)"
| collected: "writer s = Entered \<Longrightarrow> async_collect s = Inr t
    \<Longrightarrow> async_step s (t\<lparr>writer := Collected\<rparr>)"
| wrote: "writer s = Collected \<Longrightarrow> async_step s ((async_write s)\<lparr>writer := Written\<rparr>)"
| recycled: "writer s = Written \<Longrightarrow> async_recycle s = Inr t \<Longrightarrow> async_step s (t\<lparr>writer := AtHead\<rparr>)"
| left: "writer s = AtHead \<Longrightarrow> \<not> a_running s \<Longrightarrow> async_step s (s\<lparr>writer := Left\<rparr>)"

text \<open>The constructor, then \<open>start()\<close> and the spare buffers \<open>ThreadFunc\<close> allocates before its loop.\<close>

definition AsyncLogging_new :: "char list \<Rightarrow> async" where
  "AsyncLogging_new raw = \<lparr>a_running = False, currentBuffer = Some (fb_bzero (fb_new raw)),
     nextBuffer = Some (fb_bzero (fb_new raw)), buffers = [], newBuffer1 = None, newBuffer2 = None,
     to_write = [], written = [], writer = AtHead, logged = []\<rparr>"

definition async_start :: "char list \<Rightarrow> async \<Rightarrow> async" where
  "async_start raw s = s\<lparr>a_running := True, newBuffer1 := Some (fb_bzero (fb_new raw)),
     newBuffer2 := Some (fb_bzero (fb_new raw))\<rparr>"

definition async_new :: "char list \<Rightarrow> async" where
  "async_new raw = async_start raw (AsyncLogging_new raw)"

lemmas async_new_defs = async_new_def async_start_def AsyncLogging_new_def

inductive async_reachable :: "async \<Rightarrow> bool" where
  async_init: "length raw = kLargeBuffer \<Longrightarrow> async_reachable (async_new raw)"
| async_next: "async_reachable s \<Longrightarrow> async_step s t \<Longrightarrow> async_reachable t"

section \<open>Invariant\<close>

definition large_ok :: "fixed_buffer \<Rightarrow> bool" where
  "large_ok b \<longleftrightarrow> length (fb_data b) = kLargeBuffer \<and> fb_cur b \<le> kLargeBuffer"

definition spare :: "fixed_buffer \<Rightarrow> bool" where
  "spare b \<longleftrightarrow> large_ok b \<and> fb_cur b = 0"

text \<open>
  The program holds a current buffer always, the thread both spares at the head of its loop; when the
  next buffer has been used up, a filled one is waiting in its place.  Every buffer has its size,
  and spare ones are empty.
\<close>

definition async_inv :: "async \<Rightarrow> bool" where
  "async_inv s \<longleftrightarrow>
     (\<exists>b. currentBuffer s = Some b \<and> large_ok b)
     \<and> (\<forall>b. nextBuffer s = Some b \<longrightarrow> spare b) \<and> (nextBuffer s = None \<longrightarrow> buffers s \<noteq> [])
     \<and> (\<forall>b. newBuffer1 s = Some b \<longrightarrow> spare b) \<and> (\<forall>b. newBuffer2 s = Some b \<longrightarrow> spare b)
     \<and> (\<forall>b\<in>set (buffers s). large_ok b) \<and> (\<forall>b\<in>set (to_write s). large_ok b) \<and> (\<forall>b\<in>set (written s). large_ok b)
     \<and> (writer s \<in> {AtHead, Entered, Left} \<longrightarrow> newBuffer1 s \<noteq> None \<and> newBuffer2 s \<noteq> None \<and> to_write s = [])
     \<and> (writer s \<in> {Collected, Written} \<longrightarrow>
          1 + (if newBuffer2 s = None then 1 else 0) \<le> length (to_write s) \<and> newBuffer1 s = None)"

text \<open>The buffers written or about to be, and all accepted text in the order of the buffers it sits in.\<close>

definition handed_over :: "async \<Rightarrow> fixed_buffer list" where
  "handed_over s = written s @ (if writer s = Collected then to_write s else [])"

definition in_flight :: "async \<Rightarrow> fixed_buffer list" where
  "in_flight s = handed_over s @ buffers s"

definition text_inv :: "async \<Rightarrow> bool" where
  "text_inv s \<longleftrightarrow> (\<forall>b. currentBuffer s = Some b \<longrightarrow> logged s = concat (map fb_text (in_flight s)) @ fb_text b)"

lemma large_ok_fb: "large_ok b \<Longrightarrow> fb_inv b" "large_ok b \<Longrightarrow> fb_space b = kLargeBuffer - fb_cur b"
  by (simp_all add: large_ok_def fb_inv_def fb_space_def kLargeBuffer_def)

lemma large_output:
  assumes "large_ok b"
  shows "\<exists>rest. output_bytes b = fb_text b @ rest \<and> length (output_bytes b) = kLargeBuffer"
proof -
  have "output_bytes b = fb_data b" using assms by (simp add: output_bytes_def large_ok_def fb_length_def)
  moreover have "fb_data b = fb_text b @ drop (fb_cur b) (fb_data b)" by (simp add: fb_text_def)
  ultimately show ?thesis using assms by (auto simp: large_ok_def)
qed

lemma spare_text: "spare b \<Longrightarrow> fb_text b = []"
  by (simp add: spare_def fb_text_def)

lemma large_append:
  assumes "large_ok b" "length line < fb_space b"
  shows "\<exists>b'. fb_append line b = Inr b' \<and> large_ok b' \<and> fb_text b' = fb_text b @ line"
proof -
  obtain b' where b': "fb_append line b = Inr b'" "fb_inv b'" "fb_text b' = fb_text b @ line"
    using fb_append_fits [OF large_ok_fb(1) [OF assms(1)] assms(2)] by blast
  have "length (fb_data b') = length (fb_data b)"
    using b'(1) by (auto simp: fb_append_def rbind_eq_Inr dest: vec_write_length split: if_splits)
  then show ?thesis using b' assms(1) by (auto simp: large_ok_def fb_inv_def)
qed

text \<open>A line goes whole into a spare buffer, or is dropped because it is longer than any buffer.\<close>

lemma spare_append:
  assumes "spare b" "length line < 2 ^ 31"
  shows "\<exists>b'. fb_append line b = Inr b' \<and> large_ok b' \<and> fb_text b' = (if length line < kLargeBuffer then line else [])"
proof (cases "length line < kLargeBuffer")
  case True
  then show ?thesis using large_append [of b line] assms large_ok_fb(2) [of b] spare_text [of b] by (auto simp: spare_def)
next
  case False
  then have "fb_append line b = Inr b"
    using assms by (intro fbt.put_full) (auto simp: spare_def large_ok_fb)
  then show ?thesis using False assms spare_text [of b] by (auto simp: spare_def)
qed

lemma new_spare: "length raw = kLargeBuffer \<Longrightarrow> spare (fb_new raw)" "length raw = kLargeBuffer \<Longrightarrow> spare (fb_bzero (fb_new raw))"
  by (simp_all add: spare_def large_ok_def fb_new_def fb_bzero_def)

lemma reset_spare: "large_ok b \<Longrightarrow> spare (fb_reset b)"
  by (simp add: spare_def large_ok_def fb_reset_def)

lemma async_append_inv:
  assumes inv: "async_inv s" "text_inv s" and line: "length line < 2 ^ 31" "length raw = kLargeBuffer"
  shows "\<exists>t. async_append raw line s = Inr t \<and> async_inv t
    \<and> text_inv (t\<lparr>logged := logged t @ (if length line < kLargeBuffer then line else [])\<rparr>)
    \<and> written t = written s \<and> writer t = writer s"
proof -
  obtain cur where cur: "currentBuffer s = Some cur" "large_ok cur" using inv by (auto simp: async_inv_def)
  have lt: "logged s = concat (map fb_text (in_flight s)) @ fb_text cur" using inv(2) cur by (simp add: text_inv_def)
  have av: "int (length line) < fb_avail cur \<longleftrightarrow> length line < fb_space cur"
    using fb_avail_space [OF large_ok_fb(1) [OF cur(2)]] by simp
  show ?thesis
  proof (cases "length line < fb_space cur")
    case True
    then obtain b where b: "fb_append line cur = Inr b" "large_ok b" "fb_text b = fb_text cur @ line"
      using large_append [OF cur(2)] by blast
    moreover have "length line < kLargeBuffer" using True large_ok_fb(2) [OF cur(2)] by simp
    ultimately show ?thesis using inv cur av True lt
      by (auto simp: async_append_def async_inv_def text_inv_def in_flight_def handed_over_def)
  next
    case False
    define nxt where "nxt = (case nextBuffer s of Some b \<Rightarrow> b | None \<Rightarrow> fb_new raw)"
    have "spare nxt" using inv(1) new_spare(1) [OF line(2)] by (auto simp: nxt_def async_inv_def split: option.split)
    then obtain b where b: "fb_append line nxt = Inr b" "large_ok b"
        "fb_text b = (if length line < kLargeBuffer then line else [])"
      using spare_append line(1) by blast
    have "async_append raw line s = Inr (s\<lparr>buffers := buffers s @ [cur], nextBuffer := None, currentBuffer := Some b\<rparr>)"
      using cur av False b(1) by (cases "nextBuffer s") (auto simp: async_append_def nxt_def Let_def)
    then show ?thesis using inv cur b lt
      by (auto simp: async_inv_def text_inv_def in_flight_def handed_over_def)
  qed
qed

lemma async_collect_inv:
  assumes inv: "async_inv s" "text_inv s" and pc: "writer s = Entered"
  shows "\<exists>t. async_collect s = Inr t \<and> async_inv (t\<lparr>writer := Collected\<rparr>) \<and> text_inv (t\<lparr>writer := Collected\<rparr>)"
proof -
  obtain cur n1 n2 where c: "currentBuffer s = Some cur" "large_ok cur" "newBuffer1 s = Some n1" "newBuffer2 s = Some n2"
      "spare n1" "spare n2" "to_write s = []"
    using inv(1) pc by (auto simp: async_inv_def)
  then have "logged s = concat (map fb_text (in_flight s)) @ fb_text cur" using inv(2) by (simp add: text_inv_def)
  moreover have "nextBuffer s = None \<Longrightarrow> Suc (Suc 0) \<le> Suc (length (buffers s))"
    using inv(1) by (cases "buffers s") (auto simp: async_inv_def)
  ultimately show ?thesis using c inv(1) pc spare_text [OF c(5)]
    by (auto simp: async_collect_def async_inv_def text_inv_def in_flight_def handed_over_def Let_def spare_def)
qed

lemma async_recycle_inv:
  assumes inv: "async_inv s" "text_inv s" and pc: "writer s = Written"
  shows "\<exists>t. async_recycle s = Inr t \<and> async_inv (t\<lparr>writer := AtHead\<rparr>) \<and> text_inv (t\<lparr>writer := AtHead\<rparr>)"
proof -
  let ?bs = "if 2 < length (to_write s) then take 2 (to_write s) else to_write s"
  have n1: "newBuffer1 s = None" and len: "1 + (if newBuffer2 s = None then 1 else 0) \<le> length (to_write s)"
    using inv(1) pc by (simp_all add: async_inv_def)
  then have ne: "?bs \<noteq> []" "newBuffer2 s = None \<Longrightarrow> butlast ?bs \<noteq> []"
    by (auto simp flip: length_greater_0_conv split: if_splits)
  have all: "\<forall>b\<in>set ?bs. large_ok b" using inv(1) by (auto simp: async_inv_def dest: in_set_takeD)
  have s1: "spare (fb_reset (last ?bs))" using all ne(1) by (intro reset_spare) (metis last_in_set)
  have s2: "newBuffer2 s = None \<Longrightarrow> spare (fb_reset (last (butlast ?bs)))"
    using all ne(2) by (intro reset_spare) (metis in_set_butlastD last_in_set)
  obtain n2 bs2 where n2: "take_back (newBuffer2 s) (butlast ?bs) = Inr (Some n2, bs2)" "spare n2"
    using s2 ne(2) inv(1) by (cases "newBuffer2 s") (auto simp: take_back_def async_inv_def)
  have "take_back (newBuffer1 s) ?bs = Inr (Some (fb_reset (last ?bs)), butlast ?bs)"
    using n1 ne(1) by (simp add: take_back_def)
  then have "async_recycle s = Inr (s\<lparr>newBuffer1 := Some (fb_reset (last ?bs)), newBuffer2 := Some n2, to_write := []\<rparr>)"
    using n2(1) unfolding async_recycle_def Let_def by simp
  then show ?thesis using inv pc s1 n2(2)
    by (auto simp: async_inv_def text_inv_def in_flight_def handed_over_def)
qed

lemma async_step_inv: "async_step s t \<Longrightarrow> async_inv s \<and> text_inv s \<Longrightarrow> async_inv t \<and> text_inv t"
proof (induction rule: async_step.induct)
  case (line_appended line raw s t)
  then show ?case using async_append_inv [of s line raw] by (auto simp: async_inv_def)
next
  case (stopped s)
  then show ?case by (simp add: async_stop_def async_inv_def text_inv_def in_flight_def handed_over_def)
next
  case (collected s t)
  then show ?case using async_collect_inv [of s] by auto
next
  case (entered s)
  then show ?case by (simp add: async_inv_def text_inv_def in_flight_def handed_over_def)
next
  case (wrote s)
  then show ?case by (auto simp: async_write_def async_inv_def text_inv_def in_flight_def handed_over_def)
next
  case (recycled s t)
  then show ?case using async_recycle_inv [of s] by auto
next
  case (left s)
  then show ?case by (simp add: async_inv_def text_inv_def in_flight_def handed_over_def)
qed

lemma async_reachable_inv: "async_reachable s \<Longrightarrow> async_inv s \<and> text_inv s"
proof (induction rule: async_reachable.induct)
  case (async_init raw)
  have "spare (fb_bzero (fb_new raw))" by (rule new_spare(2) [OF async_init])
  then show ?case using spare_text [of "fb_bzero (fb_new raw)"]
    by (simp add: async_inv_def text_inv_def in_flight_def handed_over_def async_new_defs spare_def)
next
  case (async_next s t)
  then show ?case using async_step_inv by blast
qed

section \<open>Properties\<close>

text \<open>
  C22: the logging thread and the appending threads never meet a moved-from buffer.  In every
  reachable interleaving, before and after \<open>stop()\<close>, an append succeeds, the thread's swap succeeds, and there
  are enough written buffers to refill the spares it gave away: \<open>back()\<close> is never called on an empty vector.
\<close>

theorem async_never_stuck:
  assumes "async_reachable s"
  shows "(length line < 2 ^ 31 \<longrightarrow> length raw = kLargeBuffer \<longrightarrow> (\<exists>t. async_append raw line s = Inr t))
    \<and> (writer s = Entered \<longrightarrow> (\<exists>t. async_collect s = Inr t))
    \<and> (writer s = Written \<longrightarrow> (\<exists>t. async_recycle s = Inr t))"
  using async_reachable_inv [OF assms] async_append_inv [of s line raw] async_collect_inv [of s]
    async_recycle_inv [of s] by blast

lemma async_start_reachable: "async_reachable (async_new (replicate kLargeBuffer (CHR ''x'')))"
  by (rule async_init) simp

lemma bye_state: "\<exists>s. async_reachable s \<and> logged s = ''bye'' \<and> writer s = AtHead \<and> written s = []"
proof -
  let ?raw = "replicate kLargeBuffer (CHR ''x'')"
  let ?s0 = "async_new ?raw"
  obtain s1 where s1: "async_append ?raw ''bye'' ?s0 = Inr s1" "written s1 = []" "writer s1 = AtHead"
    using async_append_inv [of ?s0 "''bye''" ?raw] async_reachable_inv [OF async_start_reachable]
    by (auto simp: async_new_defs)
  have l: "logged s1 = []" using s1(1)
    by (auto simp: async_append_def async_new_defs Let_def rbind_eq_Inr split: if_splits)
  let ?s2 = "s1\<lparr>logged := logged s1 @ (if length ''bye'' < kLargeBuffer then ''bye'' else [])\<rparr>"
  have "async_step ?s0 ?s2" by (rule line_appended [OF _ _ s1(1)]) simp_all
  with async_start_reachable have "async_reachable ?s2" by (rule async_next)
  then show ?thesis using s1 l by (intro exI [of _ ?s2]) (simp add: kLargeBuffer_def)
qed

lemma entered_reachable: "async_reachable ((async_new (replicate kLargeBuffer (CHR ''x'')))\<lparr>writer := Entered\<rparr>)"
  by (rule async_next [OF async_start_reachable entered]) (simp_all add: async_new_defs)

lemma async_never_stuck_witness:
  "\<exists>t. async_collect (async_stop ((async_new (replicate kLargeBuffer (CHR ''x'')))\<lparr>writer := Entered\<rparr>)) = Inr t"
  using async_never_stuck [OF async_next [OF entered_reachable stopped], of "[]" "[]"] by (simp add: async_stop_def)

text \<open>
  C13: every accepted line is handed over once, in order.  In every reachable state the texts (the bytes up to
  \<open>cur_\<close>) of the buffers already handed to the log file, of those being collected, of the filled ones and of
  the current one are, one after the other, exactly the lines appended that fit a buffer; and what the file
  is given for a buffer (\<open>length()\<close> bytes, its whole array) begins with that buffer's text.
\<close>

theorem async_keeps_order:
  assumes "async_reachable s"
  shows "(\<exists>b. currentBuffer s = Some b \<and> logged s = concat (map fb_text (in_flight s)) @ fb_text b)
    \<and> (\<forall>b\<in>set (written s). \<exists>rest. output_bytes b = fb_text b @ rest \<and> length (output_bytes b) = kLargeBuffer)"
proof -
  have inv: "async_inv s" "text_inv s" using async_reachable_inv [OF assms] by simp_all
  then have "\<exists>rest. output_bytes b = fb_text b @ rest \<and> length (output_bytes b) = kLargeBuffer" if "b \<in> set (written s)" for b
    using that large_output by (auto simp: async_inv_def)
  then show ?thesis using inv by (auto simp: async_inv_def text_inv_def)
qed

lemma async_keeps_order_witness:
  "\<exists>s b. async_reachable s \<and> currentBuffer s = Some b \<and> ''bye'' = concat (map fb_text (in_flight s)) @ fb_text b"
proof -
  obtain s where s: "async_reachable s" "logged s = ''bye''" using bye_state by blast
  from async_keeps_order [OF s(1)] s show ?thesis by auto
qed

text \<open>
  C37: what \<open>stop()\<close> leaves behind.  Once it has cleared the flag and the thread is not on its way to the
  buffers (between the test of the flag and the swap), nothing but what the thread has already collected
  is handed over any more: a line accepted into another buffer stays unwritten for ever, whatever happens.
\<close>

theorem async_stop_loses_tail:
  assumes "async_reachable s" and "\<not> a_running s" and "writer s \<noteq> Entered" and "async_step\<^sup>*\<^sup>* s t"
  shows "\<not> a_running t \<and> writer t \<noteq> Entered \<and> handed_over t = handed_over s \<and> (writer t = Left \<longrightarrow> written t = handed_over s)"
proof -
  have "async_reachable t \<and> \<not> a_running t \<and> writer t \<noteq> Entered \<and> handed_over t = handed_over s"
    using assms(4)
  proof (induction rule: rtranclp_induct)
    case (step t u)
    then have r: "async_reachable u" by (blast intro: async_next)
    from step.hyps(2) show ?case
    proof cases
      case (line_appended line raw v)
      then have "written v = written t" "writer v = writer t" "to_write v = to_write t" "a_running v = a_running t"
        by (auto simp: async_append_def Let_def rbind_eq_Inr split: option.splits if_splits)
      then have "handed_over v = handed_over t" by (simp add: handed_over_def)
      moreover have "handed_over u = handed_over v" using line_appended(1) by (simp add: handed_over_def)
      ultimately show ?thesis using step.IH line_appended(1) r \<open>writer v = writer t\<close> \<open>a_running v = a_running t\<close> by simp
    next
      case (recycled v)
      then have "written v = written t" "a_running v = a_running t"
        by (auto simp: async_recycle_def Let_def rbind_eq_Inr split: prod.splits)
      then show ?thesis using step.IH recycled(1,2) r by (simp add: handed_over_def)
    qed (use step.IH r in \<open>auto simp: async_stop_def async_write_def handed_over_def\<close>)
  qed (use assms in simp)
  moreover have "handed_over t = written t" if "writer t = Left" using that by (simp add: handed_over_def)
  ultimately show ?thesis by simp
qed

text \<open>A thread that \<open>stop()\<close> meets on its way to the buffers writes everything accepted up to then, and leaves.\<close>

theorem async_stop_meets_waiting:
  assumes "async_reachable s" and "\<not> a_running s" and "writer s = Entered"
  shows "\<exists>t. async_step\<^sup>*\<^sup>* s t \<and> writer t = Left \<and> logged s = concat (map fb_text (written t))"
proof -
  obtain t1 where t1: "async_collect s = Inr t1" using async_collect_inv [OF _ _ assms(3)] async_reachable_inv [OF assms(1)] by blast
  have inv: "async_inv s" "text_inv s" using async_reachable_inv [OF assms(1)] by simp_all
  let ?s1 = "t1\<lparr>writer := Collected\<rparr>" and ?s2 = "(async_write (t1\<lparr>writer := Collected\<rparr>))\<lparr>writer := Written\<rparr>"
  have 1: "async_step s ?s1" by (rule collected [OF assms(3) t1])
  have 2: "async_step ?s1 ?s2" by (rule wrote) simp
  have r2: "async_reachable ?s2" using assms(1) 1 2 by (blast intro: async_next)
  obtain t2 where t2: "async_recycle ?s2 = Inr t2" using async_recycle_inv [of ?s2] async_reachable_inv [OF r2] by auto
  let ?s3 = "t2\<lparr>writer := AtHead\<rparr>"
  have 3: "async_step ?s2 ?s3" by (rule recycled [OF _ t2]) simp
  have k: "\<not> a_running t2" "written t2 = written t1 @ to_write t1"
    using t1 t2 assms(2)
    by (auto simp: async_collect_def async_write_def async_recycle_def Let_def rbind_eq_Inr split: option.splits prod.splits if_splits)
  have 4: "async_step ?s3 (?s3\<lparr>writer := Left\<rparr>)" by (rule left) (use k in simp_all)
  obtain cur where c: "currentBuffer s = Some cur" "to_write s = []" using inv(1) assms(3) by (auto simp: async_inv_def)
  then have "written t1 @ to_write t1 = written s @ buffers s @ [cur]"
    using t1 by (auto simp: async_collect_def Let_def split: if_splits)
  moreover have "logged s = concat (map fb_text (written s @ buffers s @ [cur]))"
    using inv(2) c(1) assms(3) by (simp add: text_inv_def in_flight_def handed_over_def)
  ultimately have "logged s = concat (map fb_text (written (?s3\<lparr>writer := Left\<rparr>)))" using k(2) by simp
  moreover have "async_step\<^sup>*\<^sup>* s (?s3\<lparr>writer := Left\<rparr>)"
    using 1 2 3 4 by (meson converse_rtranclp_into_rtranclp rtranclp.rtrancl_refl)
  ultimately show ?thesis by (intro exI [of _ "?s3\<lparr>writer := Left\<rparr>"]) simp
qed

lemma async_stop_loses_tail_witness:
  "\<exists>s t. async_reachable s \<and> logged s = ''bye'' \<and> \<not> a_running s \<and> async_step\<^sup>*\<^sup>* s t \<and> writer t = Left \<and> written t = []"
proof -
  obtain s where s: "async_reachable s" "logged s = ''bye''" "writer s = AtHead" "written s = []"
    using bye_state by blast
  have r: "async_reachable (async_stop s)" by (rule async_next [OF s(1) stopped])
  let ?t = "(async_stop s)\<lparr>writer := Left\<rparr>"
  have st: "async_step\<^sup>*\<^sup>* (async_stop s) ?t" by (rule r_into_rtranclp, rule left) (simp_all add: async_stop_def s)
  have "written ?t = written (async_stop s)"
    using async_stop_loses_tail [OF r _ _ st] s by (simp add: async_stop_def handed_over_def)
  then show ?thesis using r st s by (intro exI [of _ "async_stop s"] exI [of _ ?t]) (simp add: async_stop_def)
qed

end
