(* ===== verification/Async_Output.thy ===== *)
theory Async_Output
  imports AsyncLogging
begin

text \<open>
  What reaches the disk: the logging thread of \<open>AsyncLogging\<close> together with the \<open>LogFile\<close> it writes to.  For
  each collected buffer the thread writes \<open>length()\<close> bytes, and \<open>length()\<close> is the capacity.
\<close>

section \<open>A round of the logging thread\<close>

text \<open>
  The environment of the thread: what \<open>fwrite\<close> returns, the time zone, which files can be opened, and the
  clock readings of the \<open>i\<close>-th call of \<open>LogFile::append\<close>.
\<close>

record disk_env =
  le_fwrite :: "nat \<Rightarrow> nat \<Rightarrow> nat"
  le_localtime :: "int \<Rightarrow> tm"
  le_opens :: "string \<Rightarrow> bool"
  le_clock :: "nat \<Rightarrow> int \<times> int"

text \<open>The loop over \<open>buffersToWrite\<close>, from call \<open>i\<close> on.\<close>

fun output_all :: "disk_env \<Rightarrow> nat \<Rightarrow> fixed_buffer list \<Rightarrow> log_file \<Rightarrow> log_file res option" where
  "output_all E i [] L = Some (Inr L)"
| "output_all E i (b # bs) L =
     (case LogFile_append (le_fwrite E) (le_localtime E) (le_opens E) (fst (le_clock E i)) (snd (le_clock E i)) (output_bytes b) L of
        None \<Rightarrow> None
      | Some (Inl e) \<Rightarrow> Some (Inl e)
      | Some (Inr L1) \<Rightarrow> output_all E (Suc i) bs L1)"

text \<open>
  The rest of the round: write, refill the spares, flush.  \<open>output\<close> is the local \<open>LogFile\<close>, constructed with
  \<open>false\<close> for its flush interval.
\<close>

definition async_round :: "disk_env \<Rightarrow> nat \<Rightarrow> async \<times> log_file \<Rightarrow> (async \<times> log_file) res option" where
  "async_round E i = (\<lambda>(s, L).
     case output_all E i (to_write s) L of
       None \<Rightarrow> None
     | Some (Inl e) \<Rightarrow> Some (Inl e)
     | Some (Inr L1) \<Rightarrow> Some (rbind (async_recycle (async_write s)) (\<lambda>s1. rbind (LogFile_flush L1) (\<lambda>L2. Inr (s1, L2)))))"

definition async_output :: "disk_env \<Rightarrow> int \<Rightarrow> string \<Rightarrow> int \<Rightarrow> log_file res" where
  "async_output E now basename rollSize = LogFile_new (le_localtime E) (le_opens E) now basename rollSize 0 1024"

text \<open>A file system that works and a clock that does not run behind the last roll.\<close>

definition env_works :: "disk_env \<Rightarrow> bool" where
  "env_works E \<longleftrightarrow> fwrite_documented (le_fwrite E) \<and> (\<forall>i n. 0 < n \<longrightarrow> 0 < le_fwrite E i n) \<and> (\<forall>s. le_opens E s)"

definition clock_from :: "disk_env \<Rightarrow> nat \<Rightarrow> int \<Rightarrow> bool" where
  "clock_from E i t \<longleftrightarrow> (\<forall>j\<ge>i. t \<le> fst (le_clock E j) \<and> t \<le> snd (le_clock E j)
     \<and> (\<forall>k\<ge>j. snd (le_clock E j) \<le> fst (le_clock E k) \<or> k = j) \<and> (\<forall>k>j. snd (le_clock E j) \<le> snd (le_clock E k)))"

lemma output_bytes_data: "output_bytes b = fb_data b"
  by (simp add: output_bytes_def fb_length_def)

lemma clock_later: "clock_from E i t \<Longrightarrow> clock_from E (Suc i) t" "clock_from E i t \<Longrightarrow> clock_from E (Suc i) (snd (le_clock E i))"
  by (auto simp: clock_from_def) (metis Suc_n_not_le_n le_SucI le_refl order_trans Suc_le_eq)+

text \<open>An append rolls to a file started at its second clock reading or keeps the file it has.\<close>

lemma append_last_roll:
  assumes "LogFile_append fw localtime opens now now2 ds L = Some (Inr L')"
  shows "lastRoll L' = lastRoll L \<or> lastRoll L' = now2"
  using assms
  by (auto simp: LogFile_append_def after_write_def rollFile_def Let_def rbind_eq_Inr split: option.splits if_splits)

lemma output_all_ok:
  assumes "env_works E" "logfile_inv L" "clock_from E i (lastRoll L)"
  shows "\<exists>L'. output_all E i bs L = Some (Inr L') \<and> logfile_inv L' \<and> lf_all L' = lf_all L @ concat (map fb_data bs)"
  using assms(2,3)
proof (induction bs arbitrary: i L)
  case Nil
  then show ?case by simp
next
  case (Cons b bs)
  have c: "lastRoll L \<le> fst (le_clock E i)" "lastRoll L \<le> snd (le_clock E i)"
    using Cons.prems(2) by (simp_all add: clock_from_def)
  obtain f where f: "lf_file L = Some f" using Cons.prems(1) by (auto simp: logfile_inv_def)
  have e: "fwrite_documented (le_fwrite E)" "\<forall>i n. 0 < n \<longrightarrow> 0 < le_fwrite E i n" "\<forall>s. le_opens E s"
    using assms(1) by (simp_all add: env_works_def)
  obtain L1 where L1: "LogFile_append (le_fwrite E) (le_localtime E) (le_opens E) (fst (le_clock E i)) (snd (le_clock E i))
        (output_bytes b) L = Some (Inr L1)" "logfile_inv L1" "lf_all L1 = lf_all L @ output_bytes b"
    using LogFile_append_ok [OF Cons.prems(1) e c, of "le_localtime E" "output_bytes b"] by blast
  have "clock_from E (Suc i) (lastRoll L1)"
    using append_last_roll [OF L1(1)] clock_later [OF Cons.prems(2)] by auto
  from Cons.IH [OF L1(2) this] L1 show ?case by (auto simp: output_bytes_data)
qed

lemma async_recycle_as:
  "async_recycle s = (let bs = (if 2 < length (to_write s) then take 2 (to_write s) else to_write s) in
     case take_back (newBuffer1 s) bs of Inl e \<Rightarrow> Inl e
     | Inr (n1, bs1) \<Rightarrow> (case take_back (newBuffer2 s) bs1 of Inl e \<Rightarrow> Inl e
       | Inr (n2, bs2) \<Rightarrow> Inr (s\<lparr>newBuffer1 := n1, newBuffer2 := n2, to_write := []\<rparr>)))"
  by (auto simp: async_recycle_def Let_def split: sum.split)

lemma recycle_frame:
  assumes "async_recycle (s\<lparr>writer := pc\<rparr>) = Inr t"
  shows "\<exists>u. async_recycle s = Inr u \<and> written u = written s"
  using assms by (cases "2 < length (to_write s)") (auto simp: async_recycle_as Let_def split: sum.splits)

lemma whole_arrays: "\<forall>b\<in>set bs. length (fb_data b) = n \<Longrightarrow> length (concat (map fb_data bs)) = n * length bs"
  by (induction bs) simp_all

text \<open>What a recycled buffer is: empty again, with the bytes it had.\<close>

lemma recycled_data:
  assumes "async_recycle s = Inr t" "newBuffer1 s = None"
  shows "\<exists>b\<in>set (to_write s). newBuffer1 t = Some (fb_reset b)"
proof -
  let ?bs = "if 2 < length (to_write s) then take 2 (to_write s) else to_write s"
  have r: "?bs \<noteq> []" "newBuffer1 t = Some (fb_reset (last ?bs))"
    using assms unfolding async_recycle_as Let_def
    by (auto simp: take_back_def split: sum.splits if_splits simp del: if_split)
  have "set ?bs \<subseteq> set (to_write s)" by (auto dest: in_set_takeD)
  moreover have "last ?bs \<in> set ?bs" using r(1) by (rule last_in_set)
  ultimately show ?thesis using r(2) by blast
qed

lemma append_array:
  assumes "fb_append line b = Inr b'"
  shows "b' = b \<or> fb_data b' = take (fb_cur b) (fb_data b) @ line @ drop (fb_cur b + length line) (fb_data b)"
  using assms by (auto simp: fb_append_def rbind_eq_Inr vec_write_def split: if_splits)

section \<open>Properties\<close>

text \<open>
  C23: what the file gets.  When files can be opened and written, a round of the logging thread succeeds
  from every reachable state with collected buffers; the log files gain the whole array of each collected
  buffer, four million bytes however little text it holds, and everything is flushed.
\<close>

theorem async_file_output:
  assumes "async_reachable s" and "writer s = Collected" and "env_works E" and "logfile_inv L"
    and "clock_from E i (lastRoll L)"
  shows "\<exists>s' L'. async_round E i (s, L) = Some (Inr (s', L')) \<and> written s' = written s @ to_write s
    \<and> lf_all L' = lf_all L @ concat (map fb_data (to_write s))
    \<and> length (lf_all L') = length (lf_all L) + 4000000 * length (to_write s)
    \<and> (\<exists>f. lf_file L' = Some f \<and> fu_flushed f = length (fu_data f))"
proof -
  obtain L1 where L1: "output_all E i (to_write s) L = Some (Inr L1)" "logfile_inv L1"
      "lf_all L1 = lf_all L @ concat (map fb_data (to_write s))"
    using output_all_ok [OF assms(3-5)] by blast
  obtain f where f: "lf_file L1 = Some f" using L1(2) by (auto simp: logfile_inv_def)
  have inv: "async_inv s" "text_inv s" using async_reachable_inv [OF assms(1)] by simp_all
  let ?s = "(async_write s)\<lparr>writer := Written\<rparr>"
  have "async_inv ?s \<and> text_inv ?s" using async_step_inv [OF wrote [OF assms(2)]] inv by blast
  then obtain s1 where "async_recycle ?s = Inr s1" using async_recycle_inv [of ?s] by auto
  then obtain s2 where s2: "async_recycle (async_write s) = Inr s2" "written s2 = written s @ to_write s"
    using recycle_frame [where s = "async_write s" and pc = Written and t = s1] by (auto simp: async_write_def)
  have "\<forall>b\<in>set (to_write s). length (fb_data b) = kLargeBuffer"
    using inv(1) by (simp add: async_inv_def large_ok_def)
  then have "length (concat (map fb_data (to_write s))) = 4000000 * length (to_write s)"
    by (simp add: whole_arrays kLargeBuffer_def)
  moreover have fl: "LogFile_flush L1 = Inr (L1\<lparr>lf_file := Some (fu_flush f)\<rparr>)"
      "lf_all (L1\<lparr>lf_file := Some (fu_flush f)\<rparr>) = lf_all L1"
    using f by (simp_all add: LogFile_flush_def lf_all_def fu_flush_def)
  moreover have "fu_flushed (fu_flush f) = length (fu_data (fu_flush f))" by (simp add: fu_flush_def)
  ultimately show ?thesis using L1 s2 by (simp add: async_round_def)
qed

lemma collected_state: "\<exists>s. async_reachable s \<and> writer s = Collected"
proof -
  let ?s = "(async_new (replicate kLargeBuffer (CHR ''x'')))\<lparr>writer := Entered\<rparr>"
  obtain t where t: "async_collect ?s = Inr t"
    using async_collect_inv [of ?s] async_reachable_inv [OF entered_reachable] by auto
  have "async_step ?s (t\<lparr>writer := Collected\<rparr>)" by (rule collected [OF _ t]) simp
  with entered_reachable have "async_reachable (t\<lparr>writer := Collected\<rparr>)" by (rule async_next)
  then show ?thesis by (intro exI [of _ "t\<lparr>writer := Collected\<rparr>"]) simp
qed

definition good_disk :: disk_env where
  "good_disk = \<lparr>le_fwrite = \<lambda>_ n. n, le_localtime = \<lambda>_. noon, le_opens = \<lambda>_. True, le_clock = \<lambda>_. (86402, 86402)\<rparr>"

lemma async_file_output_witness:
  "\<exists>s s' L'. async_round good_disk 0 (s, day_one) = Some (Inr (s', L')) \<and> 4000000 \<le> length (lf_all L')"
proof -
  obtain s where s: "async_reachable s" "writer s = Collected" using collected_state by blast
  have e: "env_works good_disk" "clock_from good_disk 0 (lastRoll day_one)"
    by (simp_all add: env_works_def good_disk_def fwrite_documented_def clock_from_def day_one_def)
  have "1 \<le> length (to_write s)" using async_reachable_inv [OF s(1)] s(2) by (simp add: async_inv_def split: if_splits)
  with async_file_output [OF s e(1) day_one_inv e(2)] show ?thesis by fastforce
qed

text \<open>
  C29: lines come back.  The spare the thread takes from the buffers it has written is empty but keeps
  its bytes, and the whole array is written next time: after a line that fits, the file is given that line
  followed by what the buffer held before, a line already in the file among it.
\<close>

theorem async_recycled_repeats:
  assumes "async_reachable s" and "writer s = Written" and "async_recycle s = Inr t" and "length line < kLargeBuffer"
  shows "\<exists>n n'. newBuffer1 t = Some n \<and> fb_text n = [] \<and> fb_append line n = Inr n' \<and> fb_text n' = line
    \<and> (\<exists>b\<in>set (to_write s). output_bytes n' = line @ drop (length line) (output_bytes b))"
proof -
  have inv: "async_inv s" using async_reachable_inv [OF assms(1)] by simp
  then have "newBuffer1 s = None" using assms(2) by (simp add: async_inv_def)
  then obtain b where b: "newBuffer1 t = Some (fb_reset b)" "b \<in> set (to_write s)"
    using recycled_data [OF assms(3)] by blast
  have ok: "large_ok b" using inv b(2) by (simp add: async_inv_def)
  obtain n' where n': "fb_append line (fb_reset b) = Inr n'" "fb_text n' = line"
    using spare_append [OF reset_spare [OF ok], of line] assms(4) by (auto simp: kLargeBuffer_def)
  then have "fb_data n' = line @ drop (length line) (fb_data b)"
    using append_array [OF n'(1)] spare_text [OF reset_spare [OF ok]] by (auto simp: fb_reset_def)
  then show ?thesis using b n' spare_text [OF reset_spare [OF ok]] by (auto simp: output_bytes_data)
qed

lemma async_recycled_repeats_witness:
  "\<exists>s t n'. async_reachable s \<and> writer s = Written \<and> async_recycle s = Inr t
    \<and> (\<exists>b\<in>set (to_write s). output_bytes n' = ''bye'' @ drop (length ''bye'') (output_bytes b))"
proof -
  obtain s where s: "async_reachable s" "writer s = Collected" using collected_state by blast
  let ?s = "(async_write s)\<lparr>writer := Written\<rparr>"
  have r: "async_reachable ?s" by (rule async_next [OF s(1) wrote [OF s(2)]])
  then obtain t where t: "async_recycle ?s = Inr t" using async_recycle_inv [of ?s] async_reachable_inv by auto
  have "length ''bye'' < kLargeBuffer" by (simp add: kLargeBuffer_def)
  obtain n n' where "\<exists>b\<in>set (to_write ?s). output_bytes n' = ''bye'' @ drop (length ''bye'') (output_bytes b)"
    using async_recycled_repeats [OF r _ t \<open>length ''bye'' < kLargeBuffer\<close>] by force
  with r t show ?thesis by (intro exI [of _ ?s] exI [of _ t] exI [of _ n'] conjI) simp_all
qed

section \<open>The front end on top\<close>

text \<open>\<open>AsyncLogging::append\<close> as the output function of the loggers; \<open>raw\<close> as in \<open>async_append\<close>.\<close>

definition async_logger :: "char list \<Rightarrow> string \<Rightarrow> async res \<Rightarrow> async res" where
  "async_logger raw msg r = rbind r (async_append raw msg)"

text \<open>
  C24: from the statement to the buffers.  With \<open>AsyncLogging::append\<close> as the output function, a logging
  statement that passes the filter and fits its buffer succeeds in every reachable state of the back end and
  is one step of it: the text of the statement, followed by the rest of the 4000 bytes of its buffer, is
  accepted behind all that was logged before.
\<close>

theorem logger_feeds_async:
  assumes "async_reachable s" and "log_sink E = Inr s" and "length raw = kLargeBuffer"
    and "macro_enabled level E" and "level \<noteq> FATAL" and "length stack = kSmallBuffer"
    and "parts = Logger_args localtime errmsg level (if level = DEBUG then Some func else None) now
           @ args @ finish_args file line"
    and "\<forall>a\<in>set parts. arg_fine a" and "length (concat (map arg_text parts)) + kMaxNumericSize \<le> kSmallBuffer"
  shows "\<exists>t rest. log_statement localtime errmsg cstr stack now level file line func args (setOutput (async_logger raw) E)
      = ((setOutput (async_logger raw) E)\<lparr>log_sink := Inr t\<rparr>, Inr ())
    \<and> length (concat (map arg_text parts)) + length rest = 4000
    \<and> async_reachable (t\<lparr>logged := logged s @ concat (map arg_text parts) @ rest\<rparr>)"
proof -
  let ?E = "setOutput (async_logger raw) E" and ?text = "concat (map arg_text parts)"
  have "macro_enabled level ?E" using assms(4) by (simp add: macro_enabled_def setOutput_def)
  then have "log_statement localtime errmsg cstr stack now level file line func args ?E
      = (?E\<lparr>log_sink := g_output ?E (?text @ drop (length ?text) stack) (log_sink ?E)\<rparr>, Inr ())"
    by (rule log_statement_outputs [OF _ assms(5-9)])
  moreover have "length ?text + length (drop (length ?text) stack) = 4000"
    using assms(6,9) by (simp add: kSmallBuffer_def)
  ultimately obtain rest where r: "log_statement localtime errmsg cstr stack now level file line func args ?E
      = (?E\<lparr>log_sink := g_output ?E (?text @ rest) (log_sink ?E)\<rparr>, Inr ())" "length ?text + length rest = 4000"
    by blast
  have len: "length (?text @ rest) < 2 ^ 31" "length (?text @ rest) < kLargeBuffer"
    using r(2) by (simp_all add: kLargeBuffer_def)
  obtain t where t: "async_append raw (?text @ rest) s = Inr t"
    using async_append_inv [of s "?text @ rest" raw] async_reachable_inv [OF assms(1)] len(1) assms(3) by blast
  then have "logged t = logged s"
    by (auto simp: async_append_def Let_def rbind_eq_Inr split: option.splits if_splits)
  then have "async_step s (t\<lparr>logged := logged s @ ?text @ rest\<rparr>)"
    using line_appended [OF len(1) assms(3) t] len(2) by simp
  then have "async_reachable (t\<lparr>logged := logged s @ ?text @ rest\<rparr>)" by (rule async_next [OF assms(1)])
  moreover have "g_output ?E (?text @ rest) (log_sink ?E) = Inr t"
    using t assms(2) by (simp add: setOutput_def async_logger_def)
  ultimately show ?thesis using r by auto
qed

lemma logger_feeds_async_witness:
  "\<exists>E s t text rest. log_sink E = Inr s \<and> async_reachable s
    \<and> snd (log_statement (\<lambda>_. noon) (\<lambda>_. []) (\<lambda>_. None) (replicate 4000 (CHR ''#'')) 5 WARN ''a.cpp'' 18 ''f''
         [LStr (Some ''up'')] (setOutput (async_logger (replicate kLargeBuffer (CHR ''x''))) E)) = Inr ()
    \<and> length (text @ rest) = 4000 \<and> async_reachable (t\<lparr>logged := logged s @ text @ rest\<rparr>)"
proof -
  let ?s = "async_new (replicate kLargeBuffer (CHR ''x''))"
  let ?E = "\<lparr>g_logLevel = INFO, g_output = \<lambda>_ r. r, g_flush = \<lambda>r. r, log_sink = Inr ?s\<rparr> :: async res log_env"
  let ?parts = "Logger_args (\<lambda>_. noon) (\<lambda>_. []) WARN (if WARN = DEBUG then Some ''f'' else None) 5
     @ [LStr (Some ''up'')] @ finish_args ''a.cpp'' 18"
  have fine: "\<forall>a\<in>set ?parts. arg_fine a"
    by (simp add: Logger_args_def Impl_args_def formatTime_def finish_args_def Let_def)
  have "length (show_int 18) \<le> Suc 10" by (rule show_int_length) simp_all
  then have len: "length (concat (map arg_text ?parts)) + kMaxNumericSize \<le> kSmallBuffer"
    by (simp add: Logger_args_def Impl_args_def formatTime_def finish_args_def kMaxNumericSize_def
        kSmallBuffer_def Let_def SourceFile_def snprintf_def)
  have pre: "log_sink ?E = Inr ?s" "length (replicate kLargeBuffer (CHR ''x'')) = kLargeBuffer" "macro_enabled WARN ?E"
    "WARN \<noteq> FATAL" "length (replicate 4000 (CHR ''#'')) = kSmallBuffer"
    by (simp_all add: macro_enabled_def kSmallBuffer_def)
  from logger_feeds_async [OF async_start_reachable pre refl fine len]
  obtain t rest where "log_statement (\<lambda>_. noon) (\<lambda>_. []) (\<lambda>_. None) (replicate 4000 (CHR ''#'')) 5 WARN ''a.cpp'' 18 ''f''
         [LStr (Some ''up'')] (setOutput (async_logger (replicate kLargeBuffer (CHR ''x''))) ?E)
      = ((setOutput (async_logger (replicate kLargeBuffer (CHR ''x''))) ?E)\<lparr>log_sink := Inr t\<rparr>, Inr ())"
      "length (concat (map arg_text ?parts)) + length rest = 4000"
      "async_reachable (t\<lparr>logged := logged ?s @ concat (map arg_text ?parts) @ rest\<rparr>)"
    by blast
  then show ?thesis using async_start_reachable
    by (intro exI [of _ ?E] exI [of _ ?s] exI [of _ t] exI [of _ "concat (map arg_text ?parts)"] exI [of _ rest]) simp
qed

end
